(* ===== verification/Qaas_Prelude.thy ===== *)
theory Qaas_Prelude
  imports Main "HOL-Library.Word" "HOL-Library.AList" "HOL-Library.Multiset"
begin

text \<open>
  The prelude of the development: names for the machine integers of the Rust sources, the
  error values of \<^verbatim>\<open>std::io\<close>, the saturating arithmetic of the integer types, the hash maps
  (association lists with an explicit iteration order) and the \<^verbatim>\<open>VecDeque\<close> operations the
  components share, with the lemmas about them that the component theories use.
\<close>

section \<open>Machine integers, instants and errors\<close>

type_synonym u8 = "8 word"
type_synonym u16 = "16 word"
type_synonym u32 = "32 word"
type_synonym u64 = "64 word"

text \<open>
  An \<^verbatim>\<open>Instant\<close> and a \<^verbatim>\<open>Duration\<close> count nanoseconds; the monotonic clock starts at some
  origin, so both are natural numbers.
\<close>

type_synonym instant = nat
type_synonym duration = nat

definition nanos_per_sec :: nat where
  "nanos_per_sec = 1000000000"

definition from_secs :: "nat \<Rightarrow> duration" where
  "from_secs s = s * nanos_per_sec"

definition from_millis :: "nat \<Rightarrow> duration" where
  "from_millis ms = ms * 1000000"

text \<open>The kinds of \<^verbatim>\<open>std::io::Error\<close> the code distinguishes.\<close>

datatype io_error = NotFound | InvalidData | OtherIo

type_synonym 'a io_result = "io_error + 'a"

section \<open>Proof collections\<close>

named_theorems wf_intros \<open>introduction rules of the component invariants\<close>
named_theorems alist_simps \<open>lookups in updated and shrunk association lists\<close>
named_theorems frame_simps \<open>record fields an operation leaves unchanged\<close>

section \<open>Saturating arithmetic\<close>

definition sat_add :: "'a::len word \<Rightarrow> 'a word \<Rightarrow> 'a word" where
  "sat_add x y = (if unat x + unat y < 2 ^ LENGTH('a) then x + y else - 1)"

definition sat_sub :: "'a::len word \<Rightarrow> 'a word \<Rightarrow> 'a word" where
  "sat_sub x y = (if x < y then 0 else x - y)"

lemma unat_max_word: "unat (- 1 :: 'a::len word) = 2 ^ LENGTH('a) - 1"
  by (simp add: unsigned_minus_1_eq_mask mask_eq_exp_minus_1)

lemma unat_sat_add:
  "unat (sat_add x y) = min (unat x + unat y) (2 ^ LENGTH('a) - 1)" for x y :: "'a::len word"
proof (cases "unat x + unat y < 2 ^ LENGTH('a)")
  case True
  then have "unat (x + y) = unat x + unat y"
    by (simp add: unat_word_ariths)
  with True show ?thesis by (simp add: sat_add_def)
next
  case False
  then show ?thesis by (simp add: sat_add_def unat_max_word)
qed

lemma unat_sat_sub: "unat (sat_sub x y) = unat x - unat y" for x y :: "'a::len word"
  by (simp add: sat_sub_def word_less_nat_alt unat_sub_if')

lemma sat_add_ge: "x \<le> sat_add x y" for x y :: "'a::len word"
proof -
  have "unat x < 2 ^ LENGTH('a)"
    by simp
  then have "unat x \<le> 2 ^ LENGTH('a) - 1"
    by linarith
  then show ?thesis by (simp add: word_le_nat_alt unat_sat_add)
qed

lemma sat_add_mono: "x \<le> x' \<Longrightarrow> sat_add x y \<le> sat_add x' y" for x y :: "'a::len word"
  by (simp add: word_le_nat_alt unat_sat_add)

text \<open>\<^verbatim>\<open>u64::try_from(n).unwrap_or(u64::MAX)\<close> on a length.\<close>

definition usize_to_u64 :: "nat \<Rightarrow> u64" where
  "usize_to_u64 n = (if n < 2 ^ 64 then of_nat n else - 1)"

lemma unat_usize_to_u64: "unat (usize_to_u64 n) = min n (2 ^ 64 - 1)"
proof (cases "n < 2 ^ 64")
  case True
  then have "unat (of_nat n :: u64) = n" by (simp add: unat_of_nat)
  with True show ?thesis by (simp add: usize_to_u64_def)
next
  case False
  then show ?thesis using unat_max_word [where 'a = 64] by (simp add: usize_to_u64_def)
qed

section \<open>Hash maps with an explicit iteration order\<close>

text \<open>
  A \<^verbatim>\<open>HashMap\<close> the code iterates over is an association list with distinct keys. The iteration
  order of a \<^verbatim>\<open>HashMap\<close> is not specified, so every operation that iterates takes a rank for
  the keys and visits them by increasing rank: every permutation of the entries is the order of
  some rank.
\<close>

type_synonym ('k, 'v) hash_map = "('k \<times> 'v) list"
type_synonym 'k iter_rank = "'k \<Rightarrow> nat"

definition hm_iter :: "'k iter_rank \<Rightarrow> ('k, 'v) hash_map \<Rightarrow> ('k \<times> 'v) list" where
  "hm_iter rank m = sort_key (\<lambda>kv. rank (fst kv)) m"

definition hm_wf :: "('k, 'v) hash_map \<Rightarrow> bool" where
  "hm_wf m \<longleftrightarrow> distinct (map fst m)"

lemma set_hm_iter [simp]: "set (hm_iter rank m) = set m"
  by (simp add: hm_iter_def)

lemma mset_hm_iter [simp]: "mset (hm_iter rank m) = mset m"
  by (simp add: hm_iter_def)

lemma length_hm_iter [simp]: "length (hm_iter rank m) = length m"
  by (simp add: hm_iter_def)

lemma distinct_keys_hm_iter [simp]:
  "distinct (map fst (hm_iter rank m)) \<longleftrightarrow> distinct (map fst m)"
proof -
  have "mset (map fst (hm_iter rank m)) = mset (map fst m)"
    by simp
  then show ?thesis
    by (metis mset_eq_imp_distinct_iff)
qed

lemma hm_wf_Nil [simp, wf_intros]: "hm_wf []"
  by (simp add: hm_wf_def)

lemma hm_wf_update [simp, wf_intros]: "hm_wf m \<Longrightarrow> hm_wf (AList.update k v m)"
  by (simp add: hm_wf_def distinct_update)

lemma hm_wf_delete [simp, wf_intros]: "hm_wf m \<Longrightarrow> hm_wf (AList.delete k m)"
  by (simp add: hm_wf_def distinct_delete)

lemma map_of_update [simp, alist_simps]:
  "map_of (AList.update k v m) = (map_of m)(k \<mapsto> v)"
  by (rule update_conv')

lemma map_of_delete [simp, alist_simps]:
  "map_of (AList.delete k m) = (map_of m)(k := None)"
  by (rule delete_conv')

lemma hm_lookup_iff: "hm_wf m \<Longrightarrow> map_of m k = Some v \<longleftrightarrow> (k, v) \<in> set m"
  by (simp add: hm_wf_def)

lemma hm_absent_iff [alist_simps]: "map_of m k = None \<longleftrightarrow> k \<notin> fst ` set m"
  by (simp add: map_of_eq_None_iff)

lemma keys_update: "fst ` set (AList.update k v m) = insert k (fst ` set m)"
  by (simp add: dom_update)

lemma set_delete [simp]: "set (AList.delete k m) = {kv \<in> set m. fst kv \<noteq> k}"
  by (auto simp: AList.delete_eq)

lemma keys_delete: "fst ` set (AList.delete k m) = fst ` set m - {k}"
  by auto

lemma map_of_hm_iter [simp]:
  assumes "hm_wf m"
  shows "map_of (hm_iter rank m) = map_of m"
proof
  fix k
  have "distinct (map fst (hm_iter rank m))"
    using assms by (simp add: hm_wf_def)
  then show "map_of (hm_iter rank m) k = map_of m k"
    using assms unfolding hm_wf_def
    by (metis map_of_eq_Some_iff not_Some_eq set_hm_iter)
qed

lemma mset_delete:
  assumes "hm_wf m" and "map_of m k = Some v"
  shows "mset m = add_mset (k, v) (mset (AList.delete k m))"
  using assms
proof (induction m)
  case Nil
  then show ?case by simp
next
  case (Cons kv m)
  obtain k' v' where kv: "kv = (k', v')" by (cases kv)
  show ?case
  proof (cases "k' = k")
    case True
    with Cons.prems kv have "k \<notin> fst ` set m" and "v' = v"
      by (auto simp: hm_wf_def)
    with True kv show ?thesis by simp
  next
    case False
    with Cons kv show ?thesis by (auto simp: hm_wf_def)
  qed
qed

section \<open>Removing the entry of a queue at the first matching position\<close>

text \<open>\<^verbatim>\<open>iter().position(p)\<close> followed by \<^verbatim>\<open>remove(index)\<close> drops the first match.\<close>

fun remove_first :: "('a \<Rightarrow> bool) \<Rightarrow> 'a list \<Rightarrow> 'a list" where
  "remove_first p [] = []"
| "remove_first p (x # xs) = (if p x then xs else x # remove_first p xs)"

lemma remove_first_none [simp]: "\<forall>x\<in>set xs. \<not> p x \<Longrightarrow> remove_first p xs = xs"
  by (induction xs) auto

lemma remove_first_append:
  "remove_first p (xs @ ys) =
     (if \<exists>x\<in>set xs. p x then remove_first p xs @ ys else xs @ remove_first p ys)"
  by (induction xs) auto

lemma set_remove_first_subset: "set (remove_first p xs) \<subseteq> set xs"
  by (induction xs) auto

lemma remove_first_eq_filter:
  "distinct (map f xs) \<Longrightarrow> remove_first (\<lambda>x. f x = k) xs = filter (\<lambda>x. f x \<noteq> k) xs"
proof (induction xs)
  case Nil
  then show ?case by simp
next
  case (Cons x xs)
  show ?case
  proof (cases "f x = k")
    case True
    with Cons.prems have "\<forall>y\<in>set xs. f y \<noteq> k" by (auto simp: rev_image_eqI)
    with True show ?thesis by (simp add: filter_id_conv)
  next
    case False
    with Cons show ?thesis by simp
  qed
qed

lemma find_Some_set: "find p xs = Some x \<Longrightarrow> x \<in> set xs \<and> p x"
  by (induction xs) (auto split: if_splits)

lemma find_distinct_key:
  "distinct (map f xs) \<Longrightarrow> x \<in> set xs \<Longrightarrow> find (\<lambda>y. f y = f x) xs = Some x"
  by (induction xs) auto

end
