(* ===== verification/Wal.thy ===== *)
theory Wal
  imports Qaas_Prelude
begin

text \<open>
  The write-ahead log of \<^verbatim>\<open>crates/qaas-core/src/wal.rs\<close>, at the level of the bytes of its file:
  the record frame (length, checksum, payload), the read loop that tells a clean end of file from
  a torn one, the replay loop, and the append with every way it can fail. The serializer
  (\<^verbatim>\<open>serde_json\<close>) and the checksum (\<^verbatim>\<open>crc32fast\<close>) are libraries: they are the fields of a
  \<open>codec\<close>, a parameter of the definitions.

  The lemmas show that reading does not depend on how the operating system chunks reads, that a
  crash keeps exactly the records that were written in full, that an acknowledged append survives
  every crash, and where that guarantee stops.
\<close>

section \<open>Little-endian integers\<close>

definition to_le_bytes :: "u32 \<Rightarrow> u8 list" where
  "to_le_bytes w = map (\<lambda>i. ucast (drop_bit (8 * i) w)) [0, 1, 2, 3]"

definition from_le_bytes :: "u8 list \<Rightarrow> u32" where
  "from_le_bytes bs = foldr (\<lambda>b acc. ucast b + 256 * acc) bs 0"

lemma length_to_le_bytes [simp]: "length (to_le_bytes w) = 4"
  by (simp add: to_le_bytes_def)

lemma unat_byte: "unat (ucast (drop_bit (8 * i) w) :: u8) = unat w div 256 ^ i mod 256" for w :: u32
proof -
  have "unat (ucast (drop_bit (8 * i) w) :: u8) = unat (drop_bit (8 * i) w) mod 2 ^ 8"
    by (simp add: unsigned_ucast_eq take_bit_eq_mod)
  also have "unat (drop_bit (8 * i) w) = unat w div 256 ^ i"
  proof -
    have "unat w < 2 ^ 32"
      using unsigned_less [of w] by simp
    then show ?thesis
      by (simp only: unsigned_drop_bit_eq) (simp add: drop_bit_eq_div power_mult take_bit_nat_eq_self)
  qed
  finally show ?thesis by simp
qed

lemma base256_digits:
  assumes "n < (4294967296 :: nat)"
  shows "n = n mod 256 + 256 * (n div 256 mod 256
      + 256 * (n div 65536 mod 256 + 256 * (n div 16777216 mod 256)))"
proof -
  have d: "m = m mod 256 + 256 * (m div 256)" for m :: nat
    by simp
  have "n div 16777216 < 256"
    using assms by (simp add: less_mult_imp_div_less)
  then have "n div 16777216 mod 256 = n div 65536 div 256"
    by (simp flip: div_mult2_eq)
  moreover have "n div 65536 = n div 256 div 256"
    by (simp flip: div_mult2_eq)
  ultimately show ?thesis
    using d [of n] d [of "n div 256"] d [of "n div 65536"] by simp
qed

lemma from_to_le_bytes [simp]: "from_le_bytes (to_le_bytes w) = w"
proof -
  have b: "(ucast (ucast (drop_bit (8 * i) w) :: u8) :: u32) = of_nat (unat w div 256 ^ i mod 256)" for i
  proof -
    have "(ucast (ucast (drop_bit (8 * i) w) :: u8) :: u32)
        = of_nat (unat (ucast (drop_bit (8 * i) w) :: u8))"
      by simp
    then show ?thesis by (simp only: unat_byte)
  qed
  have lt: "unat w < 4294967296"
    using unsigned_less [of w] by simp
  have "from_le_bytes (to_le_bytes w) = of_nat (unat w mod 256 + 256 * (unat w div 256 mod 256
      + 256 * (unat w div 65536 mod 256 + 256 * (unat w div 16777216 mod 256))))"
    unfolding from_le_bytes_def to_le_bytes_def
    by (simp only: list.map foldr.simps o_def id_def b) simp
  also have "\<dots> = of_nat (unat w)"
    by (simp only: base256_digits [OF lt, symmetric])
  finally show ?thesis by simp
qed

section \<open>The frame of a record\<close>

definition LENGTH_PREFIX_BYTES :: nat where
  "LENGTH_PREFIX_BYTES = 4"

definition CHECKSUM_BYTES :: nat where
  "CHECKSUM_BYTES = 4"

text \<open>The library functions the log calls.\<close>

record 'r codec =
  to_vec :: "'r \<Rightarrow> u8 list option"
  from_slice :: "u8 list \<Rightarrow> 'r option"
  crc32 :: "u8 list \<Rightarrow> u32"

text \<open>
  What the log relies on: a payload the serializer wrote is read back as the record it was
  written from.
\<close>

definition serde_roundtrip :: "'r codec \<Rightarrow> bool" where
  "serde_roundtrip c \<longleftrightarrow> (\<forall>r p. to_vec c r = Some p \<longrightarrow> from_slice c p = Some r)"

definition wal_frame :: "'r codec \<Rightarrow> u8 list \<Rightarrow> u8 list" where
  "wal_frame c payload =
     to_le_bytes (of_nat (length payload)) @ to_le_bytes (crc32 c payload) @ payload"

lemma length_wal_frame [simp]: "length (wal_frame c p) = 8 + length p"
  by (simp add: wal_frame_def)

section \<open>The file and the ways a write can end\<close>

text \<open>
  \<open>bytes\<close> is what a reader of the file sees; the first \<open>durable\<close> bytes are on the disk, the rest
  may be lost by a crash.
\<close>

record wal_file =
  bytes :: "u8 list"
  durable :: nat

text \<open>
  How \<^verbatim>\<open>write_all\<close> followed by \<^verbatim>\<open>sync_data\<close> ends: both succeed; the write fails after some prefix
  of the buffer has reached the file; the write succeeds and the sync fails.
\<close>

datatype write_outcome = WriteOk | WriteFails nat io_error | SyncFails io_error

definition wal_append :: "'r codec \<Rightarrow> 'r \<Rightarrow> write_outcome \<Rightarrow> wal_file \<Rightarrow> unit io_result \<times> wal_file" where
  "wal_append c record out f =
     (case to_vec c record of
        None \<Rightarrow> (Inl InvalidData, f)
      | Some payload \<Rightarrow>
          if 2 ^ 32 \<le> length payload then (Inl InvalidData, f)
          else
            (let framed = wal_frame c payload in
             case out of
               WriteOk \<Rightarrow>
                 (Inr (), f\<lparr>bytes := bytes f @ framed, durable := length (bytes f @ framed)\<rparr>)
             | WriteFails k e \<Rightarrow> (Inl e, f\<lparr>bytes := bytes f @ take k framed\<rparr>)
             | SyncFails e \<Rightarrow> (Inl e, f\<lparr>bytes := bytes f @ framed\<rparr>)))"

text \<open>A crash keeps the durable bytes and some prefix of what was written after them.\<close>

definition wal_crash :: "nat \<Rightarrow> wal_file \<Rightarrow> wal_file" where
  "wal_crash n f =
     f\<lparr>bytes := take (max n (durable f)) (bytes f),
       durable := length (take (max n (durable f)) (bytes f))\<rparr>"

section \<open>Reading\<close>

datatype read_outcome = Full | Eof | ShortRead

text \<open>
  One \<^verbatim>\<open>read\<close> call at an offset: it fails, or it delivers at least one byte when there is one, and
  never more than was asked for. \<open>rd\<close> says for every offset how many bytes the call delivers
  (\<open>None\<close>: it fails).
\<close>

definition file_read :: "(nat \<Rightarrow> nat option) \<Rightarrow> nat \<Rightarrow> nat \<Rightarrow> u8 list \<Rightarrow> u8 list io_result" where
  "file_read rd pos want rest =
     (case rd pos of
        None \<Rightarrow> Inl OtherIo
      | Some k \<Rightarrow> Inr (take (max 1 (min k want)) rest))"

function read_exact_or_eof ::
  "(nat \<Rightarrow> nat option) \<Rightarrow> nat \<Rightarrow> nat \<Rightarrow> u8 list \<Rightarrow> u8 list
     \<Rightarrow> (read_outcome \<times> u8 list \<times> u8 list) io_result" where
  "read_exact_or_eof rd pos n rest buf =
     (if length buf < n then
        (case file_read rd pos (n - length buf) rest of
           Inl e \<Rightarrow> Inl e
         | Inr got \<Rightarrow>
             if got = [] then Inr (if buf = [] then Eof else ShortRead, buf, rest)
             else read_exact_or_eof rd (pos + length got) n (drop (length got) rest) (buf @ got))
      else Inr (Full, buf, rest))"
  by pat_completeness auto
termination
proof (relation "measure (\<lambda>(rd, pos, n, rest, buf). n - length buf)", goal_cases)
  case 1
  show ?case by simp
next
  case (2 rd pos n rest buf got)
  then have "0 < length got" by simp
  with 2 show ?case by (simp add: diff_less_mono2)
qed

declare read_exact_or_eof.simps [simp del]

lemma file_read_prefix: "file_read rd pos want rest = Inr got \<Longrightarrow> \<exists>k. got = take k rest"
  by (auto simp: file_read_def split: option.splits)

lemma read_exact_or_eof_progress:
  "read_exact_or_eof rd pos n rest buf = Inr (Full, buf', rest') \<Longrightarrow> length buf \<le> n
     \<Longrightarrow> length rest' + n = length rest + length buf"
proof (induction rd pos n rest buf rule: read_exact_or_eof.induct)
  case (1 rd pos n rest buf)
  show ?case
  proof (cases "length buf < n")
    case False
    with 1 show ?thesis by (simp add: read_exact_or_eof.simps [of rd pos n rest buf])
  next
    case True
    then obtain got where got: "file_read rd pos (n - length buf) rest = Inr got" and "got \<noteq> []"
      using "1.prems" by (auto simp: read_exact_or_eof.simps [of rd pos n rest buf] split: sum.splits if_splits)
    moreover from got have "length got \<le> n - length buf" and "length got \<le> length rest"
      using True by (auto simp: file_read_def split: option.splits)
    ultimately show ?thesis
      using 1 True by (simp add: read_exact_or_eof.simps [of rd pos n rest buf])
  qed
qed

text \<open>
  The replay loop: \<open>pos\<close> is the offset, \<open>rest\<close> the bytes from there on. The result carries the
  records and the length of the file up to the last good one.
\<close>

function replay_loop ::
  "'r codec \<Rightarrow> (nat \<Rightarrow> nat option) \<Rightarrow> nat \<Rightarrow> u8 list \<Rightarrow> 'r list \<Rightarrow> nat \<Rightarrow> ('r list \<times> nat) io_result" where
  "replay_loop c rd pos rest records valid_len =
     (case read_exact_or_eof rd pos (LENGTH_PREFIX_BYTES + CHECKSUM_BYTES) rest [] of
        Inl e \<Rightarrow> Inl e
      | Inr (Eof, _, _) \<Rightarrow> Inr (records, valid_len)
      | Inr (ShortRead, _, _) \<Rightarrow> Inr (records, valid_len)
      | Inr (Full, header, rest1) \<Rightarrow>
          (let payload_len = unat (from_le_bytes (take LENGTH_PREFIX_BYTES header));
               expected_checksum = from_le_bytes (drop LENGTH_PREFIX_BYTES header)
           in
           case read_exact_or_eof rd (pos + length header) payload_len rest1 [] of
             Inl e \<Rightarrow> Inl e
           | Inr (Eof, _, _) \<Rightarrow> Inr (records, valid_len)
           | Inr (ShortRead, _, _) \<Rightarrow> Inr (records, valid_len)
           | Inr (Full, payload, rest2) \<Rightarrow>
               if crc32 c payload \<noteq> expected_checksum then Inr (records, valid_len)
               else
                 (case from_slice c payload of
                    None \<Rightarrow> Inl InvalidData
                  | Some record \<Rightarrow>
                      replay_loop c rd (pos + length header + length payload) rest2
                        (records @ [record]) (valid_len + (length header + length payload)))))"
  by pat_completeness auto
termination
proof (relation "measure (\<lambda>(c, rd, pos, rest, records, valid_len). length rest)", goal_cases)
  case 1
  show ?case by simp
next
  case 2
  then show ?case
    by (auto simp: LENGTH_PREFIX_BYTES_def CHECKSUM_BYTES_def dest!: read_exact_or_eof_progress)
qed

declare replay_loop.simps [simp del]


text \<open>
  \<^verbatim>\<open>Wal::replay\<close>: the file is missing (an empty log), cannot be opened, or is read to its end. The
  first argument after the codec is what \<^verbatim>\<open>File::open\<close> gives: an error or the file's bytes.
\<close>

definition wal_replay ::
  "'r codec \<Rightarrow> (nat \<Rightarrow> nat option) \<Rightarrow> u8 list io_result \<Rightarrow> ('r list \<times> nat) io_result" where
  "wal_replay c rd file =
     (case file of
        Inl NotFound \<Rightarrow> Inr ([], 0)
      | Inl e \<Rightarrow> Inl e
      | Inr contents \<Rightarrow> replay_loop c rd 0 contents [] 0)"

text \<open>\<^verbatim>\<open>File::set_len\<close>: cut the file, or pad it with zero bytes.\<close>

definition set_len :: "nat \<Rightarrow> u8 list \<Rightarrow> u8 list" where
  "set_len n bs = (if n \<le> length bs then take n bs else bs @ replicate (n - length bs) 0)"

text \<open>
  \<^verbatim>\<open>Wal::open\<close>. \<open>reopen\<close> and \<open>truncated\<close> are the results of opening the file for appending
  (creating it when it is missing) and of \<^verbatim>\<open>set_len\<close>.
\<close>

definition wal_open ::
  "'r codec \<Rightarrow> (nat \<Rightarrow> nat option) \<Rightarrow> unit io_result \<Rightarrow> unit io_result \<Rightarrow> u8 list io_result
     \<Rightarrow> (wal_file \<times> 'r list) io_result" where
  "wal_open c rd reopen truncated file =
     (case wal_replay c rd file of
        Inl e \<Rightarrow> Inl e
      | Inr (records, valid_len) \<Rightarrow>
          (case reopen of
             Inl e \<Rightarrow> Inl e
           | Inr _ \<Rightarrow>
               (case truncated of
                  Inl e \<Rightarrow> Inl e
                | Inr _ \<Rightarrow>
                    (let bs = set_len valid_len (case file of Inl _ \<Rightarrow> [] | Inr bs \<Rightarrow> bs)
                     in Inr (\<lparr>bytes = bs, durable = length bs\<rparr>, records)))))"

section \<open>Reads do not depend on how they are chunked\<close>

definition reads_ok :: "(nat \<Rightarrow> nat option) \<Rightarrow> bool" where
  "reads_ok rd \<longleftrightarrow> (\<forall>p. rd p \<noteq> None)"

lemma read_exact_or_eof_spec_aux:
  "reads_ok rd \<Longrightarrow> length buf \<le> n \<Longrightarrow>
   read_exact_or_eof rd pos n rest buf =
     Inr (if n - length buf \<le> length rest
          then (Full, buf @ take (n - length buf) rest, drop (n - length buf) rest)
          else (if buf = [] \<and> rest = [] then Eof else ShortRead, buf @ rest, []))"
proof (induction rd pos n rest buf rule: read_exact_or_eof.induct)
  case (1 rd pos n rest buf)
  note eq = read_exact_or_eof.simps [of rd pos n rest buf]
  show ?case
  proof (cases "length buf < n")
    case False
    with 1 show ?thesis by (simp add: eq)
  next
    case True
    obtain k where k: "rd pos = Some k"
      using "1.prems" by (auto simp: reads_ok_def)
    define got where "got = take (max 1 (min k (n - length buf))) rest"
    have fr: "file_read rd pos (n - length buf) rest = Inr got"
      by (simp add: file_read_def k got_def)
    show ?thesis
    proof (cases "rest = []")
      case True': True
      then have "got = []" by (simp add: got_def)
      with True True' fr eq show ?thesis by simp
    next
      case nonempty: False
      then have ne: "got \<noteq> []" by (simp add: got_def)
      have lg: "length got \<le> n - length buf"
        using True by (simp add: got_def)
      have rest: "rest = got @ drop (length got) rest"
        by (metis append_take_drop_id got_def length_take take_append take_take min.idem append_eq_conv_conj)
      have "read_exact_or_eof rd pos n rest buf =
          read_exact_or_eof rd (pos + length got) n (drop (length got) rest) (buf @ got)"
        using True fr ne by (simp add: eq)
      also have "\<dots> = Inr (if n - length (buf @ got) \<le> length (drop (length got) rest)
          then (Full, (buf @ got) @ take (n - length (buf @ got)) (drop (length got) rest),
                drop (n - length (buf @ got)) (drop (length got) rest))
          else (if buf @ got = [] \<and> drop (length got) rest = [] then Eof else ShortRead,
                (buf @ got) @ drop (length got) rest, []))"
        using "1.IH" [OF True fr ne] "1.prems" lg True by simp
      also have "\<dots> = Inr (if n - length buf \<le> length rest
          then (Full, buf @ take (n - length buf) rest, drop (n - length buf) rest)
          else (if buf = [] \<and> rest = [] then Eof else ShortRead, buf @ rest, []))"
      proof -
        have "length got \<le> length rest" by (simp add: got_def)
        moreover have "got @ take (n - length buf - length got) (drop (length got) rest) = take (n - length buf) rest"
          using lg rest by (metis append_eq_conv_conj take_add le_add_diff_inverse)
        moreover have "length got + (n - (length buf + length got)) = n - length buf"
          using lg by simp
        ultimately show ?thesis
          using ne nonempty lg rest by (auto simp: add.commute)
      qed
      finally show ?thesis .
    qed
  qed
qed

lemmas read_exact_or_eof_spec = read_exact_or_eof_spec_aux [where buf = "[]", simplified]


section \<open>The image of a list of records\<close>

definition writable :: "'r codec \<Rightarrow> 'r \<Rightarrow> bool" where
  "writable c r \<longleftrightarrow> (case to_vec c r of None \<Rightarrow> False | Some p \<Rightarrow> length p < 2 ^ 32)"

definition record_frame :: "'r codec \<Rightarrow> 'r \<Rightarrow> u8 list" where
  "record_frame c r = (case to_vec c r of None \<Rightarrow> [] | Some p \<Rightarrow> wal_frame c p)"

definition wal_image :: "'r codec \<Rightarrow> 'r list \<Rightarrow> u8 list" where
  "wal_image c rs = concat (map (record_frame c) rs)"

lemma wal_image_simps [simp]:
  "wal_image c [] = []"
  "wal_image c (r # rs) = record_frame c r @ wal_image c rs"
  "wal_image c (rs @ rs') = wal_image c rs @ wal_image c rs'"
  by (simp_all add: wal_image_def)

lemma replay_empty [simp]: "reads_ok rd \<Longrightarrow> replay_loop c rd pos [] recs v = Inr (recs, v)"
  by (subst replay_loop.simps)
     (simp add: read_exact_or_eof_spec LENGTH_PREFIX_BYTES_def CHECKSUM_BYTES_def)

lemma unat_of_nat_u32: "n < 2 ^ 32 \<Longrightarrow> unat (of_nat n :: u32) = n"
  by (simp add: unsigned_of_nat take_bit_nat_eq_self)

lemma replay_header:
  assumes "reads_ok rd"
  shows "replay_loop c rd pos (to_le_bytes n @ to_le_bytes s @ rest) recs v =
    (if length rest < unat n then Inr (recs, v)
     else if crc32 c (take (unat n) rest) \<noteq> s then Inr (recs, v)
     else case from_slice c (take (unat n) rest) of
            None \<Rightarrow> Inl InvalidData
          | Some r \<Rightarrow> replay_loop c rd (pos + (8 + unat n)) (drop (unat n) rest) (recs @ [r])
                        (v + (8 + unat n)))"
  using assms
  by (subst replay_loop.simps)
     (simp add: read_exact_or_eof_spec LENGTH_PREFIX_BYTES_def CHECKSUM_BYTES_def Let_def not_less
        min_def add.assoc split: option.split)

lemma replay_short_header:
  "reads_ok rd \<Longrightarrow> length bs < 8 \<Longrightarrow> replay_loop c rd pos bs recs v = Inr (recs, v)"
  by (subst replay_loop.simps)
     (simp add: read_exact_or_eof_spec LENGTH_PREFIX_BYTES_def CHECKSUM_BYTES_def)

lemma replay_torn:
  assumes "reads_ok rd" and "length p < 2 ^ 32" and "k < 8 + length p"
  shows "replay_loop c rd pos (take k (wal_frame c p)) recs v = Inr (recs, v)"
proof (cases "8 \<le> k")
  case True
  then have "take k (wal_frame c p) =
      to_le_bytes (of_nat (length p)) @ to_le_bytes (crc32 c p) @ take (k - 8) p"
    by (simp add: wal_frame_def)
  moreover have "k - 8 < length p"
    using assms(3) True by linarith
  ultimately show ?thesis
    using assms True
      replay_header [OF assms(1), of c pos "of_nat (length p)" "crc32 c p" "take (k - 8) p"]
    by (simp add: unat_of_nat_u32)
next
  case False
  then show ?thesis
    by (intro replay_short_header assms(1)) (simp add: min_def)
qed

lemma replay_frame:
  assumes "reads_ok rd" and "length p < 2 ^ 32" and "from_slice c p = Some r"
  shows "replay_loop c rd pos (wal_frame c p @ rest) recs v =
    replay_loop c rd (pos + length (wal_frame c p)) rest (recs @ [r]) (v + length (wal_frame c p))"
  using assms replay_header [OF assms(1), of c pos "of_nat (length p)" "crc32 c p" "p @ rest"]
  by (simp add: wal_frame_def unat_of_nat_u32 del: length_wal_frame)

lemma replay_image:
  assumes "reads_ok rd" and "serde_roundtrip c" and "\<forall>r\<in>set rs. writable c r"
  shows "replay_loop c rd pos (wal_image c rs @ rest) recs v =
    replay_loop c rd (pos + length (wal_image c rs)) rest (recs @ rs) (v + length (wal_image c rs))"
  using assms(3)
proof (induction rs arbitrary: pos recs v)
  case Nil
  then show ?case by simp
next
  case (Cons r rs)
  then obtain p where p: "to_vec c r = Some p" "length p < 2 ^ 32"
    by (auto simp: writable_def split: option.splits)
  with assms(2) have "from_slice c p = Some r"
    by (simp add: serde_roundtrip_def)
  with p show ?case
    using Cons replay_frame [OF assms(1) p(2) \<open>from_slice c p = Some r\<close>]
    by (simp add: record_frame_def add.assoc)
qed

text \<open>
  Cutting an image anywhere leaves the image of a prefix of the records and, possibly, a torn
  frame; every record that lies before the cut in full is in that prefix.
\<close>

lemma take_wal_image:
  assumes "\<forall>r\<in>set rs. writable c r"
  shows "\<exists>j k p. j \<le> length rs \<and> length p < 2 ^ 32 \<and> k < 8 + length p \<and>
    take n (wal_image c rs) = wal_image c (take j rs) @ take k (wal_frame c p) \<and>
    (\<forall>m\<le>length rs. length (wal_image c (take m rs)) \<le> n \<longrightarrow> m \<le> j)"
  using assms
proof (induction rs arbitrary: n)
  case Nil
  show ?case by (rule exI [of _ 0], rule exI [of _ 0], rule exI [of _ "[]"]) simp
next
  case (Cons r rs)
  then obtain p where p: "to_vec c r = Some p" "length p < 2 ^ 32"
    by (auto simp: writable_def split: option.splits)
  then have fr: "record_frame c r = wal_frame c p"
    by (simp add: record_frame_def)
  show ?case
  proof (cases "n < length (wal_frame c p)")
    case True
    have "m = 0" if "length (wal_image c (take m (r # rs))) \<le> n" for m
      using that True fr by (cases m) auto
    with True show ?thesis
      using p fr by (intro exI [of _ 0] exI [of _ n] exI [of _ p]) auto
  next
    case False
    have "\<forall>r\<in>set rs. writable c r"
      using Cons.prems by simp
    from Cons.IH [OF this, of "n - length (wal_frame c p)"] obtain j k q where jkq: "j \<le> length rs" "length q < 2 ^ 32" "k < 8 + length q"
      "take (n - length (wal_frame c p)) (wal_image c rs) = wal_image c (take j rs) @ take k (wal_frame c q)"
      "\<forall>m\<le>length rs. length (wal_image c (take m rs)) \<le> n - length (wal_frame c p) \<longrightarrow> m \<le> j"
      by blast
    have "m \<le> Suc j" if "m \<le> length (r # rs)" "length (wal_image c (take m (r # rs))) \<le> n" for m
      using that False fr jkq(5) by (cases m) auto
    with jkq False fr show ?thesis
      by (intro exI [of _ "Suc j"] exI [of _ k] exI [of _ q]) simp
  qed
qed

section \<open>Crashes\<close>

text \<open>
  A file holds the records \<open>rs\<close> when it is their image; its first \<open>m\<close> records are durable when
  the durable prefix covers them.
\<close>

definition wal_holds :: "'r codec \<Rightarrow> wal_file \<Rightarrow> 'r list \<Rightarrow> bool" where
  "wal_holds c f rs \<longleftrightarrow>
     serde_roundtrip c \<and> (\<forall>r\<in>set rs. writable c r) \<and> bytes f = wal_image c rs"

definition wal_synced :: "'r codec \<Rightarrow> wal_file \<Rightarrow> 'r list \<Rightarrow> bool" where
  "wal_synced c f rs \<longleftrightarrow> length (wal_image c rs) \<le> durable f"

lemma wal_holds_Nil: "serde_roundtrip c \<Longrightarrow> wal_holds c \<lparr>bytes = [], durable = 0\<rparr> []"
  by (simp add: wal_holds_def)

lemma wal_open_torn_image:
  assumes "reads_ok rd" and "serde_roundtrip c" and "\<forall>r\<in>set rs. writable c r"
    and "length p < 2 ^ 32" and "k < 8 + length p"
  shows "wal_open c rd (Inr ()) (Inr ()) (Inr (wal_image c rs @ take k (wal_frame c p))) =
    Inr (\<lparr>bytes = wal_image c rs, durable = length (wal_image c rs)\<rparr>, rs)"
  using assms
  by (simp add: wal_open_def wal_replay_def replay_image replay_torn set_len_def Let_def)

lemma wal_open_crashed:
  assumes "wal_holds c f rs" and "wal_synced c f (take m rs)" and "m \<le> length rs" and "reads_ok rd"
  shows "\<exists>j\<ge>m. j \<le> length rs \<and>
    wal_open c rd (Inr ()) (Inr ()) (Inr (bytes (wal_crash n f))) =
      Inr (\<lparr>bytes = wal_image c (take j rs), durable = length (wal_image c (take j rs))\<rparr>, take j rs)"
proof -
  let ?n = "max n (durable f)"
  have holds: "serde_roundtrip c" "\<forall>r\<in>set rs. writable c r" "bytes f = wal_image c rs"
    using assms(1) by (simp_all add: wal_holds_def)
  obtain j k p where j: "j \<le> length rs" "length p < 2 ^ 32" "k < 8 + length p"
    "take ?n (wal_image c rs) = wal_image c (take j rs) @ take k (wal_frame c p)"
    "\<forall>m\<le>length rs. length (wal_image c (take m rs)) \<le> ?n \<longrightarrow> m \<le> j"
    using take_wal_image [OF holds(2), of ?n] by blast
  have "m \<le> j"
    using j(5) assms(2,3) by (auto simp: wal_synced_def)
  moreover have "\<forall>r\<in>set (take j rs). writable c r"
    using holds(2) by (auto dest: in_set_takeD)
  then have "wal_open c rd (Inr ()) (Inr ()) (Inr (bytes (wal_crash n f))) =
      Inr (\<lparr>bytes = wal_image c (take j rs), durable = length (wal_image c (take j rs))\<rparr>, take j rs)"
    using wal_open_torn_image [OF assms(4) holds(1) _ j(2,3)] j(4) holds(3)
    by (simp add: wal_crash_def)
  ultimately show ?thesis using j(1) by blast
qed

lemma wal_append_cases:
  assumes "wal_append c r out f = (res, f')"
  shows "(\<exists>e. res = Inl e \<and> f' = f) \<or>
    (writable c r \<and>
     ((out = WriteOk \<and> res = Inr () \<and>
         f' = f\<lparr>bytes := bytes f @ record_frame c r, durable := length (bytes f @ record_frame c r)\<rparr>) \<or>
      (\<exists>k e. out = WriteFails k e \<and> res = Inl e \<and> f' = f\<lparr>bytes := bytes f @ take k (record_frame c r)\<rparr>) \<or>
      (\<exists>e. out = SyncFails e \<and> res = Inl e \<and> f' = f\<lparr>bytes := bytes f @ record_frame c r\<rparr>)))"
  using assms
  by (auto simp: wal_append_def writable_def record_frame_def Let_def
      split: option.splits if_splits write_outcome.splits)

lemma wal_append_Ok:
  assumes "wal_append c r out f = (Inr (), f')"
  shows "writable c r" and "bytes f' = bytes f @ record_frame c r" and "durable f' = length (bytes f')"
  using wal_append_cases [OF assms] by auto

lemma wal_append_holds:
  "wal_append c r out f = (Inr (), f') \<Longrightarrow> wal_holds c f rs \<Longrightarrow>
   wal_holds c f' (rs @ [r]) \<and> wal_synced c f' (rs @ [r])"
  using wal_append_Ok [of c r out f f'] by (simp add: wal_holds_def wal_synced_def)



text \<open>
  A concrete codec for the witnesses: one-byte records written as they are, and the sum of the
  bytes for a checksum.
\<close>

definition byte_codec :: "u8 codec" where
  "byte_codec =
     \<lparr>to_vec = (\<lambda>r. Some [r]),
      from_slice = (\<lambda>bs. case bs of [r] \<Rightarrow> Some r | _ \<Rightarrow> None),
      crc32 = (\<lambda>bs. ucast (sum_list bs))\<rparr>"

lemma byte_codec_roundtrip: "serde_roundtrip byte_codec"
  by (auto simp: serde_roundtrip_def byte_codec_def)

lemma reads_ok_const: "reads_ok (\<lambda>_. Some k)"
  by (simp add: reads_ok_def)


text \<open>
  C15: crash atomicity. Whatever way an append ends (success, an error, or a write that stops after
  any number of bytes) and whatever a crash then keeps, replay finds the records from before and
  either the whole new record or nothing of it, and never fails.
\<close>

theorem wal_append_crash_atomic:
  assumes "wal_holds c f rs" and "wal_synced c f rs" and "wal_append c r out f = (res, f')"
    and "reads_ok rd"
  shows "\<exists>recs \<in> {rs, rs @ [r]}.
    wal_open c rd (Inr ()) (Inr ()) (Inr (bytes (wal_crash n f'))) =
      Inr (\<lparr>bytes = wal_image c recs, durable = length (wal_image c recs)\<rparr>, recs)"
proof -
  have h: "serde_roundtrip c" "\<forall>r\<in>set rs. writable c r" "bytes f = wal_image c rs"
    using assms(1) by (simp_all add: wal_holds_def)
  have image_ok: "wal_open c rd (Inr ()) (Inr ()) (Inr (wal_image c xs)) =
      Inr (\<lparr>bytes = wal_image c xs, durable = length (wal_image c xs)\<rparr>, xs)"
    if "\<forall>r\<in>set xs. writable c r" for xs
    using wal_open_torn_image [OF assms(4) h(1) that, of "[]" 0] by simp
  have whole: "\<exists>k. x = take k x" for x :: "u8 list"
    by (rule exI [of _ "length x"]) simp
  have cut: "bytes (wal_crash n f') = wal_image c rs \<or>
      (writable c r \<and> (\<exists>k. bytes (wal_crash n f') = wal_image c rs @ take k (record_frame c r)))"
    using wal_append_cases [OF assms(3)] assms(2) h(3)
    by (auto simp: wal_crash_def wal_synced_def max_def whole)
  show ?thesis
  proof (cases "bytes (wal_crash n f') = wal_image c rs")
    case True
    then show ?thesis using image_ok [OF h(2)] by auto
  next
    case False
    with cut obtain k where w: "writable c r"
      and k: "bytes (wal_crash n f') = wal_image c rs @ take k (record_frame c r)" by blast
    obtain p where p: "to_vec c r = Some p" "length p < 2 ^ 32" "record_frame c r = wal_frame c p"
      using w by (auto simp: writable_def record_frame_def split: option.splits)
    show ?thesis
    proof (cases "k < 8 + length p")
      case True
      then show ?thesis
        using wal_open_torn_image [OF assms(4) h(1,2) p(2) True] k p(3) by auto
    next
      case False
      then have "bytes (wal_crash n f') = wal_image c (rs @ [r])"
        using k p(3) by simp
      moreover have "\<forall>x\<in>set (rs @ [r]). writable c x"
        using h(2) w by simp
      ultimately show ?thesis
        using image_ok [of "rs @ [r]"] by auto
    qed
  qed
qed


theorem wal_append_crash_atomic_witness:
  "\<exists>recs \<in> {[], [7 :: u8]}.
    wal_open byte_codec (\<lambda>_. Some 3) (Inr ()) (Inr ())
      (Inr (bytes (wal_crash 5
         (snd (wal_append byte_codec 7 (WriteFails 6 OtherIo) \<lparr>bytes = [], durable = 0\<rparr>))))) =
    Inr (\<lparr>bytes = wal_image byte_codec recs, durable = length (wal_image byte_codec recs)\<rparr>, recs)"
proof -
  have sync: "wal_synced byte_codec \<lparr>bytes = [], durable = 0\<rparr> []"
    by (simp add: wal_synced_def)
  show ?thesis
    using wal_append_crash_atomic [OF wal_holds_Nil [OF byte_codec_roundtrip] sync
        surjective_pairing reads_ok_const]
    by simp
qed

section \<open>Where the guarantee stops\<close>

text \<open>
  A failed append that left the header of its frame (and at most part of its payload) behind
  poisons the log for the running process: an append after it that returns success is not found
  when the file is opened again, although it was synced. The torn bytes are cut off only when the
  log is opened.
\<close>

lemma wal_append_after_torn_write_lost:
  assumes "wal_holds c f rs" and "to_vec c r1 = Some p1" and "length p1 < 2 ^ 32"
    and "wal_append c r1 (WriteFails k e) f = (Inl e, f1)" and "8 \<le> k"
    and "wal_append c r2 WriteOk f1 = (Inr (), f2)"
    and "k - 8 + length (record_frame c r2) < length p1" and "reads_ok rd"
  shows "wal_open c rd (Inr ()) (Inr ()) (Inr (bytes f2)) =
    Inr (\<lparr>bytes = wal_image c rs, durable = length (wal_image c rs)\<rparr>, rs)"
proof -
  have h: "serde_roundtrip c" "\<forall>r\<in>set rs. writable c r" "bytes f = wal_image c rs"
    using assms(1) by (simp_all add: wal_holds_def)
  have "bytes f2 = wal_image c rs @ take k (wal_frame c p1) @ record_frame c r2"
    using wal_append_Ok(2) [OF assms(6)] assms(2-4) h(3)
    by (auto simp: wal_append_def Let_def)
  define rest where "rest = take (k - 8) p1 @ record_frame c r2"
  have "length rest < unat (of_nat (length p1) :: u32)"
    using assms(3,7) by (simp add: rest_def unat_of_nat_u32)
  then have stop: "replay_loop c rd pos (to_le_bytes (of_nat (length p1)) @ to_le_bytes (crc32 c p1) @ rest)
      recs v = Inr (recs, v)" for pos recs v
    by (subst replay_header [OF assms(8)]) simp
  have "bytes f2 = wal_image c rs @ to_le_bytes (of_nat (length p1)) @ to_le_bytes (crc32 c p1) @ rest"
    using \<open>bytes f2 = _\<close> assms(5) by (simp add: wal_frame_def rest_def)
  then show ?thesis
    using replay_image [OF assms(8) h(1,2)] stop
    by (simp add: wal_open_def wal_replay_def set_len_def Let_def)
qed

text \<open>
  A tail of zero bytes, which a file system may leave after a crash, is not treated as torn:
  eight zero bytes read as an empty record whose checksum matches, because the checksum of the
  empty string is zero, and the log cannot be opened at all.
\<close>

lemma wal_open_zero_tail_fails:
  assumes "wal_holds c f rs" and "crc32 c [] = 0" and "from_slice c [] = None" and "8 \<le> n"
    and "reads_ok rd"
  shows "wal_open c rd (Inr ()) (Inr ()) (Inr (bytes f @ replicate n 0)) = Inl InvalidData"
proof -
  have h: "serde_roundtrip c" "\<forall>r\<in>set rs. writable c r" "bytes f = wal_image c rs"
    using assms(1) by (simp_all add: wal_holds_def)
  have "replicate n 0 = (to_le_bytes 0 @ to_le_bytes 0 @ replicate (n - 8) 0 :: u8 list)"
  proof -
    have "replicate n 0 = (replicate 8 0 @ replicate (n - 8) 0 :: u8 list)"
      using assms(4) by (simp flip: replicate_add)
    also have "(replicate 8 0 :: u8 list) = to_le_bytes 0 @ to_le_bytes 0"
      by (simp add: to_le_bytes_def numeral_eq_Suc)
    finally show ?thesis by simp
  qed
  then show ?thesis
    using assms(2,3) replay_image [OF assms(5) h(1,2)] h(3)
      replay_header [OF assms(5), of c _ 0 0 "replicate (n - 8) 0"]
    by (simp add: wal_open_def wal_replay_def)
qed


text \<open>The two concrete situations: a torn four-byte record, and a log followed by zero bytes.\<close>

definition list_codec :: "u8 list codec" where
  "list_codec =
     \<lparr>to_vec = (\<lambda>r. Some (1 # r)),
      from_slice = (\<lambda>bs. case bs of [] \<Rightarrow> None | b # r \<Rightarrow> Some r),
      crc32 = (\<lambda>bs. ucast (sum_list bs))\<rparr>"


lemma list_codec_roundtrip: "serde_roundtrip list_codec"
  by (auto simp: serde_roundtrip_def list_codec_def)

lemma wal_append_after_torn_write_lost_witness:
  "\<exists>f1 f2. wal_append list_codec (replicate 20 0) (WriteFails 9 OtherIo) \<lparr>bytes = [], durable = 0\<rparr> =
       (Inl OtherIo, f1) \<and>
     wal_append list_codec [5] WriteOk f1 = (Inr (), f2) \<and>
     wal_open list_codec (\<lambda>_. Some 4) (Inr ()) (Inr ()) (Inr (bytes f2)) =
       Inr (\<lparr>bytes = [], durable = 0\<rparr>, [])"
proof -
  let ?f = "\<lparr>bytes = [], durable = 0\<rparr>"
  obtain f1 where f1: "wal_append list_codec (replicate 20 0) (WriteFails 9 OtherIo) ?f = (Inl OtherIo, f1)"
    by (simp add: wal_append_def list_codec_def Let_def)
  obtain f2 where f2: "wal_append list_codec [5] WriteOk f1 = (Inr (), f2)"
    by (simp add: wal_append_def list_codec_def Let_def)
  have vec: "to_vec list_codec (replicate 20 0) = Some (1 # replicate 20 0)"
    by (simp add: list_codec_def)
  have "length (record_frame list_codec [5]) = 10"
    by (simp add: record_frame_def list_codec_def)
  then show ?thesis
    using f1 f2
      wal_append_after_torn_write_lost [OF wal_holds_Nil [OF list_codec_roundtrip] vec _ f1 _ f2 _
        reads_ok_const [of 4]]
    by simp
qed

theorem wal_open_zero_tail_fails_witness:
  "wal_open byte_codec (\<lambda>_. Some 1) (Inr ()) (Inr ())
     (Inr (bytes \<lparr>bytes = [], durable = 0\<rparr> @ replicate 9 0)) = Inl InvalidData"
  by (rule wal_open_zero_tail_fails [OF wal_holds_Nil [OF byte_codec_roundtrip]])
     (simp_all add: byte_codec_def reads_ok_const)

section \<open>Replay does not depend on the chunking of the reads\<close>

definition read_result :: "nat \<Rightarrow> u8 list \<Rightarrow> read_outcome \<times> u8 list \<times> u8 list" where
  "read_result n rest =
     (if n \<le> length rest then (Full, take n rest, drop n rest)
      else (if rest = [] then Eof else ShortRead, rest, []))"

lemma read_exact_result: "reads_ok rd \<Longrightarrow> read_exact_or_eof rd pos n rest [] = Inr (read_result n rest)"
  by (simp add: read_exact_or_eof_spec read_result_def)

lemma read_result_Full: "read_result n rest = (Full, b, r) \<Longrightarrow> length r + n = length rest"
  by (auto simp: read_result_def split: if_splits)

lemma replay_loop_chunking:
  assumes "reads_ok rd" and "reads_ok rd'"
  shows "replay_loop c rd pos bs recs v = replay_loop c rd' pos' bs recs v"
proof (induction bs arbitrary: pos pos' recs v rule: length_induct)
  case (1 bs)
  have "replay_loop c rd p xs r w = replay_loop c rd' p' xs r w"
    if "read_result 8 bs = (Full, h, ys)" "read_result n ys = (Full, q, xs)" for h n q ys p p' xs r w
    using 1 that by (simp add: read_result_Full [symmetric])
  then show ?case
    unfolding replay_loop.simps [of c rd pos] replay_loop.simps [of c rd' pos']
      read_exact_result [OF assms(1)] read_exact_result [OF assms(2)]
    by (auto simp: Let_def LENGTH_PREFIX_BYTES_def CHECKSUM_BYTES_def
        split: prod.split read_outcome.split option.split)
qed

text \<open>
  Replay reads the same records and the same valid length from a file however the operating
  system splits the reads into chunks, as long as no read fails.
\<close>

lemma wal_replay_chunking:
  assumes "reads_ok rd" and "reads_ok rd'"
  shows "wal_replay c rd file = wal_replay c rd' file"
  using replay_loop_chunking [OF assms] by (auto simp: wal_replay_def split: sum.split io_error.split)

theorem wal_replay_chunking_witness:
  "wal_replay byte_codec (\<lambda>_. Some 1) (Inr [1, 0, 0, 0, 7, 0, 0, 0, 7]) =
   wal_replay byte_codec (\<lambda>p. Some (p + 5)) (Inr [1, 0, 0, 0, 7, 0, 0, 0, 7])"
  by (rule wal_replay_chunking) (simp_all add: reads_ok_def)

end
