(* ===== verification/Durable_Log.thy ===== *)
theory Durable_Log
  imports Wal "HOL-Library.Sublist"
begin

text \<open>
  The contract the durable components rely on. The components see the log as a list of records to
  which an append adds one or nothing; \<open>log_append\<close> is that view of \<^verbatim>\<open>Wal::append\<close>. The locale
  \<open>durable_log\<close> states the laws, with the lemma every client needs (no acknowledged record is lost
  or reordered); it is interpreted on the record lists and on the byte-level log of the theory
  \<open>Wal\<close>, and \<open>wal_append_refines\<close> shows that the byte-level log implements the record list.
\<close>

section \<open>The log as a list of records\<close>

text \<open>
  How an append ends for a client: the record is in the log and acknowledged; the append failed
  and left nothing; the append failed although the whole record reached the file (the sync
  failed).
\<close>

datatype log_outcome = Logged | NotLogged io_error | Unsynced io_error

fun log_append :: "'r \<Rightarrow> log_outcome \<Rightarrow> 'r list \<Rightarrow> unit io_result \<times> 'r list" where
  "log_append r Logged log = (Inr (), log @ [r])"
| "log_append r (NotLogged e) log = (Inl e, log)"
| "log_append r (Unsynced e) log = (Inl e, log @ [r])"

lemma log_append_Ok_iff: "log_append r out log = (Inr u, log') \<longleftrightarrow> out = Logged \<and> log' = log @ [r]"
  by (cases out) auto

lemma log_append_Err: "log_append r out log = (Inl e, log') \<Longrightarrow> log' = log \<or> log' = log @ [r]"
  by (cases out) auto

lemma log_append_cases:
  obtains "out = Logged" "log_append r out log = (Inr (), log @ [r])"
  | e where "out \<noteq> Logged" "log_append r out log = (Inl e, log)"
  | e where "out \<noteq> Logged" "log_append r out log = (Inl e, log @ [r])"
  by (cases out) auto

section \<open>The contract\<close>

text \<open>A client's appends in a row; the result lists the records whose append succeeded.\<close>

fun append_all ::
  "('r \<Rightarrow> 'o \<Rightarrow> 'w \<Rightarrow> unit io_result \<times> 'w) \<Rightarrow> ('r \<times> 'o) list \<Rightarrow> 'w \<Rightarrow> 'r list \<times> 'w" where
  "append_all app [] w = ([], w)"
| "append_all app ((r, out) # ops) w =
     (case app r out w of
        (res, w') \<Rightarrow>
          (case append_all app ops w' of
             (acked, w'') \<Rightarrow> (if res = Inr () then r # acked else acked, w'')))"

locale durable_log =
  fixes append :: "'r \<Rightarrow> 'o \<Rightarrow> 'w \<Rightarrow> unit io_result \<times> 'w"
    and contents :: "'w \<Rightarrow> 'r list"
    and invar :: "'w \<Rightarrow> bool"
    and clean :: "'o \<Rightarrow> bool"
  assumes append_ok:
      "invar w \<Longrightarrow> clean out \<Longrightarrow> append r out w = (Inr (), w') \<Longrightarrow> contents w' = contents w @ [r]"
    and append_err:
      "invar w \<Longrightarrow> clean out \<Longrightarrow> append r out w = (Inl e, w') \<Longrightarrow>
       contents w' = contents w \<or> contents w' = contents w @ [r]"
    and append_invar: "invar w \<Longrightarrow> clean out \<Longrightarrow> invar (snd (append r out w))"
begin

lemma append_grows:
  assumes "invar w" and "clean out" and "append r out w = (res, w')"
  shows "contents w' = contents w @ [r] \<or> (res \<noteq> Inr () \<and> contents w' = contents w)"
proof (cases res)
  case (Inl e)
  then show ?thesis using append_err [OF assms(1,2)] assms(3) by blast
next
  case (Inr u)
  then show ?thesis using append_ok [OF assms(1,2)] assms(3) by simp
qed

lemma acknowledged_kept:
  "invar w \<Longrightarrow> \<forall>(r, out)\<in>set ops. clean out \<Longrightarrow> append_all append ops w = (acked, w') \<Longrightarrow>
   invar w' \<and> (\<exists>new. contents w' = contents w @ new \<and> subseq acked new \<and> subseq new (map fst ops))"
proof (induction ops arbitrary: w acked)
  case Nil
  then show ?case by simp
next
  case (Cons op ops)
  obtain r out where op: "op = (r, out)" by (cases op)
  obtain res w1 where app: "append r out w = (res, w1)" by (cases "append r out w")
  obtain acked1 where rest: "append_all append ops w1 = (acked1, w')"
    and acked: "acked = (if res = Inr () then r # acked1 else acked1)"
    using Cons.prems op app by (auto split: prod.splits)
  have clean: "clean out" using Cons.prems op by simp
  have inv1: "invar w1"
    using append_invar [OF Cons.prems(1) clean] app by (metis snd_conv)
  obtain new where new: "contents w' = contents w1 @ new" "subseq acked1 new" "subseq new (map fst ops)"
    using Cons.IH [OF inv1 _ rest] Cons.prems by auto
  from append_grows [OF Cons.prems(1) clean app] show ?case
  proof (elim disjE conjE)
    assume "contents w1 = contents w @ [r]"
    then have "contents w' = contents w @ (r # new)"
      using new(1) by simp
    moreover have "subseq acked (r # new)" and "subseq (r # new) (map fst (op # ops))"
      using acked new(2,3) op by auto
    ultimately show ?thesis
      using Cons.IH [OF inv1 _ rest] Cons.prems by auto
  next
    assume "res \<noteq> Inr ()" and "contents w1 = contents w"
    with acked new op show ?thesis
      using Cons.IH [OF inv1 _ rest] Cons.prems by (auto intro!: exI [of _ new])
  qed
qed

end

interpretation rl: durable_log log_append "\<lambda>log. log" "\<lambda>_. True" "\<lambda>_. True"
  by unfold_locales (auto simp: log_append_Ok_iff dest: log_append_Err)

section \<open>Stores that are rebuilt from their log\<close>

text \<open>
  A component keeps a state in memory and a log of the changes to it; \<^verbatim>\<open>open\<close> replays the log. Its
  calls are faithful when each of them changes both or neither. Then a restart rebuilds the state
  exactly, whatever the calls were.
\<close>

locale replayed_store =
  fixes apply_rec :: "'r \<Rightarrow> 's \<Rightarrow> 's"
    and init :: 's
    and mem :: "'q \<Rightarrow> 's"
    and wal :: "'q \<Rightarrow> 'r list"
    and call :: "'c \<Rightarrow> 'q \<Rightarrow> 'q"
    and faithful :: "'c \<Rightarrow> bool"
  assumes faithful_call: "faithful c \<Longrightarrow>
      (mem (call c q) = mem q \<and> wal (call c q) = wal q) \<or>
      (\<exists>r. wal (call c q) = wal q @ [r] \<and> mem (call c q) = apply_rec r (mem q))"
begin

lemma calls_rebuild:
  "mem q = fold apply_rec (wal q) init \<Longrightarrow> \<forall>c\<in>set cs. faithful c \<Longrightarrow>
   mem (fold call cs q) = fold apply_rec (wal (fold call cs q)) init"
proof (induction cs arbitrary: q)
  case (Cons c cs)
  then have "mem (call c q) = fold apply_rec (wal (call c q)) init"
    using faithful_call [of c q] by auto
  then show ?case using Cons by simp
qed simp

end

section \<open>The byte-level log implements it\<close>

text \<open>
  A write outcome is clean when it leaves the file at the end of a frame: nothing of the frame was
  written, or all of it. The outcomes that are not clean are the subject of
  \<open>wal_append_after_torn_write_lost\<close>.
\<close>

definition clean_write :: "write_outcome \<Rightarrow> bool" where
  "clean_write out \<longleftrightarrow> (case out of WriteFails k e \<Rightarrow> k = 0 | _ \<Rightarrow> True)"

definition log_outcome_of :: "'r codec \<Rightarrow> 'r \<Rightarrow> write_outcome \<Rightarrow> log_outcome" where
  "log_outcome_of c r out =
     (if \<not> writable c r then NotLogged InvalidData
      else case out of
             WriteOk \<Rightarrow> Logged
           | WriteFails k e \<Rightarrow> NotLogged e
           | SyncFails e \<Rightarrow> Unsynced e)"

definition wal_contents :: "'r codec \<Rightarrow> wal_file \<Rightarrow> 'r list" where
  "wal_contents c f =
     (case wal_replay c (\<lambda>_. Some 1) (Inr (bytes f)) of Inl e \<Rightarrow> [] | Inr (records, _) \<Rightarrow> records)"

lemma wal_contents_holds [simp]: "wal_holds c f rs \<Longrightarrow> wal_contents c f = rs"
  using replay_image [OF reads_ok_const, of c rs 1 0 "[]" "[]" 0]
  by (simp add: wal_contents_def wal_replay_def wal_holds_def reads_ok_const)

lemma wal_append_log:
  assumes "wal_holds c f rs" and "clean_write out"
  shows "fst (wal_append c r out f) = fst (log_append r (log_outcome_of c r out) rs) \<and>
    wal_holds c (snd (wal_append c r out f)) (snd (log_append r (log_outcome_of c r out) rs))"
  using assms
  by (auto simp: wal_append_def log_outcome_of_def wal_holds_def writable_def record_frame_def
      clean_write_def Let_def split: option.splits write_outcome.splits)

text \<open>
  C23: the byte-level append implements the append of the record list: with a clean write outcome it
  returns the same result, and the file it leaves holds exactly the records of the list.
\<close>

theorem wal_append_refines:
  assumes "wal_holds c f rs" and "clean_write out"
  shows "\<exists>res log' f'. log_append r (log_outcome_of c r out) rs = (res, log') \<and>
    wal_append c r out f = (res, f') \<and> wal_holds c f' log'"
  using wal_append_log [OF assms, of r] by (metis prod.collapse)

theorem wal_append_refines_witness:
  "\<exists>res log' f'. log_append 7 (log_outcome_of byte_codec 7 (SyncFails OtherIo)) [] = (res, log') \<and>
    wal_append byte_codec 7 (SyncFails OtherIo) \<lparr>bytes = [], durable = 0\<rparr> = (res, f') \<and>
    wal_holds byte_codec f' log'"
  by (rule wal_append_refines [OF wal_holds_Nil [OF byte_codec_roundtrip]]) (simp add: clean_write_def)

interpretation bw: durable_log "wal_append c" "wal_contents c" "\<lambda>f. \<exists>rs. wal_holds c f rs" clean_write
  for c
proof unfold_locales
  fix w out r w'
  assume "\<exists>rs. wal_holds c w rs" and clean: "clean_write out" and app: "wal_append c r out w = (Inr (), w')"
  then obtain rs where rs: "wal_holds c w rs" by blast
  then show "wal_contents c w' = wal_contents c w @ [r]"
    using wal_append_holds [OF app rs] by simp
next
  fix w out r e w'
  assume "\<exists>rs. wal_holds c w rs" and clean: "clean_write out" and app: "wal_append c r out w = (Inl e, w')"
  then obtain rs where rs: "wal_holds c w rs" by blast
  note ref = wal_append_log [OF rs clean, of r]
  obtain log' where log': "log_append r (log_outcome_of c r out) rs = (Inl e, log')"
    using ref app by (metis fst_conv prod.collapse)
  then have "wal_holds c w' log'"
    using ref app by simp
  with log_append_Err [OF log'] rs show "wal_contents c w' = wal_contents c w \<or>
      wal_contents c w' = wal_contents c w @ [r]"
    by auto
next
  fix w out r
  assume "\<exists>rs. wal_holds c w rs" and clean: "clean_write out"
  then obtain rs where "wal_holds c w rs" by blast
  from wal_append_log [OF this clean, of r]
  show "\<exists>rs. wal_holds c (snd (wal_append c r out w)) rs" by blast
qed


text \<open>
  No acknowledged record is lost or reordered. After any sequence of clean appends to a log that
  holds \<open>rs\<close>, replaying the file gives \<open>rs\<close> followed by a list that contains the acknowledged
  records in order and nothing that was not appended.
\<close>

lemma wal_acknowledged_kept:
  assumes "wal_holds c f rs" and "\<forall>(r, out)\<in>set ops. clean_write out"
    and "append_all (wal_append c) ops f = (acked, f')"
  shows "\<exists>new. wal_contents c f' = rs @ new \<and> subseq acked new \<and> subseq new (map fst ops)"
proof -
  have "\<exists>rs. wal_holds c f rs" using assms(1) by blast
  from bw.acknowledged_kept [OF this assms(2,3)] show ?thesis
    using assms(1) by auto
qed

lemma wal_acknowledged_kept_witness:
  "\<exists>acked f' new.
     append_all (wal_append byte_codec)
       [(7, WriteOk), (8, WriteFails 0 OtherIo), (9, SyncFails OtherIo), (1, WriteOk)]
       \<lparr>bytes = [], durable = 0\<rparr> = (acked, f') \<and>
     acked = [7, 1] \<and> wal_contents byte_codec f' = new \<and> subseq acked new \<and> subseq new [7, 8, 9, 1]"
proof -
  let ?ops = "[(7, WriteOk), (8, WriteFails 0 OtherIo), (9, SyncFails OtherIo), (1, WriteOk)]"
  obtain acked f' where run: "append_all (wal_append byte_codec) ?ops \<lparr>bytes = [], durable = 0\<rparr> = (acked, f')"
    by (cases "append_all (wal_append byte_codec) ?ops \<lparr>bytes = [], durable = 0\<rparr>")
  then have "acked = [7, 1]"
    by (simp add: wal_append_def byte_codec_def Let_def)
  moreover have "\<forall>(r, out)\<in>set ?ops. clean_write out"
    by (simp add: clean_write_def)
  ultimately show ?thesis
    using wal_acknowledged_kept [OF wal_holds_Nil [OF byte_codec_roundtrip] _ run] run by auto
qed

end
