(* ===== verification/Waiting_Queue.thy ===== *)
theory Waiting_Queue
  imports Qaas_Prelude
begin

text \<open>
  The waiting loops of \<^verbatim>\<open>enqueue\<close> and \<^verbatim>\<open>dequeue\<close>, which \<^verbatim>\<open>crates/qaas-core/src/queue/fifo.rs\<close> and
  \<^verbatim>\<open>priority.rs\<close> have in common: a pass under the lock; if it succeeds, a notification to the other
  side after the unlock; if not, a wait and another pass. Any number of tasks run through them, one
  atomic section at a time. The passes of the queue are arguments (\<open>enq\<close> and \<open>deq\<close>), and so are the
  operations of \<^verbatim>\<open>tokio::sync::Notify\<close>. The locale \<open>waiting_queue\<close> holds what follows for every
  queue; the theories of the two queues interpret it.
\<close>

section \<open>Tasks that wait\<close>

text \<open>
  The operations of \<^verbatim>\<open>Notify\<close>: a fresh one, \<^verbatim>\<open>notify_one\<close> (with the waiting task it wakes, if any)
  and the first poll of \<^verbatim>\<open>notified()\<close> (\<^const>\<open>True\<close>: it completes at once, \<^const>\<open>False\<close>: the task
  waits from now on).
\<close>

record ('n, 't) notify_ops =
  notify_new :: 'n
  notify_one :: "'n \<Rightarrow> 't option \<times> 'n"
  notified :: "'t \<Rightarrow> 'n \<Rightarrow> bool \<times> 'n"

text \<open>
  What its documentation promises: a waiting task is woken if there is one; otherwise one permit,
  and never more than one, is stored, which the next \<^verbatim>\<open>notified()\<close> consumes.
\<close>

definition notify_documented :: "('n, 't) notify_ops \<Rightarrow> ('n \<Rightarrow> bool) \<Rightarrow> ('n \<Rightarrow> 't set) \<Rightarrow> bool" where
  "notify_documented nt permit waiting \<longleftrightarrow>
     \<not> permit (notify_new nt) \<and> waiting (notify_new nt) = {} \<and>
     (\<forall>n w n'. notify_one nt n = (w, n') \<longrightarrow>
        (if waiting n = {} then w = None \<and> permit n' \<and> waiting n' = {}
         else \<exists>t\<in>waiting n. w = Some t \<and> permit n' = permit n \<and> waiting n' = waiting n - {t})) \<and>
     (\<forall>t n b n'. notified nt t n = (b, n') \<longrightarrow>
        b = permit n \<and> \<not> permit n' \<and> waiting n' = (if permit n then waiting n else insert t (waiting n)))"

text \<open>
  Where a task is: outside a call; at the start of a pass; past the unlock of a pass that failed;
  waiting; past the unlock of a pass that succeeded, before it notifies the other side.
\<close>

datatype ('a, 'b) wq_pc =
  Idle | EnqPass 'a | EnqFull 'a | EnqWait 'a | EnqNotify
| DeqPass | DeqEmpty | DeqWait | DeqNotify 'b

text \<open>
  The two passes: \<^const>\<open>None\<close> when the queue is full or empty. The last field of the state records the
  successful passes in their order.
\<close>

record ('q, 'a, 'b) wq_ops =
  enq_pass :: "'a \<Rightarrow> 'q \<Rightarrow> 'q option"
  deq_pass :: "'q \<Rightarrow> ('b \<times> 'q) option"

datatype ('a, 'b) wq_event = Pushed 'a | Popped 'b

record ('q, 'a, 'b, 't, 'n) wq_sys =
  sys_queue :: 'q
  sys_not_empty :: 'n
  sys_not_full :: 'n
  sys_pc :: "'t \<Rightarrow> ('a, 'b) wq_pc"
  sys_hist :: "('a, 'b) wq_event list"

fun wq_resume :: "('a, 'b) wq_pc \<Rightarrow> ('a, 'b) wq_pc" where
  "wq_resume (EnqWait a) = EnqPass a"
| "wq_resume DeqWait = DeqPass"
| "wq_resume pc = pc"

definition wq_wake :: "'t option \<Rightarrow> ('t \<Rightarrow> ('a, 'b) wq_pc) \<Rightarrow> 't \<Rightarrow> ('a, 'b) wq_pc" where
  "wq_wake w pc = (case w of None \<Rightarrow> pc | Some u \<Rightarrow> pc(u := wq_resume (pc u)))"

definition wq_task_step ::
  "('q, 'a, 'b) wq_ops \<Rightarrow> ('n, 't) notify_ops \<Rightarrow> 't \<Rightarrow> ('q, 'a, 'b, 't, 'n) wq_sys \<Rightarrow> ('q, 'a, 'b, 't, 'n) wq_sys option" where
  "wq_task_step qo nt t s =
     (let goto = (\<lambda>pc s. s \<lparr> sys_pc := (sys_pc s)(t := pc) \<rparr>) in
      case sys_pc s t of
        EnqPass item \<Rightarrow>
          (case enq_pass qo item (sys_queue s) of
             Some q \<Rightarrow> Some (goto EnqNotify (s \<lparr> sys_queue := q, sys_hist := sys_hist s @ [Pushed item] \<rparr>))
           | None \<Rightarrow> Some (goto (EnqFull item) s))
      | EnqNotify \<Rightarrow>
          (case notify_one nt (sys_not_empty s) of
             (w, n) \<Rightarrow> Some (s \<lparr> sys_not_empty := n, sys_pc := wq_wake w ((sys_pc s)(t := Idle)) \<rparr>))
      | EnqFull item \<Rightarrow>
          (case notified nt t (sys_not_full s) of
             (now, n) \<Rightarrow> Some (goto (if now then EnqPass item else EnqWait item) (s \<lparr> sys_not_full := n \<rparr>)))
      | DeqPass \<Rightarrow>
          (case deq_pass qo (sys_queue s) of
             Some (item, q) \<Rightarrow>
               Some (goto (DeqNotify item) (s \<lparr> sys_queue := q, sys_hist := sys_hist s @ [Popped item] \<rparr>))
           | None \<Rightarrow> Some (goto DeqEmpty s))
      | DeqNotify item \<Rightarrow>
          (case notify_one nt (sys_not_full s) of
             (w, n) \<Rightarrow> Some (s \<lparr> sys_not_full := n, sys_pc := wq_wake w ((sys_pc s)(t := Idle)) \<rparr>))
      | DeqEmpty \<Rightarrow>
          (case notified nt t (sys_not_empty s) of
             (now, n) \<Rightarrow> Some (goto (if now then DeqPass else DeqWait) (s \<lparr> sys_not_empty := n \<rparr>)))
      | _ \<Rightarrow> None)"

definition wq_init :: "('n, 't) notify_ops \<Rightarrow> 'q \<Rightarrow> ('q, 'a, 'b, 't, 'n) wq_sys" where
  "wq_init nt q =
     \<lparr> sys_queue = q, sys_not_empty = notify_new nt, sys_not_full = notify_new nt, sys_pc = (\<lambda>_. Idle),
       sys_hist = [] \<rparr>"

text \<open>
  The states that tasks reach from a queue \<open>q0\<close> when any task may call \<^verbatim>\<open>enqueue\<close>, and the tasks
  of \<open>consumers\<close> may call \<^verbatim>\<open>dequeue\<close>.
\<close>

inductive wq_reach ::
  "('q, 'a, 'b) wq_ops \<Rightarrow> ('n, 't) notify_ops \<Rightarrow> 't set \<Rightarrow> 'q \<Rightarrow> ('q, 'a, 'b, 't, 'n) wq_sys \<Rightarrow> bool"
  for qo nt consumers q0 where
  start: "wq_reach qo nt consumers q0 (wq_init nt q0)"
| call_enqueue: "wq_reach qo nt consumers q0 s \<Longrightarrow> sys_pc s t = Idle \<Longrightarrow>
    wq_reach qo nt consumers q0 (s \<lparr> sys_pc := (sys_pc s)(t := EnqPass item) \<rparr>)"
| call_dequeue: "wq_reach qo nt consumers q0 s \<Longrightarrow> sys_pc s t = Idle \<Longrightarrow> t \<in> consumers \<Longrightarrow>
    wq_reach qo nt consumers q0 (s \<lparr> sys_pc := (sys_pc s)(t := DeqPass) \<rparr>)"
| step: "wq_reach qo nt consumers q0 s \<Longrightarrow> wq_task_step qo nt t s = Some s' \<Longrightarrow>
    wq_reach qo nt consumers q0 s'"

text \<open>The steps one by one.\<close>

lemma wq_task_stepE:
  assumes "wq_task_step qo nt t s = Some s'"
  obtains (push) item q where "sys_pc s t = EnqPass item" "enq_pass qo item (sys_queue s) = Some q"
      "s' = s \<lparr> sys_queue := q, sys_hist := sys_hist s @ [Pushed item], sys_pc := (sys_pc s)(t := EnqNotify) \<rparr>"
  | (full) item where "sys_pc s t = EnqPass item" "s' = s \<lparr> sys_pc := (sys_pc s)(t := EnqFull item) \<rparr>"
  | (notify_consumer) w n where "sys_pc s t = EnqNotify" "notify_one nt (sys_not_empty s) = (w, n)"
      "s' = s \<lparr> sys_not_empty := n, sys_pc := wq_wake w ((sys_pc s)(t := Idle)) \<rparr>"
  | (wait_full) item now n where "sys_pc s t = EnqFull item" "notified nt t (sys_not_full s) = (now, n)"
      "s' = s \<lparr> sys_not_full := n, sys_pc := (sys_pc s)(t := if now then EnqPass item else EnqWait item) \<rparr>"
  | (pop) item q where "sys_pc s t = DeqPass" "deq_pass qo (sys_queue s) = Some (item, q)"
      "s' = s \<lparr> sys_queue := q, sys_hist := sys_hist s @ [Popped item], sys_pc := (sys_pc s)(t := DeqNotify item) \<rparr>"
  | (empty) "sys_pc s t = DeqPass" "deq_pass qo (sys_queue s) = None"
      "s' = s \<lparr> sys_pc := (sys_pc s)(t := DeqEmpty) \<rparr>"
  | (notify_producer) item w n where "sys_pc s t = DeqNotify item" "notify_one nt (sys_not_full s) = (w, n)"
      "s' = s \<lparr> sys_not_full := n, sys_pc := wq_wake w ((sys_pc s)(t := Idle)) \<rparr>"
  | (wait_empty) now n where "sys_pc s t = DeqEmpty" "notified nt t (sys_not_empty s) = (now, n)"
      "s' = s \<lparr> sys_not_empty := n, sys_pc := (sys_pc s)(t := if now then DeqPass else DeqWait) \<rparr>"
  using assms unfolding wq_task_step_def Let_def
  by (cases "sys_pc s t") (auto split: option.splits prod.splits)


section \<open>Wake-ups\<close>

lemma notify_oneD:
  assumes "notify_documented nt permit waiting" and "notify_one nt n = (w, n')"
  shows "waiting n = {} \<Longrightarrow> w = None \<and> permit n' \<and> waiting n' = {}"
    and "waiting n \<noteq> {} \<Longrightarrow> \<exists>t\<in>waiting n. w = Some t \<and> permit n' = permit n \<and> waiting n' = waiting n - {t}"
  using assms by (simp_all add: notify_documented_def)

lemma notifiedD:
  assumes "notify_documented nt permit waiting" and "notified nt t n = (b, n')"
  shows "b = permit n" and "\<not> permit n'"
    and "waiting n' = (if permit n then waiting n else insert t (waiting n))"
  using assms by (simp_all add: notify_documented_def)

text \<open>
  The waiting lists of the two \<^verbatim>\<open>Notify\<close>s are the tasks at the two waits, and only consumers are
  inside \<^verbatim>\<open>dequeue\<close>.
\<close>

definition wq_waiters_ok :: "('n \<Rightarrow> 't set) \<Rightarrow> 't set \<Rightarrow> ('q, 'a, 'b, 't, 'n) wq_sys \<Rightarrow> bool" where
  "wq_waiters_ok waiting consumers s \<longleftrightarrow>
     waiting (sys_not_empty s) = {t. sys_pc s t = DeqWait} \<and>
     waiting (sys_not_full s) = {t. \<exists>a. sys_pc s t = EnqWait a} \<and>
     (\<forall>t. sys_pc s t \<in> {DeqPass, DeqEmpty, DeqWait} \<longrightarrow> t \<in> consumers)"

text \<open>A notification wakes nobody and leaves a permit, or moves one waiting task to its next pass.\<close>

lemma notify_one_wake:
  assumes "notify_documented nt permit waiting" and "notify_one nt n = (w, n')"
    and "\<forall>u\<in>waiting n. u \<noteq> t"
  obtains (stored) "waiting n = {}" "waiting n' = {}" "permit n'" "wq_wake w (pc(t := Idle)) = pc(t := Idle)"
  | (woken) u where "u \<in> waiting n" "waiting n' = waiting n - {u}" "u \<noteq> t" "permit n' = permit n"
      "wq_wake w (pc(t := Idle)) = pc(t := Idle, u := wq_resume (pc u))"
proof (cases "waiting n = {}")
  case True
  with notify_oneD(1) [OF assms(1,2)] show ?thesis
    by (intro stored) (auto simp: wq_wake_def)
next
  case False
  then obtain u where "u \<in> waiting n" "w = Some u" "permit n' = permit n" "waiting n' = waiting n - {u}"
    using notify_oneD(2) [OF assms(1,2)] by blast
  then show ?thesis
    using assms(3) by (intro woken [of u]) (auto simp: wq_wake_def)
qed

lemma wq_reach_waiters:
  assumes doc: "notify_documented nt permit waiting"
  shows "wq_reach qo nt consumers q0 s \<Longrightarrow> wq_waiters_ok waiting consumers s"
proof (induction rule: wq_reach.induct)
  case start
  then show ?case
    using doc by (simp add: wq_waiters_ok_def wq_init_def notify_documented_def)
next
  case (step s t s')
  note ok = step.IH [unfolded wq_waiters_ok_def]
  from step.hyps(2) show ?case
  proof (cases rule: wq_task_stepE)
    case (notify_consumer w n)
    have "\<forall>u\<in>waiting (sys_not_empty s). u \<noteq> t"
      using ok notify_consumer(1) by auto
    with doc notify_consumer(2) show ?thesis
    proof (cases rule: notify_one_wake [where pc = "sys_pc s"])
      case stored
      with ok notify_consumer show ?thesis by (auto simp: wq_waiters_ok_def)
    next
      case (woken u)
      then have "sys_pc s u = DeqWait" using ok by simp
      with woken ok notify_consumer show ?thesis by (auto simp: wq_waiters_ok_def)
    qed
  next
    case (notify_producer item w n)
    have "\<forall>u\<in>waiting (sys_not_full s). u \<noteq> t"
      using ok notify_producer(1) by auto
    with doc notify_producer(2) show ?thesis
    proof (cases rule: notify_one_wake [where pc = "sys_pc s"])
      case stored
      with ok notify_producer show ?thesis by (auto simp: wq_waiters_ok_def)
    next
      case (woken u)
      then obtain a where "sys_pc s u = EnqWait a" using ok by auto
      with woken ok notify_producer show ?thesis by (auto simp: wq_waiters_ok_def)
    qed
  next
    case (wait_full item now n)
    with notifiedD [OF doc wait_full(2)] ok show ?thesis by (auto simp: wq_waiters_ok_def)
  next
    case (wait_empty now n)
    with notifiedD [OF doc wait_empty(2)] ok show ?thesis by (auto simp: wq_waiters_ok_def)
  qed (use ok in \<open>auto simp: wq_waiters_ok_def\<close>)
qed (auto simp: wq_waiters_ok_def)

text \<open>With one consumer, an item in the queue is matched by a permit or a pending notification.\<close>

definition wq_wakeup_due :: "('q, 'a, 'b) wq_ops \<Rightarrow> ('n \<Rightarrow> bool) \<Rightarrow> 't \<Rightarrow> ('q, 'a, 'b, 't, 'n) wq_sys \<Rightarrow> bool" where
  "wq_wakeup_due qo permit c s \<longleftrightarrow>
     (deq_pass qo (sys_queue s) \<noteq> None \<and> sys_pc s c \<in> {DeqEmpty, DeqWait} \<longrightarrow>
      (sys_pc s c = DeqEmpty \<and> permit (sys_not_empty s)) \<or> (\<exists>p. sys_pc s p = EnqNotify))"

lemma wq_wakeup_due_frame:
  assumes "wq_wakeup_due qo permit c s" and "\<And>p. sys_pc s p = EnqNotify \<Longrightarrow> sys_pc s' p = EnqNotify"
    and "sys_pc s' c \<in> {DeqEmpty, DeqWait} \<Longrightarrow> sys_pc s' c = sys_pc s c"
    and "sys_queue s' = sys_queue s" and "sys_not_empty s' = sys_not_empty s"
  shows "wq_wakeup_due qo permit c s'"
  using assms unfolding wq_wakeup_due_def by metis

lemma single_consumer_inv:
  assumes doc: "notify_documented nt permit waiting"
  shows "wq_reach qo nt {c} q0 s \<Longrightarrow> wq_wakeup_due qo permit c s"
proof (induction rule: wq_reach.induct)
  case (step s t s')
  note ok = wq_reach_waiters [OF doc step.hyps(1), unfolded wq_waiters_ok_def]
  note IH = step.IH [unfolded wq_wakeup_due_def]
  from step.hyps(2) show ?case
  proof (cases rule: wq_task_stepE)
    case (notify_consumer w n)
    have "\<forall>u\<in>waiting (sys_not_empty s). u \<noteq> t"
      using ok notify_consumer(1) by auto
    with doc notify_consumer(2) show ?thesis
    proof (cases rule: notify_one_wake [where pc = "sys_pc s"])
      case stored
      with ok notify_consumer show ?thesis by (auto simp: wq_wakeup_due_def)
    next
      case (woken u)
      then have "u = c" "sys_pc s u = DeqWait" using ok by auto
      with woken notify_consumer show ?thesis by (simp add: wq_wakeup_due_def)
    qed
  next
    case (notify_producer item w n)
    have "\<forall>u\<in>waiting (sys_not_full s). u \<noteq> t"
      using ok notify_producer(1) by auto
    with doc notify_producer(2) show ?thesis
    proof (cases rule: notify_one_wake [where pc = "sys_pc s"])
      case stored
      with notify_producer show ?thesis
        by (intro wq_wakeup_due_frame [OF step.IH]) (auto split: if_splits)
    next
      case (woken u)
      then obtain a where "sys_pc s u = EnqWait a" using ok by auto
      then have "sys_pc s' = (sys_pc s)(t := Idle, u := EnqPass a)" "sys_pc s u = EnqWait a"
        using woken(5) notify_producer(3) by simp_all
      then show ?thesis
        using notify_producer(1,3) by (intro wq_wakeup_due_frame [OF step.IH]) (auto split: if_splits)
    qed
  next
    case (wait_empty now n)
    have keep: "sys_pc s' p = EnqNotify" if "sys_pc s p = EnqNotify" for p
      using that wait_empty by auto
    have "t = c" using ok wait_empty(1) by blast
    then have "sys_pc s c = DeqEmpty" "sys_pc s' c = (if now then DeqPass else DeqWait)"
      "sys_queue s' = sys_queue s" "now = permit (sys_not_empty s)"
      using wait_empty notifiedD(1) [OF doc wait_empty(2)] by simp_all
    with IH keep show ?thesis unfolding wq_wakeup_due_def by auto
  next
    case (push item q)
    then show ?thesis by (auto simp: wq_wakeup_due_def)
  next
    case (pop item q)
    with ok have "t = c" by auto
    with pop show ?thesis by (simp add: wq_wakeup_due_def)
  next
    case empty
    then show ?thesis by (simp add: wq_wakeup_due_def)
  qed (intro wq_wakeup_due_frame [OF step.IH], auto split: if_splits)+
next
  case (call_enqueue s t item)
  then show ?case by (intro wq_wakeup_due_frame [OF call_enqueue.IH]) (auto split: if_splits)
next
  case (call_dequeue s t)
  then show ?case by (intro wq_wakeup_due_frame [OF call_dequeue.IH]) (auto split: if_splits)
qed (simp add: wq_wakeup_due_def wq_init_def)


text \<open>A run: a list of calls and of steps of single tasks.\<close>

datatype ('a, 't) wq_act = CallEnq 't 'a | CallDeq 't | Run 't

fun wq_act_step ::
  "('q, 'a, 'b) wq_ops \<Rightarrow> ('n, 't) notify_ops \<Rightarrow> 't set \<Rightarrow> ('a, 't) wq_act \<Rightarrow> ('q, 'a, 'b, 't, 'n) wq_sys \<Rightarrow> ('q, 'a, 'b, 't, 'n) wq_sys option" where
  "wq_act_step qo nt consumers (CallEnq t a) s =
     (if sys_pc s t = Idle then Some (s \<lparr> sys_pc := (sys_pc s)(t := EnqPass a) \<rparr>) else None)"
| "wq_act_step qo nt consumers (CallDeq t) s =
     (if sys_pc s t = Idle \<and> t \<in> consumers then Some (s \<lparr> sys_pc := (sys_pc s)(t := DeqPass) \<rparr>) else None)"
| "wq_act_step qo nt consumers (Run t) s = wq_task_step qo nt t s"

fun wq_run ::
  "('q, 'a, 'b) wq_ops \<Rightarrow> ('n, 't) notify_ops \<Rightarrow> 't set \<Rightarrow> ('a, 't) wq_act list \<Rightarrow> ('q, 'a, 'b, 't, 'n) wq_sys \<Rightarrow> ('q, 'a, 'b, 't, 'n) wq_sys option" where
  "wq_run qo nt consumers [] s = Some s"
| "wq_run qo nt consumers (a # as) s =
     (case wq_act_step qo nt consumers a s of None \<Rightarrow> None | Some s' \<Rightarrow> wq_run qo nt consumers as s')"

lemma wq_run_reach:
  "wq_reach qo nt consumers q0 s \<Longrightarrow> wq_run qo nt consumers as s = Some s' \<Longrightarrow> wq_reach qo nt consumers q0 s'"
proof (induction as arbitrary: s)
  case (Cons a as)
  then obtain s1 where s1: "wq_act_step qo nt consumers a s = Some s1" "wq_run qo nt consumers as s1 = Some s'"
    by (auto split: option.splits)
  have "wq_reach qo nt consumers q0 s1"
    using s1(1) Cons.prems(1) by (cases a) (auto intro: wq_reach.intros split: if_splits)
  with Cons.IH s1(2) show ?case by blast
qed simp

lemma single_consumer_woken:
  assumes "notify_documented nt permit waiting" and "wq_reach qo nt {c} q0 s"
    and "sys_pc s c = DeqWait" and "deq_pass qo (sys_queue s) \<noteq> None"
  shows "\<exists>p s'. sys_pc s p = EnqNotify \<and> wq_task_step qo nt p s = Some s' \<and> sys_pc s' c = DeqPass"
proof -
  obtain p where p: "sys_pc s p = EnqNotify"
    using single_consumer_inv [OF assms(1,2)] assms(3,4) by (auto simp: wq_wakeup_due_def)
  note ok = wq_reach_waiters [OF assms(1,2), unfolded wq_waiters_ok_def]
  have only: "waiting (sys_not_empty s) = {c}" using ok assms(3) by blast
  obtain w n where wn: "notify_one nt (sys_not_empty s) = (w, n)" by fastforce
  then have "w = Some c" using notify_oneD(2) [OF assms(1) wn] only by auto
  with p wn assms(3) show ?thesis
    by (auto simp: wq_task_step_def wq_wake_def intro!: exI [of _ p])
qed

text \<open>Two consumers can be left with one of them waiting in front of a queue that is not empty.\<close>

lemma two_consumers_stuck:
  assumes "notify_documented nt permit waiting" and "c1 \<noteq> c2" and "p \<noteq> c1" and "p \<noteq> c2"
    and "deq_pass qo q0 = None" and "enq_pass qo a q0 = Some q1" and "enq_pass qo b q1 = Some q2"
    and "deq_pass qo q2 = Some (x, q3)"
  shows "\<exists>s. wq_reach qo nt {c1, c2} q0 s \<and> sys_queue s = q3 \<and>
    sys_pc s c2 = DeqWait \<and> (\<forall>t. wq_task_step qo nt t s = None)"
proof -
  let ?n0 = "notify_new nt"
  have w0: "waiting ?n0 = {}" using assms(1) by (simp add: notify_documented_def)
  obtain n1 where n1: "notify_one nt ?n0 = (None, n1)" "permit n1" "waiting n1 = {}"
    using notify_oneD(1) [OF assms(1) _ w0] by (metis surj_pair)
  obtain n2 where n2: "notify_one nt n1 = (None, n2)" "permit n2" "waiting n2 = {}"
    using notify_oneD(1) [OF assms(1) _ n1(3)] by (metis surj_pair)
  obtain b3 n3 where "notified nt c1 n2 = (b3, n3)" by fastforce
  then have n3: "notified nt c1 n2 = (True, n3)" "\<not> permit n3"
    using notifiedD(1,2) [OF assms(1)] n2(2) by auto
  obtain b4 n4 where "notified nt c2 n3 = (b4, n4)" by fastforce
  then have n4: "notified nt c2 n3 = (False, n4)"
    using notifiedD(1) [OF assms(1)] n3(2) by auto
  let ?acts = "[CallDeq c1, CallDeq c2, Run c1, Run c2, CallEnq p a, Run p, Run p, CallEnq p b, Run p, Run p,
    Run c1, Run c2, Run c1, Run c1]"
  let ?s0 = "wq_init nt q0"
  have "\<exists>s. wq_run qo nt {c1, c2} ?acts ?s0 = Some s \<and> sys_queue s = q3 \<and>
      (\<forall>t. sys_pc s t = (if t = c2 then DeqWait else Idle))"
    using assms(2-8) n1(1) n2(1) n3(1) n4
    by (simp add: wq_task_step_def wq_init_def wq_wake_def)
  then obtain s where s: "wq_run qo nt {c1, c2} ?acts ?s0 = Some s" "sys_queue s = q3"
      "\<forall>t. sys_pc s t = (if t = c2 then DeqWait else Idle)" by blast
  have "wq_reach qo nt {c1, c2} q0 ?s0"
    by (rule wq_reach.start)
  from wq_run_reach [OF this s(1)] have "wq_reach qo nt {c1, c2} q0 s" .
  moreover have "wq_task_step qo nt t s = None" for t
    using s(3) by (simp add: wq_task_step_def)
  ultimately show ?thesis using s by (intro exI [of _ s]) simp
qed

section \<open>Concurrent runs are sequential ones\<close>

text \<open>
  The contract of a queue against an abstract one with contents of type \<open>'c\<close>: each successful pass
  is an insertion or a removal of the abstract queue. The invariant may depend on the number of
  pushes so far, and the contract may end after a number of them.
\<close>

fun spec_run ::
  "('a \<Rightarrow> 'c \<Rightarrow> 'c) \<Rightarrow> ('c \<Rightarrow> ('b \<times> 'c) option) \<Rightarrow> ('a, 'b) wq_event list \<Rightarrow> 'c \<Rightarrow> 'c option" where
  "spec_run ins rem [] c = Some c"
| "spec_run ins rem (Pushed a # h) c = spec_run ins rem h (ins a c)"
| "spec_run ins rem (Popped b # h) c =
     (case rem c of None \<Rightarrow> None | Some (b', c') \<Rightarrow> if b' = b then spec_run ins rem h c' else None)"

fun pushes :: "('a, 'b) wq_event list \<Rightarrow> nat" where
  "pushes [] = 0"
| "pushes (Pushed a # h) = Suc (pushes h)"
| "pushes (Popped b # h) = pushes h"

lemma pushes_append [simp]: "pushes (h @ h') = pushes h + pushes h'"
  by (induction h rule: pushes.induct) auto

lemma spec_run_append:
  "spec_run ins rem (h @ h') c = Option.bind (spec_run ins rem h c) (spec_run ins rem h')"
  by (induction ins rem h c rule: spec_run.induct) (auto split: option.splits)

locale queue_contract =
  fixes qo :: "('q, 'a, 'b) wq_ops"
    and invar :: "nat \<Rightarrow> 'q \<Rightarrow> bool"
    and contents :: "'q \<Rightarrow> 'c"
    and ins :: "'a \<Rightarrow> 'c \<Rightarrow> 'c"
    and rem :: "'c \<Rightarrow> ('b \<times> 'c) option"
    and limit :: "nat option"
  assumes enq_law: "invar n q \<Longrightarrow> (\<And>l. limit = Some l \<Longrightarrow> n < l) \<Longrightarrow> enq_pass qo a q = Some q' \<Longrightarrow>
      invar (Suc n) q' \<and> contents q' = ins a (contents q)"
    and deq_law: "invar n q \<Longrightarrow> deq_pass qo q = Some (b, q') \<Longrightarrow>
      invar n q' \<and> rem (contents q) = Some (b, contents q')"
begin

lemma reach_sequential:
  "wq_reach qo nt consumers q0 s \<Longrightarrow> invar 0 q0 \<Longrightarrow> (\<And>l. limit = Some l \<Longrightarrow> pushes (sys_hist s) \<le> l) \<Longrightarrow>
   invar (pushes (sys_hist s)) (sys_queue s) \<and>
   spec_run ins rem (sys_hist s) (contents q0) = Some (contents (sys_queue s))"
proof (induction rule: wq_reach.induct)
  case (step s t s')
  from step.hyps(2) show ?case
  proof (cases rule: wq_task_stepE)
    case (push item q)
    have "\<And>l. limit = Some l \<Longrightarrow> pushes (sys_hist s) \<le> l"
      using step.prems(2) push(3) by fastforce
    with step.IH step.prems(1) have IH: "invar (pushes (sys_hist s)) (sys_queue s)"
        "spec_run ins rem (sys_hist s) (contents q0) = Some (contents (sys_queue s))" by blast+
    have "\<And>l. limit = Some l \<Longrightarrow> pushes (sys_hist s) < l"
      using step.prems(2) push(3) by fastforce
    from enq_law [OF IH(1) this push(2)] IH(2) push(3) show ?thesis
      by (simp add: spec_run_append)
  next
    case (pop item q)
    with step.IH step.prems have IH: "invar (pushes (sys_hist s)) (sys_queue s)"
        "spec_run ins rem (sys_hist s) (contents q0) = Some (contents (sys_queue s))" by auto
    from deq_law [OF IH(1) pop(2)] IH(2) pop(3) show ?thesis
      by (simp add: spec_run_append)
  qed (use step in auto)
qed (auto simp: wq_init_def)

end

section \<open>Wake-ups with one consumer\<close>

text \<open>
  With a single consumer no wake-up is lost. Whenever that consumer waits in \<^verbatim>\<open>dequeue\<close> while the
  queue holds an item (for every queue with these loops), some producer is between its push and its notification, and the step that
  producer takes next makes the consumer try again.
\<close>

lemma single_consumer_no_lost_wakeup:
  assumes "notify_documented nt permit waiting" and "wq_reach qo nt {c} q0 s"
    and "sys_pc s c = DeqWait" and "deq_pass qo (sys_queue s) \<noteq> None"
  shows "\<exists>p s'. sys_pc s p = EnqNotify \<and> wq_task_step qo nt p s = Some s' \<and> sys_pc s' c = DeqPass"
  using assms by (rule single_consumer_woken)

text \<open>
  For the witness: a \<^verbatim>\<open>Notify\<close> that behaves as documented (the permit and the waiting tasks, oldest
  first), and a queue that holds at most one item.
\<close>

definition listed_notify :: "(bool \<times> nat list, nat) notify_ops" where
  "listed_notify =
     \<lparr> notify_new = (False, []),
       notify_one = (\<lambda>(b, ws). case ws of [] \<Rightarrow> (None, (True, [])) | w # _ \<Rightarrow> (Some w, (b, removeAll w ws))),
       notified = (\<lambda>t (b, ws). if b then (True, (False, ws)) else (False, (False, ws @ [t]))) \<rparr>"

lemma listed_notify_documented: "notify_documented listed_notify fst (\<lambda>n. set (snd n))"
  by (auto simp: notify_documented_def listed_notify_def split: list.splits)

definition cell_ops :: "('a option, 'a, 'a) wq_ops" where
  "cell_ops =
     \<lparr> enq_pass = (\<lambda>a q. if q = None then Some (Some a) else None),
       deq_pass = (\<lambda>q. map_option (\<lambda>a. (a, None)) q) \<rparr>"

lemma single_consumer_no_lost_wakeup_witness:
  "\<exists>s p s'. wq_run cell_ops listed_notify {1} [CallDeq 1, Run 1, Run 1, CallEnq 0 True, Run 0]
        (wq_init listed_notify None) = Some s
     \<and> sys_pc s 1 = DeqWait \<and> sys_queue s = Some True
     \<and> sys_pc s p = EnqNotify \<and> wq_task_step cell_ops listed_notify p s = Some s' \<and> sys_pc s' 1 = DeqPass"
proof -
  let ?acts = "[CallDeq 1, Run 1, Run 1, CallEnq 0 True, Run 0]"
  obtain s where s: "wq_run cell_ops listed_notify {1} ?acts (wq_init listed_notify None) = Some s"
      "sys_pc s 1 = DeqWait" "sys_queue s = Some True"
    by (simp add: wq_task_step_def wq_init_def wq_wake_def cell_ops_def listed_notify_def)
  then have "deq_pass cell_ops (sys_queue s) \<noteq> None" by (simp add: cell_ops_def)
  from single_consumer_no_lost_wakeup
    [OF listed_notify_documented wq_run_reach [OF wq_reach.start s(1)] s(2) this] s
  show ?thesis by auto
qed

end
