(* ===== verification/Fifo_Queue.thy ===== *)
theory Fifo_Queue
  imports Waiting_Queue
begin

text \<open>
  \<^verbatim>\<open>crates/qaas-core/src/queue/fifo.rs\<close>: the in-memory first-in-first-out queue. The code of each
  operation between its lock and its unlock is a definition here; the waiting loops around the
  passes are those of the theory \<open>Waiting_Queue\<close>, whose contract the queue satisfies.
\<close>

section \<open>The operations\<close>

text \<open>The capacity is a \<^verbatim>\<open>NonZeroUsize\<close>.\<close>

record 'a fifo_queue =
  fifo_items :: "'a list"
  fifo_capacity :: "nat option"

definition fifo_unbounded :: "'a fifo_queue" where
  "fifo_unbounded = \<lparr> fifo_items = [], fifo_capacity = None \<rparr>"

definition fifo_bounded :: "nat \<Rightarrow> 'a fifo_queue" where
  "fifo_bounded cap = \<lparr> fifo_items = [], fifo_capacity = Some cap \<rparr>"

definition fifo_len :: "'a fifo_queue \<Rightarrow> nat" where
  "fifo_len q = length (fifo_items q)"

definition fifo_is_empty :: "'a fifo_queue \<Rightarrow> bool" where
  "fifo_is_empty q \<longleftrightarrow> fifo_items q = []"

definition fifo_has_room :: "'a fifo_queue \<Rightarrow> nat \<Rightarrow> bool" where
  "fifo_has_room q current_len = (case fifo_capacity q of None \<Rightarrow> True | Some cap \<Rightarrow> current_len < cap)"

text \<open>
  One pass of the loop of \<^verbatim>\<open>enqueue\<close>, from the lock to the unlock: \<^const>\<open>None\<close> when the queue is full
  and the task goes on to wait. \<^verbatim>\<open>try_enqueue\<close> gives the item back instead of waiting.
\<close>

definition fifo_enqueue_pass :: "'a \<Rightarrow> 'a fifo_queue \<Rightarrow> 'a fifo_queue option" where
  "fifo_enqueue_pass item q =
     (if fifo_has_room q (length (fifo_items q)) then Some (q \<lparr> fifo_items := fifo_items q @ [item] \<rparr>)
      else None)"

definition fifo_try_enqueue :: "'a \<Rightarrow> 'a fifo_queue \<Rightarrow> ('a + unit) \<times> 'a fifo_queue" where
  "fifo_try_enqueue item q =
     (case fifo_enqueue_pass item q of Some q' \<Rightarrow> (Inr (), q') | None \<Rightarrow> (Inl item, q))"

text \<open>One pass of the loop of \<^verbatim>\<open>dequeue\<close>: \<^const>\<open>None\<close> when the queue is empty.\<close>

definition fifo_dequeue_pass :: "'a fifo_queue \<Rightarrow> ('a \<times> 'a fifo_queue) option" where
  "fifo_dequeue_pass q =
     (case fifo_items q of [] \<Rightarrow> None | item # rest \<Rightarrow> Some (item, q \<lparr> fifo_items := rest \<rparr>))"

definition fifo_try_dequeue :: "'a fifo_queue \<Rightarrow> 'a option \<times> 'a fifo_queue" where
  "fifo_try_dequeue q =
     (case fifo_dequeue_pass q of Some (item, q') \<Rightarrow> (Some item, q') | None \<Rightarrow> (None, q))"

definition fifo_wf :: "'a fifo_queue \<Rightarrow> bool" where
  "fifo_wf q \<longleftrightarrow> (case fifo_capacity q of None \<Rightarrow> True | Some cap \<Rightarrow> length (fifo_items q) \<le> cap)"

lemma fifo_pass_wf:
  "fifo_wf q \<Longrightarrow> fifo_enqueue_pass item q = Some q' \<Longrightarrow> fifo_wf q'"
  "fifo_wf q \<Longrightarrow> fifo_dequeue_pass q = Some (item, q'') \<Longrightarrow> fifo_wf q''"
  by (auto simp: fifo_wf_def fifo_enqueue_pass_def fifo_dequeue_pass_def fifo_has_room_def
      split: option.splits if_splits list.splits)

lemma fifo_enqueue_items:
  "fifo_enqueue_pass item q = Some q' \<Longrightarrow>
   fifo_items q' = fifo_items q @ [item] \<and> fifo_capacity q' = fifo_capacity q"
  by (auto simp: fifo_enqueue_pass_def split: if_splits)

lemma fifo_dequeue_items:
  "fifo_dequeue_pass q = Some (item, q') \<Longrightarrow>
   fifo_items q = item # fifo_items q' \<and> fifo_capacity q' = fifo_capacity q"
  by (auto simp: fifo_dequeue_pass_def split: list.splits)

lemma fifo_dequeue_None: "fifo_dequeue_pass q = None \<longleftrightarrow> fifo_items q = []"
  by (simp add: fifo_dequeue_pass_def split: list.splits)

section \<open>Concurrent use\<close>

definition fifo_ops :: "('a fifo_queue, 'a, 'a) wq_ops" where
  "fifo_ops = \<lparr> enq_pass = fifo_enqueue_pass, deq_pass = fifo_dequeue_pass \<rparr>"

definition fifo_new :: "nat option \<Rightarrow> 'a fifo_queue" where
  "fifo_new cap = (case cap of None \<Rightarrow> fifo_unbounded | Some c \<Rightarrow> fifo_bounded c)"

definition fifo_front :: "'a list \<Rightarrow> ('a \<times> 'a list) option" where
  "fifo_front xs = (case xs of [] \<Rightarrow> None | x # rest \<Rightarrow> Some (x, rest))"

interpretation fq: queue_contract fifo_ops "\<lambda>_ q. fifo_wf q \<and> fifo_capacity q = cap" fifo_items
    "\<lambda>a xs. xs @ [a]" fifo_front None
  for cap
  by unfold_locales
    (auto simp: fifo_ops_def fifo_front_def dest: fifo_enqueue_items fifo_dequeue_items fifo_pass_wf)

lemma fifo_new_simps [simp]:
  "fifo_wf (fifo_new cap)" "fifo_capacity (fifo_new cap) = cap" "fifo_items (fifo_new cap) = []"
  by (simp_all add: fifo_new_def fifo_unbounded_def fifo_bounded_def fifo_wf_def split: option.splits)

text \<open>The items pushed and popped in a history.\<close>

definition pushed :: "('a, 'b) wq_event list \<Rightarrow> 'a list" where
  "pushed h = concat (map (\<lambda>e. case e of Pushed a \<Rightarrow> [a] | Popped _ \<Rightarrow> []) h)"

definition popped :: "('a, 'b) wq_event list \<Rightarrow> 'b list" where
  "popped h = concat (map (\<lambda>e. case e of Pushed _ \<Rightarrow> [] | Popped b \<Rightarrow> [b]) h)"

lemma fifo_spec_run:
  "spec_run (\<lambda>a xs. xs @ [a]) fifo_front h xs = Some ys \<Longrightarrow> xs @ pushed h = popped h @ ys"
proof (induction "\<lambda>(a :: 'a) xs. xs @ [a]" "fifo_front :: 'a list \<Rightarrow> _" h xs rule: spec_run.induct)
  case (3 b h c)
  then show ?case
    by (auto simp: fifo_front_def pushed_def popped_def split: list.splits if_splits)
qed (auto simp: pushed_def popped_def)

text \<open>
  C22: with any number of tasks calling \<^verbatim>\<open>enqueue\<close> and \<^verbatim>\<open>dequeue\<close> concurrently, interleaved in any way
  and with any wake-up mechanism, the items leave the queue in the order they entered it (nothing
  lost, duplicated or reordered) and a bounded queue never holds more items than its capacity.
\<close>

theorem fifo_order_and_capacity:
  assumes "wq_reach fifo_ops nt consumers (fifo_new cap) s"
  shows "pushed (sys_hist s) = popped (sys_hist s) @ fifo_items (sys_queue s) \<and>
    (case cap of None \<Rightarrow> True | Some c \<Rightarrow> fifo_len (sys_queue s) \<le> c)"
proof -
  have "fifo_wf (sys_queue s) \<and> fifo_capacity (sys_queue s) = cap"
    "spec_run (\<lambda>a xs. xs @ [a]) fifo_front (sys_hist s) [] = Some (fifo_items (sys_queue s))"
    using fq.reach_sequential [OF assms, of cap] by simp_all
  with fifo_spec_run [OF this(2)] show ?thesis
    by (auto simp: fifo_wf_def fifo_len_def split: option.splits)
qed

theorem fifo_order_and_capacity_witness:
  "\<exists>s. wq_run fifo_ops listed_notify {1} [CallEnq 0 True, Run 0, Run 0, CallEnq 0 False, Run 0, CallDeq 1, Run 1]
        (wq_init listed_notify (fifo_new (Some 1))) = Some s
     \<and> pushed (sys_hist s) = popped (sys_hist s) @ fifo_items (sys_queue s) \<and> fifo_len (sys_queue s) \<le> 1"
proof -
  let ?acts = "[CallEnq 0 True, Run 0, Run 0, CallEnq 0 False, Run 0, CallDeq 1, Run 1]"
  obtain s where s: "wq_run fifo_ops listed_notify {1} ?acts (wq_init listed_notify (fifo_new (Some 1))) = Some s"
    by (simp add: wq_task_step_def wq_init_def wq_wake_def fifo_ops_def listed_notify_def fifo_new_def
        fifo_bounded_def fifo_enqueue_pass_def fifo_dequeue_pass_def fifo_has_room_def)
  from fifo_order_and_capacity [OF wq_run_reach [OF wq_reach.start s]] s show ?thesis by auto
qed

text \<open>
  With two consumers a wake-up can be lost. Whatever the implementation of \<^verbatim>\<open>Notify\<close> is, as long
  as it stores at most one permit as documented, there is a run of one producer and two consumers
  of an unbounded queue that ends with an item in the queue, a consumer waiting for it in
  \<^verbatim>\<open>dequeue\<close>, and no task able to take a step: both consumers saw the queue empty, two items were
  pushed before either consumer polled \<^verbatim>\<open>notified()\<close>, and the two notifications were stored as one
  permit.
\<close>

lemma fifo_two_consumers_lost_wakeup:
  assumes "notify_documented nt permit waiting" and "c1 \<noteq> c2" and "p \<noteq> c1" and "p \<noteq> c2"
  shows "\<exists>s. wq_reach fifo_ops nt {c1, c2} fifo_unbounded s \<and> fifo_items (sys_queue s) = [b] \<and>
    sys_pc s c2 = DeqWait \<and> (\<forall>t. wq_task_step fifo_ops nt t s = None)"
proof -
  let ?q = "\<lambda>xs. \<lparr> fifo_items = xs, fifo_capacity = None \<rparr>"
  have "\<exists>s. wq_reach fifo_ops nt {c1, c2} fifo_unbounded s \<and> sys_queue s = ?q [b] \<and>
      sys_pc s c2 = DeqWait \<and> (\<forall>t. wq_task_step fifo_ops nt t s = None)"
    by (rule two_consumers_stuck [OF assms, where ?a = b and ?b = b and ?q1.0 = "?q [b]" and ?q2.0 = "?q [b, b]" and x = b])
      (simp_all add: fifo_ops_def fifo_unbounded_def fifo_enqueue_pass_def fifo_dequeue_pass_def fifo_has_room_def)
  then show ?thesis by auto
qed

lemma fifo_two_consumers_lost_wakeup_witness:
  "\<exists>s. wq_reach fifo_ops listed_notify {1, 2} fifo_unbounded s \<and> fifo_items (sys_queue s) = [False] \<and>
     sys_pc s 2 = DeqWait \<and> (\<forall>t. wq_task_step fifo_ops listed_notify t s = None)"
  by (rule fifo_two_consumers_lost_wakeup [OF listed_notify_documented, of 1 2 0]) simp_all

end
