(* ===== verification/Priority_Queue.thy ===== *)
theory Priority_Queue
  imports Waiting_Queue
begin

text \<open>
  \<^verbatim>\<open>crates/qaas-core/src/queue/priority.rs\<close>: the in-memory priority queue, a \<^verbatim>\<open>BinaryHeap\<close> of entries
  ordered by priority and, within a priority, by the sequence number drawn at the push. The heap is
  a list whose order no operation observes: a pop takes a greatest entry. The waiting loops are
  those of the theory \<open>Waiting_Queue\<close>. The queue implements the abstract one that keeps the items
  in their order of arrival and removes the first item of the highest priority present.
\<close>

section \<open>Entries and their order\<close>

type_synonym priority = u8

record 'a entry =
  e_priority :: priority
  e_sequence :: u64
  e_item :: 'a

text \<open>What \<^verbatim>\<open>Ord for Entry\<close> compares: the priority, then the sequence numbers in reverse.\<close>

datatype heap_key = HeapKey priority u64

instantiation heap_key :: linorder
begin

fun less_eq_heap_key :: "heap_key \<Rightarrow> heap_key \<Rightarrow> bool" where
  "less_eq_heap_key (HeapKey p s) (HeapKey p' s') \<longleftrightarrow> p < p' \<or> p = p' \<and> s' \<le> s"

definition less_heap_key :: "heap_key \<Rightarrow> heap_key \<Rightarrow> bool" where
  "less_heap_key x y \<longleftrightarrow> x \<le> y \<and> \<not> y \<le> x"

instance
proof
  fix x y z :: heap_key
  show "x < y \<longleftrightarrow> x \<le> y \<and> \<not> y \<le> x" by (simp add: less_heap_key_def)
  show "x \<le> x" by (cases x) simp
  show "x \<le> y \<Longrightarrow> y \<le> z \<Longrightarrow> x \<le> z" by (cases x; cases y; cases z) auto
  show "x \<le> y \<Longrightarrow> y \<le> x \<Longrightarrow> x = y" by (cases x; cases y) auto
  show "x \<le> y \<or> y \<le> x" by (cases x; cases y) auto
qed

end

definition entry_key :: "'a entry \<Rightarrow> heap_key" where
  "entry_key e = HeapKey (e_priority e) (e_sequence e)"

section \<open>The operations\<close>

record 'a priority_queue =
  prio_heap :: "'a entry list"
  prio_capacity :: "nat option"
  prio_next_sequence :: u64

definition prio_unbounded :: "'a priority_queue" where
  "prio_unbounded = \<lparr> prio_heap = [], prio_capacity = None, prio_next_sequence = 0 \<rparr>"

definition prio_bounded :: "nat \<Rightarrow> 'a priority_queue" where
  "prio_bounded cap = \<lparr> prio_heap = [], prio_capacity = Some cap, prio_next_sequence = 0 \<rparr>"

definition prio_len :: "'a priority_queue \<Rightarrow> nat" where
  "prio_len q = length (prio_heap q)"

definition prio_is_empty :: "'a priority_queue \<Rightarrow> bool" where
  "prio_is_empty q \<longleftrightarrow> prio_heap q = []"

definition prio_has_room :: "'a priority_queue \<Rightarrow> nat \<Rightarrow> bool" where
  "prio_has_room q current_len = (case prio_capacity q of None \<Rightarrow> True | Some cap \<Rightarrow> current_len < cap)"

text \<open>\<^verbatim>\<open>fetch_add\<close> wraps around at \<open>2 ^ 64\<close>.\<close>

definition prio_entry :: "'a \<Rightarrow> priority \<Rightarrow> 'a priority_queue \<Rightarrow> 'a entry \<times> 'a priority_queue" where
  "prio_entry item p q =
     (\<lparr> e_priority = p, e_sequence = prio_next_sequence q, e_item = item \<rparr>,
      q \<lparr> prio_next_sequence := prio_next_sequence q + 1 \<rparr>)"

text \<open>\<^verbatim>\<open>BinaryHeap::pop\<close>.\<close>

definition heap_max :: "'a entry \<Rightarrow> 'a entry list \<Rightarrow> 'a entry" where
  "heap_max e es = foldl (\<lambda>m x. if entry_key m < entry_key x then x else m) e es"

definition heap_pop :: "'a entry list \<Rightarrow> ('a entry \<times> 'a entry list) option" where
  "heap_pop es =
     (case es of
        [] \<Rightarrow> None
      | e # rest \<Rightarrow>
          (let m = heap_max e rest in Some (m, remove_first (\<lambda>x. entry_key x = entry_key m) es)))"

text \<open>One pass of the loops of \<^verbatim>\<open>enqueue\<close> and \<^verbatim>\<open>dequeue\<close>, and the variants that do not wait.\<close>

definition prio_enqueue_pass :: "'a \<times> priority \<Rightarrow> 'a priority_queue \<Rightarrow> 'a priority_queue option" where
  "prio_enqueue_pass ip q =
     (if prio_has_room q (length (prio_heap q))
      then case prio_entry (fst ip) (snd ip) q of
             (e, q) \<Rightarrow> Some (q \<lparr> prio_heap := prio_heap q @ [e] \<rparr>)
      else None)"

definition prio_try_enqueue :: "'a \<Rightarrow> priority \<Rightarrow> 'a priority_queue \<Rightarrow> ('a + unit) \<times> 'a priority_queue" where
  "prio_try_enqueue item p q =
     (case prio_enqueue_pass (item, p) q of Some q' \<Rightarrow> (Inr (), q') | None \<Rightarrow> (Inl item, q))"

definition prio_dequeue_pass :: "'a priority_queue \<Rightarrow> ('a \<times> 'a priority_queue) option" where
  "prio_dequeue_pass q =
     (case heap_pop (prio_heap q) of
        None \<Rightarrow> None
      | Some (e, rest) \<Rightarrow> Some (e_item e, q \<lparr> prio_heap := rest \<rparr>))"

definition prio_try_dequeue :: "'a priority_queue \<Rightarrow> 'a option \<times> 'a priority_queue" where
  "prio_try_dequeue q =
     (case prio_dequeue_pass q of Some (item, q') \<Rightarrow> (Some item, q') | None \<Rightarrow> (None, q))"

definition prio_ops :: "('a priority_queue, 'a \<times> priority, 'a) wq_ops" where
  "prio_ops = \<lparr> enq_pass = prio_enqueue_pass, deq_pass = prio_dequeue_pass \<rparr>"

section \<open>The abstract queue\<close>

text \<open>The items in their order of arrival; the first one of the highest priority leaves.\<close>

definition first_highest :: "('a \<times> priority) list \<Rightarrow> ('a \<times> ('a \<times> priority) list) option" where
  "first_highest xs =
     (case xs of
        [] \<Rightarrow> None
      | _ \<Rightarrow>
          (let top = Max (set (map snd xs)) in
           map_option (\<lambda>x. (fst x, remove_first (\<lambda>x. snd x = top) xs)) (find (\<lambda>x. snd x = top) xs)))"

definition prio_contents :: "'a priority_queue \<Rightarrow> ('a \<times> priority) list" where
  "prio_contents q = map (\<lambda>e. (e_item e, e_priority e)) (prio_heap q)"

definition prio_invar :: "nat \<Rightarrow> 'a priority_queue \<Rightarrow> bool" where
  "prio_invar n q \<longleftrightarrow>
     n \<le> 2 ^ 64 \<and> (n < 2 ^ 64 \<longrightarrow> unat (prio_next_sequence q) = n) \<and>
     sorted_wrt (<) (map (unat \<circ> e_sequence) (prio_heap q)) \<and>
     (\<forall>e\<in>set (prio_heap q). unat (e_sequence e) < n)"

lemma heap_max_props:
  "heap_max e es \<in> set (e # es) \<and> (\<forall>x\<in>set (e # es). entry_key x \<le> entry_key (heap_max e es))"
proof (induction es arbitrary: e)
  case Nil
  then show ?case by (simp add: heap_max_def)
next
  case (Cons y es)
  let ?m = "if entry_key e < entry_key y then y else e"
  have "heap_max e (y # es) = heap_max ?m es" by (simp add: heap_max_def)
  with Cons [of ?m] show ?case by (auto split: if_splits)
qed

lemma remove_first_split:
  "\<forall>y\<in>set ys. \<not> P y \<Longrightarrow> P x \<Longrightarrow> remove_first P (ys @ x # zs) = ys @ zs"
  by (induction ys) auto

lemma find_split:
  "\<forall>y\<in>set ys. \<not> P y \<Longrightarrow> P x \<Longrightarrow> find P (ys @ x # zs) = Some x"
  by (induction ys) auto

text \<open>With increasing sequence numbers a pop takes the first entry of the highest priority.\<close>

lemma heap_pop_first_highest:
  assumes "heap_pop es = Some (m, rest)" and "sorted_wrt (<) (map (unat \<circ> e_sequence) es)"
  obtains ys zs where "es = ys @ m # zs" and "rest = ys @ zs"
    and "\<forall>y\<in>set ys. e_priority y < e_priority m" and "\<forall>z\<in>set zs. e_priority z \<le> e_priority m"
proof -
  obtain e es' where es: "es = e # es'" using assms(1) by (cases es) (auto simp: heap_pop_def)
  then have m: "m = heap_max e es'" "rest = remove_first (\<lambda>x. entry_key x = entry_key m) es"
    using assms(1) by (auto simp: heap_pop_def Let_def)
  then have mem: "m \<in> set es" and top: "\<forall>x\<in>set es. entry_key x \<le> entry_key m"
    using heap_max_props [of e es'] es by auto
  obtain ys zs where split: "es = ys @ m # zs" using mem by (auto dest: split_list)
  have low: "\<forall>y\<in>set ys. e_priority y < e_priority m"
  proof
    fix y assume y: "y \<in> set ys"
    then have "unat (e_sequence y) < unat (e_sequence m)"
      using assms(2) by (auto simp: split sorted_wrt_append)
    moreover have "entry_key y \<le> entry_key m" using top y by (simp add: split)
    ultimately show "e_priority y < e_priority m"
      by (auto simp: entry_key_def word_le_nat_alt)
  qed
  have "\<forall>z\<in>set zs. e_priority z \<le> e_priority m"
  proof
    fix z assume "z \<in> set zs"
    then have "entry_key z \<le> entry_key m" using top by (simp add: split)
    then show "e_priority z \<le> e_priority m" by (auto simp: entry_key_def)
  qed
  moreover have "rest = ys @ zs"
    using low by (simp add: m(2) split) (rule remove_first_split, auto simp: entry_key_def)
  ultimately show thesis using that split low by blast
qed

lemma first_highest_ne:
  "xs \<noteq> [] \<Longrightarrow> first_highest xs = (let top = Max (set (map snd xs)) in
     map_option (\<lambda>x. (fst x, remove_first (\<lambda>x. snd x = top) xs)) (find (\<lambda>x. snd x = top) xs))"
  unfolding first_highest_def by (cases xs) (simp_all only: list.case simp_thms)

lemma first_highest_split:
  assumes "\<forall>y\<in>set ys. snd y < snd x" and "\<forall>z\<in>set zs. snd z \<le> snd x"
  shows "first_highest (ys @ x # zs) = Some (fst x, ys @ zs)"
proof -
  have "Max (set (map snd (ys @ x # zs))) = snd x"
    using assms by (intro Max_eqI) (auto intro: less_imp_le)
  moreover have ne: "\<forall>y\<in>set ys. \<not> snd y = snd x" using assms(1) by auto
  moreover have "first_highest (ys @ x # zs) = (let top = Max (set (map snd (ys @ x # zs))) in
      map_option (\<lambda>y. (fst y, remove_first (\<lambda>x. snd x = top) (ys @ x # zs)))
        (find (\<lambda>x. snd x = top) (ys @ x # zs)))"
    by (rule first_highest_ne) simp
  ultimately show ?thesis
    using find_split [of ys "\<lambda>y. snd y = snd x" x zs] remove_first_split [of ys "\<lambda>y. snd y = snd x" x zs]
    by (simp only: Let_def) simp
qed

lemma prio_enqueue_law:
  assumes "prio_invar n q" and "n < 2 ^ 64" and "prio_enqueue_pass ip q = Some q'"
  shows "prio_invar (Suc n) q' \<and> prio_contents q' = prio_contents q @ [ip]"
proof -
  obtain item p where ip: "ip = (item, p)" by (cases ip)
  let ?e = "\<lparr> e_priority = p, e_sequence = prio_next_sequence q, e_item = item \<rparr>"
  have q': "q' = q \<lparr> prio_heap := prio_heap q @ [?e], prio_next_sequence := prio_next_sequence q + 1 \<rparr>"
    using assms(3) by (auto simp: prio_enqueue_pass_def prio_entry_def ip split: if_splits)
  have seq: "unat (prio_next_sequence q) = n" using assms by (simp add: prio_invar_def)
  have "unat (prio_next_sequence q + 1) = Suc n" if "Suc n < 2 ^ 64"
    using that seq by (simp add: unat_word_ariths)
  then show ?thesis
    using assms(1,2) seq by (auto simp: prio_invar_def q' prio_contents_def ip sorted_wrt_append less_Suc_eq)
qed

lemma prio_dequeue_law:
  assumes "prio_invar n q" and "prio_dequeue_pass q = Some (b, q')"
  shows "prio_invar n q' \<and> first_highest (prio_contents q) = Some (b, prio_contents q')"
proof -
  obtain m rest where pop: "heap_pop (prio_heap q) = Some (m, rest)"
    and b: "b = e_item m" "q' = q \<lparr> prio_heap := rest \<rparr>"
    using assms(2) by (auto simp: prio_dequeue_pass_def split: option.splits)
  have sorted: "sorted_wrt (<) (map (unat \<circ> e_sequence) (prio_heap q))"
    using assms(1) by (simp add: prio_invar_def)
  obtain ys zs where split: "prio_heap q = ys @ m # zs" "rest = ys @ zs"
      "\<forall>y\<in>set ys. e_priority y < e_priority m" "\<forall>z\<in>set zs. e_priority z \<le> e_priority m"
    by (rule heap_pop_first_highest [OF pop sorted])
  have "prio_invar n q'"
    using assms(1) by (auto simp: prio_invar_def b split sorted_wrt_append)
  moreover have "first_highest (prio_contents q) = Some (b, prio_contents q')"
    using first_highest_split [of "map (\<lambda>e. (e_item e, e_priority e)) ys" "(e_item m, e_priority m)"
        "map (\<lambda>e. (e_item e, e_priority e)) zs"] split(3,4)
    by (simp add: prio_contents_def b split)
  ultimately show ?thesis ..
qed

interpretation pq: queue_contract prio_ops prio_invar prio_contents "\<lambda>ip xs. xs @ [ip]" first_highest "Some (2 ^ 64)"
proof unfold_locales
  fix n q a q'
  assume "prio_invar n q" "\<And>l. Some (2 ^ 64) = Some l \<Longrightarrow> n < l" "enq_pass prio_ops a q = Some q'"
  then show "prio_invar (Suc n) q' \<and> prio_contents q' = prio_contents q @ [a]"
    by (intro prio_enqueue_law) (simp_all add: prio_ops_def)
qed (auto simp: prio_ops_def dest: prio_dequeue_law)

lemma prio_new_invar: "prio_invar 0 prio_unbounded" "prio_invar 0 (prio_bounded cap)"
  "prio_contents prio_unbounded = []" "prio_contents (prio_bounded cap) = []"
  by (simp_all add: prio_invar_def prio_unbounded_def prio_bounded_def prio_contents_def)

text \<open>
  C21: with any number of tasks calling \<^verbatim>\<open>enqueue\<close> and \<^verbatim>\<open>dequeue\<close> concurrently on a fresh queue, up to
  \<open>2 ^ 64\<close> pushes (then the sequence numbers repeat), the pushes and pops that took place are, in
  their order, those of the abstract queue: every pop returned the item that arrived first among
  those of the highest priority present.
\<close>

theorem priority_queue_refines:
  assumes "wq_reach prio_ops nt consumers q0 s" and "q0 \<in> {prio_unbounded, prio_bounded cap}"
    and "pushes (sys_hist s) \<le> 2 ^ 64"
  shows "spec_run (\<lambda>ip xs. xs @ [ip]) first_highest (sys_hist s) [] = Some (prio_contents (sys_queue s))"
proof -
  have "prio_invar 0 q0" "prio_contents q0 = []"
    using assms(2) prio_new_invar by auto
  with pq.reach_sequential [OF assms(1)] assms(3) show ?thesis by auto
qed

theorem priority_queue_refines_witness:
  "\<exists>s. wq_run prio_ops listed_notify {1}
        [CallEnq 0 (''a'', 3), Run 0, Run 0, CallEnq 0 (''b'', 9), Run 0, Run 0, CallDeq 1, Run 1]
        (wq_init listed_notify prio_unbounded) = Some s
     \<and> sys_hist s = [Pushed (''a'', 3), Pushed (''b'', 9), Popped ''b'']
     \<and> spec_run (\<lambda>ip xs. xs @ [ip]) first_highest (sys_hist s) [] = Some (prio_contents (sys_queue s))"
proof -
  let ?acts = "[CallEnq 0 (''a'', 3), Run 0, Run 0, CallEnq 0 (''b'', 9), Run 0, Run 0, CallDeq 1, Run 1]"
  obtain s where s: "wq_run prio_ops listed_notify {1} ?acts (wq_init listed_notify prio_unbounded) = Some s"
      "sys_hist s = [Pushed (''a'', 3), Pushed (''b'', 9), Popped ''b'']"
    by (simp add: wq_task_step_def wq_init_def wq_wake_def prio_ops_def listed_notify_def prio_unbounded_def
        prio_enqueue_pass_def prio_dequeue_pass_def prio_has_room_def prio_entry_def heap_pop_def heap_max_def
        entry_key_def less_heap_key_def)
  from priority_queue_refines [OF wq_run_reach [OF wq_reach.start s(1)]] s show ?thesis by auto
qed

end
