(* ===== verification/Persistent_Queue.thy ===== *)
theory Persistent_Queue
  imports Durable_Log Fifo_Queue Priority_Queue
begin

text \<open>
  \<^verbatim>\<open>crates/qaas-core/src/queue/persistent_fifo.rs\<close> and \<^verbatim>\<open>persistent_priority.rs\<close>: wrappers that log
  every enqueue and dequeue of an in-memory queue. The two files differ in the queue they wrap and
  in what an enqueue carries, so the wrapper is defined once over the passes of the queue, and the
  operations of the two files are its instances. The log is the record list of the theory
  \<open>Durable_Log\<close>; each append takes its outcome from the environment.
\<close>

section \<open>The wrapper\<close>

datatype 'x queue_record = Enqueue 'x | Dequeue

record ('q, 'x) logged_queue =
  lq_queue :: 'q
  lq_wal :: "'x queue_record list"

text \<open>
  Replay: \<^verbatim>\<open>enqueue\<close> of a recorded item and \<^verbatim>\<open>try_dequeue\<close>. \<^const>\<open>None\<close> stands for an \<^verbatim>\<open>enqueue\<close>
  that waits, which the unbounded queues used here never do.
\<close>

fun lq_apply :: "('q, 'x, 'y) wq_ops \<Rightarrow> 'x queue_record \<Rightarrow> 'q \<Rightarrow> 'q option" where
  "lq_apply qo (Enqueue x) q = enq_pass qo x q"
| "lq_apply qo Dequeue q = Some (case deq_pass qo q of None \<Rightarrow> q | Some (_, q') \<Rightarrow> q')"

fun lq_replay :: "('q, 'x, 'y) wq_ops \<Rightarrow> 'x queue_record list \<Rightarrow> 'q \<Rightarrow> 'q option" where
  "lq_replay qo [] q = Some q"
| "lq_replay qo (r # rs) q = (case lq_apply qo r q of None \<Rightarrow> None | Some q' \<Rightarrow> lq_replay qo rs q')"

text \<open>\<open>opened\<close> is what \<^verbatim>\<open>Wal::open\<close> returned.\<close>

definition lq_open ::
  "('q, 'x, 'y) wq_ops \<Rightarrow> 'q \<Rightarrow> 'x queue_record list io_result \<Rightarrow> ('q, 'x) logged_queue io_result option" where
  "lq_open qo q0 opened =
     (case opened of
        Inl e \<Rightarrow> Some (Inl e)
      | Inr records \<Rightarrow>
          map_option (\<lambda>q. Inr \<lparr> lq_queue = q, lq_wal = records \<rparr>) (lq_replay qo records q0))"

text \<open>The two atomic sections of \<^verbatim>\<open>enqueue\<close> and of \<^verbatim>\<open>dequeue\<close>, and the calls they make up.\<close>

definition lq_log ::
  "'x queue_record \<Rightarrow> log_outcome \<Rightarrow> ('q, 'x) logged_queue \<Rightarrow> unit io_result \<times> ('q, 'x) logged_queue" where
  "lq_log r out p = (case log_append r out (lq_wal p) of (res, wal) \<Rightarrow> (res, p \<lparr> lq_wal := wal \<rparr>))"

definition lq_push :: "('q, 'x, 'y) wq_ops \<Rightarrow> 'x \<Rightarrow> ('q, 'x) logged_queue \<Rightarrow> ('q, 'x) logged_queue option" where
  "lq_push qo x p = map_option (\<lambda>q. p \<lparr> lq_queue := q \<rparr>) (enq_pass qo x (lq_queue p))"

definition lq_pop :: "('q, 'x, 'y) wq_ops \<Rightarrow> ('q, 'x) logged_queue \<Rightarrow> ('y \<times> ('q, 'x) logged_queue) option" where
  "lq_pop qo p = map_option (\<lambda>(y, q). (y, p \<lparr> lq_queue := q \<rparr>)) (deq_pass qo (lq_queue p))"

definition lq_enqueue ::
  "('q, 'x, 'y) wq_ops \<Rightarrow> 'x \<Rightarrow> log_outcome \<Rightarrow> ('q, 'x) logged_queue
   \<Rightarrow> (unit io_result \<times> ('q, 'x) logged_queue) option" where
  "lq_enqueue qo x out p =
     (case lq_log (Enqueue x) out p of
        (Inl e, p) \<Rightarrow> Some (Inl e, p)
      | (Inr _, p) \<Rightarrow> map_option (\<lambda>p. (Inr (), p)) (lq_push qo x p))"

definition lq_dequeue ::
  "('q, 'x, 'y) wq_ops \<Rightarrow> log_outcome \<Rightarrow> ('q, 'x) logged_queue
   \<Rightarrow> ('y io_result \<times> ('q, 'x) logged_queue) option" where
  "lq_dequeue qo out p =
     (case lq_pop qo p of
        None \<Rightarrow> None
      | Some (y, p) \<Rightarrow>
          (case lq_log Dequeue out p of
             (Inl e, p) \<Rightarrow> Some (Inl e, p)
           | (Inr _, p) \<Rightarrow> Some (Inr y, p)))"

section \<open>The two files\<close>

definition pfifo_open :: "'a queue_record list io_result \<Rightarrow> ('a fifo_queue, 'a) logged_queue io_result option" where
  "pfifo_open = lq_open fifo_ops fifo_unbounded"

definition pfifo_len :: "('a fifo_queue, 'a) logged_queue \<Rightarrow> nat" where
  "pfifo_len p = fifo_len (lq_queue p)"

definition pfifo_is_empty :: "('a fifo_queue, 'a) logged_queue \<Rightarrow> bool" where
  "pfifo_is_empty p = fifo_is_empty (lq_queue p)"

definition pfifo_enqueue :: "'a \<Rightarrow> log_outcome \<Rightarrow> ('a fifo_queue, 'a) logged_queue
    \<Rightarrow> (unit io_result \<times> ('a fifo_queue, 'a) logged_queue) option" where
  "pfifo_enqueue = lq_enqueue fifo_ops"

definition pfifo_dequeue :: "log_outcome \<Rightarrow> ('a fifo_queue, 'a) logged_queue
    \<Rightarrow> ('a io_result \<times> ('a fifo_queue, 'a) logged_queue) option" where
  "pfifo_dequeue = lq_dequeue fifo_ops"

definition pprio_open :: "('a \<times> priority) queue_record list io_result
    \<Rightarrow> ('a priority_queue, 'a \<times> priority) logged_queue io_result option" where
  "pprio_open = lq_open prio_ops prio_unbounded"

definition pprio_len :: "('a priority_queue, 'a \<times> priority) logged_queue \<Rightarrow> nat" where
  "pprio_len p = prio_len (lq_queue p)"

definition pprio_is_empty :: "('a priority_queue, 'a \<times> priority) logged_queue \<Rightarrow> bool" where
  "pprio_is_empty p = prio_is_empty (lq_queue p)"

definition pprio_enqueue :: "'a \<Rightarrow> priority \<Rightarrow> log_outcome \<Rightarrow> ('a priority_queue, 'a \<times> priority) logged_queue
    \<Rightarrow> (unit io_result \<times> ('a priority_queue, 'a \<times> priority) logged_queue) option" where
  "pprio_enqueue item p = lq_enqueue prio_ops (item, p)"

definition pprio_dequeue :: "log_outcome \<Rightarrow> ('a priority_queue, 'a \<times> priority) logged_queue
    \<Rightarrow> ('a io_result \<times> ('a priority_queue, 'a \<times> priority) logged_queue) option" where
  "pprio_dequeue = lq_dequeue prio_ops"

section \<open>Recovery\<close>

text \<open>Completed calls in a row, with the outcome of the log write of each.\<close>

datatype 'x lq_call = CEnqueue 'x log_outcome | CDequeue log_outcome

fun lq_call_step :: "('q, 'x, 'y) wq_ops \<Rightarrow> 'x lq_call \<Rightarrow> ('q, 'x) logged_queue \<Rightarrow> ('q, 'x) logged_queue option" where
  "lq_call_step qo (CEnqueue x out) p = map_option snd (lq_enqueue qo x out p)"
| "lq_call_step qo (CDequeue out) p = map_option snd (lq_dequeue qo out p)"

fun lq_calls :: "('q, 'x, 'y) wq_ops \<Rightarrow> 'x lq_call list \<Rightarrow> ('q, 'x) logged_queue \<Rightarrow> ('q, 'x) logged_queue option" where
  "lq_calls qo [] p = Some p"
| "lq_calls qo (c # cs) p = (case lq_call_step qo c p of None \<Rightarrow> None | Some p' \<Rightarrow> lq_calls qo cs p')"

text \<open>
  The log writes whose result the caller can rely on: an enqueue that is acknowledged or leaves
  nothing, a dequeue that is acknowledged.
\<close>

fun lq_faithful :: "'x lq_call \<Rightarrow> bool" where
  "lq_faithful (CEnqueue x out) \<longleftrightarrow> (case out of Unsynced e \<Rightarrow> False | _ \<Rightarrow> True)"
| "lq_faithful (CDequeue out) \<longleftrightarrow> out = Logged"

lemma lq_replay_append:
  "lq_replay qo (rs @ rs') q = Option.bind (lq_replay qo rs q) (lq_replay qo rs')"
  by (induction rs arbitrary: q) (auto split: option.splits)

text \<open>
  What the wrapper relies on: the queue it creates has room for every push, now and later.
\<close>

locale roomy_queue =
  fixes qo :: "('q, 'x, 'y) wq_ops" and roomy :: "'q \<Rightarrow> bool" and q0 :: 'q
  assumes start_roomy: "roomy q0"
    and enq_roomy: "roomy q \<Longrightarrow> \<exists>q'. enq_pass qo x q = Some q' \<and> roomy q'"
    and deq_roomy: "roomy q \<Longrightarrow> deq_pass qo q = Some (y, q') \<Longrightarrow> roomy q'"
begin

lemma replay_total: "roomy q \<Longrightarrow> \<exists>q'. lq_replay qo rs q = Some q' \<and> roomy q'"
proof (induction rs arbitrary: q)
  case (Cons r rs)
  have "\<exists>q'. lq_apply qo r q = Some q' \<and> roomy q'"
    using enq_roomy [OF Cons.prems] deq_roomy [OF Cons.prems] Cons.prems
    by (cases r) (auto split: option.splits)
  with Cons.IH show ?case by (auto split: option.splits)
qed simp

definition current :: "('q, 'x) logged_queue \<Rightarrow> bool" where
  "current p \<longleftrightarrow> roomy (lq_queue p) \<and> lq_replay qo (lq_wal p) q0 = Some (lq_queue p)"

lemma open_current:
  "\<exists>p. lq_open qo q0 (Inr records) = Some (Inr p) \<and> current p \<and> lq_wal p = records"
  using replay_total [OF start_roomy, of records] by (auto simp: lq_open_def current_def)

lemma call_current:
  assumes "current p" and "lq_faithful c" and "lq_call_step qo c p = Some p'"
  shows "current p'"
proof (cases c)
  case (CEnqueue x out)
  then show ?thesis
    using assms enq_roomy [of "lq_queue p" x]
    by (cases out)
      (auto simp: lq_enqueue_def lq_log_def lq_push_def current_def lq_replay_append)
next
  case (CDequeue out)
  then show ?thesis
    using assms deq_roomy [of "lq_queue p"]
    by (auto simp: lq_dequeue_def lq_log_def lq_pop_def current_def lq_replay_append split: option.splits)
qed

lemma calls_current: "current p \<Longrightarrow> \<forall>c\<in>set cs. lq_faithful c \<Longrightarrow> lq_calls qo cs p = Some p' \<Longrightarrow> current p'"
  by (induction cs arbitrary: p) (auto split: option.splits dest: call_current)

lemma enqueue_completes: "current p \<Longrightarrow> lq_enqueue qo x out p \<noteq> None"
  using enq_roomy [of "lq_queue p" x]
  by (cases out) (auto simp: lq_enqueue_def lq_log_def lq_push_def current_def)

lemma recovers:
  assumes "lq_open qo q0 (Inr records) = Some (Inr p)" and "\<forall>c\<in>set cs. lq_faithful c"
    and "lq_calls qo cs p = Some p'"
  shows "lq_open qo q0 (Inr (lq_wal p')) = Some (Inr p')"
proof -
  have "current p" using open_current [of records] assms(1) by simp
  then have "current p'" using assms(2,3) by (rule calls_current)
  then show ?thesis by (simp add: lq_open_def current_def)
qed

end

interpretation rf: roomy_queue fifo_ops "\<lambda>q. fifo_capacity q = None" fifo_unbounded
  by unfold_locales
    (auto simp: fifo_ops_def fifo_unbounded_def fifo_enqueue_pass_def fifo_has_room_def
      dest: fifo_dequeue_items)

interpretation rp: roomy_queue prio_ops "\<lambda>q. prio_capacity q = None" prio_unbounded
  by unfold_locales
    (auto simp: prio_ops_def prio_unbounded_def prio_enqueue_pass_def prio_has_room_def prio_entry_def
      prio_dequeue_pass_def split: option.splits)



lemmas lq_eval = lq_open_def lq_enqueue_def lq_dequeue_def lq_log_def lq_push_def lq_pop_def
  fifo_ops_def fifo_unbounded_def fifo_enqueue_pass_def fifo_dequeue_pass_def fifo_has_room_def
  pfifo_open_def pfifo_enqueue_def pfifo_dequeue_def


text \<open>
  A \<^verbatim>\<open>PersistentPriorityQueue\<close> recovers exactly, priorities, tie-breaking sequence numbers and the
  order of equal priorities included, under the same conditions.
\<close>

lemma persistent_priority_recovers:
  assumes "\<forall>c\<in>set cs. lq_faithful c"
  shows "\<exists>p. pprio_open (Inr records) = Some (Inr p) \<and>
    (\<forall>p'. lq_calls prio_ops cs p = Some p' \<longrightarrow>
       pprio_open (Inr (lq_wal p')) = Some (Inr p') \<and> pprio_enqueue item pr out p' \<noteq> None)"
proof -
  obtain p where p: "lq_open prio_ops prio_unbounded (Inr records) = Some (Inr p)" "rp.current p"
    using rp.open_current by blast
  have "pprio_open (Inr (lq_wal p')) = Some (Inr p') \<and> pprio_enqueue item pr out p' \<noteq> None"
    if "lq_calls prio_ops cs p = Some p'" for p'
    using rp.recovers [OF p(1) assms that] rp.calls_current [OF p(2) assms that] rp.enqueue_completes
    by (auto simp: pprio_open_def pprio_enqueue_def)
  with p(1) show ?thesis by (auto simp: pprio_open_def)
qed

lemma persistent_priority_recovers_witness:
  "\<exists>p p'. pprio_open (Inr [Enqueue (True, 4)]) = Some (Inr p) \<and>
     lq_calls prio_ops [CEnqueue (False, 9) Logged, CDequeue Logged] p = Some p' \<and>
     pprio_open (Inr (lq_wal p')) = Some (Inr p')"
proof -
  let ?cs = "[CEnqueue (False, 9) Logged, CDequeue Logged]"
  obtain p where p: "pprio_open (Inr [Enqueue (True, 4)]) = Some (Inr p)"
      "\<forall>p'. lq_calls prio_ops ?cs p = Some p' \<longrightarrow>
        pprio_open (Inr (lq_wal p')) = Some (Inr p') \<and> pprio_enqueue True 0 Logged p' \<noteq> None"
    using persistent_priority_recovers [of ?cs "[Enqueue (True, 4)]" True 0 Logged] by auto
  then have "lq_calls prio_ops ?cs p \<noteq> None"
    by (auto simp: lq_eval pprio_open_def prio_ops_def prio_unbounded_def prio_enqueue_pass_def prio_has_room_def
        prio_entry_def prio_dequeue_pass_def heap_pop_def heap_max_def entry_key_def less_heap_key_def)
  with p show ?thesis by auto
qed

section \<open>Where recovery is not exact\<close>

text \<open>
  A failed dequeue can lose its item for good. A queue holds \<open>a\<close> and \<open>b\<close>; the log write of the
  first \<^verbatim>\<open>dequeue\<close> fails, so the call returns an error and \<open>a\<close> is gone from memory; a second
  \<^verbatim>\<open>dequeue\<close> returns \<open>b\<close> and is acknowledged. Its record makes the replay drop the front item, which
  is \<open>a\<close>: after a restart the queue holds \<open>b\<close>, already delivered, and \<open>a\<close>, never delivered, is gone.
\<close>

lemma persistent_fifo_failed_dequeue_lost:
  "\<exists>p p1 p2. pfifo_open (Inr [Enqueue a, Enqueue b]) = Some (Inr p) \<and>
     pfifo_dequeue (NotLogged e) p = Some (Inl e, p1) \<and>
     pfifo_dequeue Logged p1 = Some (Inr b, p2) \<and>
     (\<exists>p3. pfifo_open (Inr (lq_wal p2)) = Some (Inr p3) \<and> fifo_items (lq_queue p3) = [b])"
  by (simp add: lq_eval)

text \<open>
  Two concurrent enqueues can lose an item. The log write of \<open>a\<close> comes before that of \<open>b\<close>, the
  pushes into the queue in memory happen in the other order; all calls are acknowledged. A
  \<^verbatim>\<open>dequeue\<close> then returns \<open>b\<close>, and its record makes the replay drop \<open>a\<close>: after a restart the queue
  holds \<open>b\<close> again, and \<open>a\<close> was never delivered to anyone.
\<close>

lemma persistent_fifo_concurrent_enqueue_lost:
  "\<exists>p p1 p2 p3 p4 p5. pfifo_open (Inr []) = Some (Inr p) \<and>
     lq_log (Enqueue a) Logged p = (Inr (), p1) \<and> lq_log (Enqueue b) Logged p1 = (Inr (), p2) \<and>
     lq_push fifo_ops b p2 = Some p3 \<and> lq_push fifo_ops a p3 = Some p4 \<and>
     pfifo_dequeue Logged p4 = Some (Inr b, p5) \<and>
     (\<exists>p6. pfifo_open (Inr (lq_wal p5)) = Some (Inr p6) \<and> fifo_items (lq_queue p6) = [b])"
  by (simp add: lq_eval)

end
