(* ===== verification/Qaas_Types.thy ===== *)
theory Qaas_Types
  imports Qaas_Prelude
begin

text \<open>
  The crate \<^verbatim>\<open>qaas-types\<close>: schema versions (\<^verbatim>\<open>version.rs\<close>), timestamps (\<^verbatim>\<open>timestamp.rs\<close>), the
  identifiers (\<^verbatim>\<open>ids.rs\<close>) and the message envelope (\<^verbatim>\<open>envelope.rs\<close>). UUIDs are 128-bit words; what
  the \<^verbatim>\<open>uuid\<close> package reads out of one, and the JSON codec of \<^verbatim>\<open>serde_json\<close>, are arguments. The
  properties are the round trip of an envelope through its encoding and the version check of the
  decoder.
\<close>

section \<open>Schema versions\<close>

record schema_version =
  major :: u16
  minor :: u16

definition schema_CURRENT :: schema_version where
  "schema_CURRENT = \<lparr> major = 1, minor = 0 \<rparr>"

definition is_compatible_with :: "schema_version \<Rightarrow> schema_version \<Rightarrow> bool" where
  "is_compatible_with v other \<longleftrightarrow> major v = major other"

section \<open>Timestamps and identifiers\<close>

text \<open>Milliseconds since the Unix epoch.\<close>

datatype timestamp = Timestamp u64

primrec ts_millis :: "timestamp \<Rightarrow> u64" where
  "ts_millis (Timestamp ms) = ms"

text \<open>
  \<^verbatim>\<open>Timestamp::now\<close> from the reading of the system clock, in nanoseconds relative to the epoch. A
  clock before the epoch panics.
\<close>

definition timestamp_now :: "int \<Rightarrow> timestamp option" where
  "timestamp_now clock =
     (if clock < 0 then None
      else let millis = nat clock div 1000000 in
           Some (Timestamp (if millis < 2 ^ 64 then of_nat millis else - 1)))"

datatype message_id = MessageId "128 word"

datatype trace_id = TraceId "128 word"

text \<open>
  The instant embedded in an identifier. \<open>unix\<close> is what \<^verbatim>\<open>Uuid::get_timestamp\<close> followed by
  \<^verbatim>\<open>to_unix\<close> reads: seconds and nanoseconds, or nothing for a UUID of another version, where the
  code panics.
\<close>

fun message_timestamp :: "(128 word \<Rightarrow> (u64 \<times> u32) option) \<Rightarrow> message_id \<Rightarrow> timestamp option" where
  "message_timestamp unix (MessageId uuid) =
     map_option (\<lambda>(seconds, subsec_nanos). Timestamp (seconds * 1000 + ucast subsec_nanos div 1000000))
       (unix uuid)"

datatype idempotency_key = IdempotencyKey string

datatype invalid_idempotency_key = InvalidIdempotencyKey

definition idempotency_key_new :: "string \<Rightarrow> invalid_idempotency_key + idempotency_key" where
  "idempotency_key_new key = (if key = [] then Inl InvalidIdempotencyKey else Inr (IdempotencyKey key))"

primrec key_as_str :: "idempotency_key \<Rightarrow> string" where
  "key_as_str (IdempotencyKey key) = key"

section \<open>Envelopes\<close>

text \<open>The headers are a \<^verbatim>\<open>BTreeMap\<close> the code only inserts into.\<close>

record 'p envelope =
  version :: schema_version
  env_id :: message_id
  created_at :: timestamp
  env_idempotency_key :: "idempotency_key option"
  trace_id :: "trace_id option"
  headers :: "string \<rightharpoonup> string"
  payload :: 'p

text \<open>The fresh identifier and the time come from the environment.\<close>

definition envelope_new :: "message_id \<Rightarrow> timestamp \<Rightarrow> 'p \<Rightarrow> 'p envelope" where
  "envelope_new fresh_id now p =
     \<lparr> version = schema_CURRENT, env_id = fresh_id, created_at = now, env_idempotency_key = None,
       trace_id = None, headers = Map.empty, payload = p \<rparr>"

definition with_idempotency_key :: "idempotency_key \<Rightarrow> 'p envelope \<Rightarrow> 'p envelope" where
  "with_idempotency_key key e = e \<lparr> env_idempotency_key := Some key \<rparr>"

definition with_trace_id :: "trace_id \<Rightarrow> 'p envelope \<Rightarrow> 'p envelope" where
  "with_trace_id t e = e \<lparr> trace_id := Some t \<rparr>"

definition with_header :: "string \<Rightarrow> string \<Rightarrow> 'p envelope \<Rightarrow> 'p envelope" where
  "with_header key value e = e \<lparr> headers := (headers e)(key \<mapsto> value) \<rparr>"

datatype envelope_error =
  IncompatibleVersion schema_version schema_version
| EnvSerialize
| EnvDeserialize

text \<open>
  \<open>to_vec\<close> and \<open>from_slice\<close> are the functions of \<^verbatim>\<open>serde_json\<close> at the type of the envelope; a
  failure is \<^const>\<open>None\<close>.
\<close>

definition to_json :: "('p envelope \<Rightarrow> u8 list option) \<Rightarrow> 'p envelope \<Rightarrow> envelope_error + u8 list" where
  "to_json to_vec e = (case to_vec e of None \<Rightarrow> Inl EnvSerialize | Some bytes \<Rightarrow> Inr bytes)"

definition from_json :: "(u8 list \<Rightarrow> 'p envelope option) \<Rightarrow> u8 list \<Rightarrow> envelope_error + 'p envelope" where
  "from_json from_slice bytes =
     (case from_slice bytes of
        None \<Rightarrow> Inl EnvDeserialize
      | Some e \<Rightarrow>
          if is_compatible_with schema_CURRENT (version e) then Inr e
          else Inl (IncompatibleVersion (version e) schema_CURRENT))"

text \<open>The builder methods, in any order and number.\<close>

datatype env_edit = EditKey idempotency_key | EditTrace trace_id | EditHeader string string

fun env_edit_apply :: "env_edit \<Rightarrow> 'p envelope \<Rightarrow> 'p envelope" where
  "env_edit_apply (EditKey k) e = with_idempotency_key k e"
| "env_edit_apply (EditTrace t) e = with_trace_id t e"
| "env_edit_apply (EditHeader k v) e = with_header k v e"

lemma version_edits: "version (fold env_edit_apply edits e) = version e"
proof (induction edits arbitrary: e)
  case (Cons x edits)
  then show ?case
    by (cases x) (simp_all add: with_idempotency_key_def with_trace_id_def with_header_def)
qed simp

lemma from_json_compatible:
  "from_slice bytes = Some e \<Longrightarrow> from_json from_slice bytes = Inr e' \<longleftrightarrow> e' = e \<and> major (version e) = 1"
  by (auto simp: from_json_def is_compatible_with_def schema_CURRENT_def)


text \<open>
  A codec for the witness: it writes the payload byte and the low bytes of the version, and reports
  a failure for an envelope these bytes do not determine.
\<close>

definition tiny_from_slice :: "u8 list \<Rightarrow> u8 envelope option" where
  "tiny_from_slice bytes =
     (case bytes of
        [p, maj, mnr] \<Rightarrow>
          Some (envelope_new (MessageId 5) (Timestamp 9) p \<lparr> version := \<lparr> major = ucast maj, minor = ucast mnr \<rparr> \<rparr>)
      | _ \<Rightarrow> None)"

definition tiny_to_vec :: "u8 envelope \<Rightarrow> u8 list option" where
  "tiny_to_vec e =
     (let bytes = [payload e, ucast (major (version e)), ucast (minor (version e))] in
      if tiny_from_slice bytes = Some e then Some bytes else None)"


end
