(* ===== verification/Dead_Letter.thy ===== *)
theory Dead_Letter
  imports Durable_Log Qaas_Types
begin

text \<open>
  \<^verbatim>\<open>crates/qaas-core/src/dead_letter.rs\<close>: the durable set of dead letters. Payloads and checkpoint
  values are type variables. The entries are a hash map the code iterates over; every log write
  takes its outcome from the environment. The theorems relate the entries in memory to the ones a
  restart rebuilds: equal as long as no write has an ambiguous outcome, and never fewer.
\<close>

section \<open>Data\<close>

datatype triage_classification = Transient | Permanent

record triage_verdict =
  tv_classification :: triage_classification
  tv_reason :: string
  tv_triaged_at :: timestamp

record ('a, 'v) dead_letter =
  dl_id :: message_id
  dl_idempotency_key :: "idempotency_key option"
  dl_item :: 'a
  dl_delivery_count :: u32
  dl_last_error :: "string option"
  dl_dead_lettered_at :: timestamp
  dl_checkpoint :: "'v option"
  dl_triage :: "triage_verdict option"

datatype ('a, 'v) dlq_wal_record =
  DlqDeadLetter "('a, 'v) dead_letter"
| DlqRemove message_id
| DlqAnnotate message_id triage_verdict

record ('a, 'v) dlq =
  dlq_entries :: "(message_id, ('a, 'v) dead_letter) hash_map"
  dlq_wal :: "('a, 'v) dlq_wal_record list"

section \<open>Operations\<close>

text \<open>One step of the replay in \<^verbatim>\<open>open\<close>.\<close>

fun dlq_apply ::
  "('a, 'v) dlq_wal_record \<Rightarrow> (message_id, ('a, 'v) dead_letter) hash_map
   \<Rightarrow> (message_id, ('a, 'v) dead_letter) hash_map" where
  "dlq_apply (DlqDeadLetter d) es = AList.update (dl_id d) d es"
| "dlq_apply (DlqRemove i) es = AList.delete i es"
| "dlq_apply (DlqAnnotate i v) es =
     (case map_of es i of None \<Rightarrow> es | Some d \<Rightarrow> AList.update i (d \<lparr> dl_triage := Some v \<rparr>) es)"

definition dlq_replay :: "('a, 'v) dlq_wal_record list \<Rightarrow> (message_id, ('a, 'v) dead_letter) hash_map" where
  "dlq_replay records = fold dlq_apply records []"

definition dlq_open :: "('a, 'v) dlq_wal_record list io_result \<Rightarrow> ('a, 'v) dlq io_result" where
  "dlq_open opened =
     (case opened of
        Inl e \<Rightarrow> Inl e
      | Inr records \<Rightarrow> Inr \<lparr> dlq_entries = dlq_replay records, dlq_wal = records \<rparr>)"

definition dlq_log ::
  "('a, 'v) dlq_wal_record \<Rightarrow> log_outcome \<Rightarrow> ('a, 'v) dlq \<Rightarrow> unit io_result \<times> ('a, 'v) dlq" where
  "dlq_log r out q = (case log_append r out (dlq_wal q) of (res, wal) \<Rightarrow> (res, q \<lparr> dlq_wal := wal \<rparr>))"

definition dlq_record ::
  "('a, 'v) dead_letter \<Rightarrow> log_outcome \<Rightarrow> ('a, 'v) dlq \<Rightarrow> unit io_result \<times> ('a, 'v) dlq" where
  "dlq_record d out q =
     (case dlq_log (DlqDeadLetter d) out q of
        (Inl e, q) \<Rightarrow> (Inl e, q)
      | (Inr _, q) \<Rightarrow> (Inr (), q \<lparr> dlq_entries := AList.update (dl_id d) d (dlq_entries q) \<rparr>))"

definition dlq_list :: "message_id iter_rank \<Rightarrow> ('a, 'v) dlq \<Rightarrow> ('a, 'v) dead_letter list" where
  "dlq_list rank q = map snd (hm_iter rank (dlq_entries q))"

definition dlq_ids_and_keys ::
  "message_id iter_rank \<Rightarrow> ('a, 'v) dlq \<Rightarrow> (message_id \<times> idempotency_key option) list" where
  "dlq_ids_and_keys rank q =
     map (\<lambda>(_, d). (dl_id d, dl_idempotency_key d)) (hm_iter rank (dlq_entries q))"

definition dlq_len :: "('a, 'v) dlq \<Rightarrow> nat" where
  "dlq_len q = length (dlq_entries q)"

definition dlq_is_empty :: "('a, 'v) dlq \<Rightarrow> bool" where
  "dlq_is_empty q \<longleftrightarrow> dlq_entries q = []"

definition dlq_take ::
  "message_id \<Rightarrow> log_outcome \<Rightarrow> ('a, 'v) dlq \<Rightarrow> ('a, 'v) dead_letter option io_result \<times> ('a, 'v) dlq" where
  "dlq_take i out q =
     (case map_of (dlq_entries q) i of
        None \<Rightarrow> (Inr None, q)
      | Some d \<Rightarrow>
          (case dlq_log (DlqRemove i) out (q \<lparr> dlq_entries := AList.delete i (dlq_entries q) \<rparr>) of
             (Inl e, q) \<Rightarrow> (Inl e, q)
           | (Inr _, q) \<Rightarrow> (Inr (Some d), q)))"

text \<open>The part of \<^verbatim>\<open>annotate\<close> after the log write, under the second lock.\<close>

definition dlq_annotate_entry :: "message_id \<Rightarrow> triage_verdict \<Rightarrow> ('a, 'v) dlq \<Rightarrow> bool \<times> ('a, 'v) dlq" where
  "dlq_annotate_entry i v q =
     (case map_of (dlq_entries q) i of
        None \<Rightarrow> (False, q)
      | Some d \<Rightarrow> (True, q \<lparr> dlq_entries := AList.update i (d \<lparr> dl_triage := Some v \<rparr>) (dlq_entries q) \<rparr>))"

definition dlq_annotate ::
  "message_id \<Rightarrow> triage_verdict \<Rightarrow> log_outcome \<Rightarrow> ('a, 'v) dlq \<Rightarrow> bool io_result \<times> ('a, 'v) dlq" where
  "dlq_annotate i v out q =
     (if map_of (dlq_entries q) i = None then (Inr False, q)
      else case dlq_log (DlqAnnotate i v) out q of
             (Inl e, q) \<Rightarrow> (Inl e, q)
           | (Inr _, q) \<Rightarrow> (case dlq_annotate_entry i v q of (b, q) \<Rightarrow> (Inr b, q)))"

section \<open>Invariant\<close>

text \<open>Every entry is stored under its own identifier.\<close>

definition dlq_wf :: "(message_id, ('a, 'v) dead_letter) hash_map \<Rightarrow> bool" where
  "dlq_wf es \<longleftrightarrow> hm_wf es \<and> (\<forall>i d. map_of es i = Some d \<longrightarrow> dl_id d = i)"

lemma dlq_wf_Nil [simp]: "dlq_wf []"
  by (simp add: dlq_wf_def)

lemma dlq_wf_update: "dlq_wf es \<Longrightarrow> dl_id d = i \<Longrightarrow> dlq_wf (AList.update i d es)"
  by (simp add: dlq_wf_def)

lemma dlq_wf_delete: "dlq_wf es \<Longrightarrow> dlq_wf (AList.delete i es)"
  by (simp add: dlq_wf_def)

lemma dlq_wf_apply: "dlq_wf es \<Longrightarrow> dlq_wf (dlq_apply r es)"
  by (cases r) (auto simp: dlq_wf_def split: option.splits)

lemma dlq_wf_replay: "dlq_wf (dlq_replay records)"
proof -
  have "dlq_wf es \<Longrightarrow> dlq_wf (fold dlq_apply records es)" for es
    by (induction records arbitrary: es) (auto intro: dlq_wf_apply)
  then show ?thesis by (simp add: dlq_replay_def)
qed

lemma dlq_replay_snoc: "dlq_replay (rs @ [r]) = dlq_apply r (dlq_replay rs)"
  by (simp add: dlq_replay_def)

section \<open>Recovery\<close>

datatype ('a, 'v) dlq_call =
  CallRecord "('a, 'v) dead_letter" log_outcome
| CallTake message_id log_outcome
| CallAnnotate message_id triage_verdict log_outcome

fun dlq_call_step :: "('a, 'v) dlq_call \<Rightarrow> ('a, 'v) dlq \<Rightarrow> ('a, 'v) dlq" where
  "dlq_call_step (CallRecord d out) q = snd (dlq_record d out q)"
| "dlq_call_step (CallTake i out) q = snd (dlq_take i out q)"
| "dlq_call_step (CallAnnotate i v out) q = snd (dlq_annotate i v out q)"

fun dlq_call_outcome :: "('a, 'v) dlq_call \<Rightarrow> log_outcome" where
  "dlq_call_outcome (CallRecord d out) = out"
| "dlq_call_outcome (CallTake i out) = out"
| "dlq_call_outcome (CallAnnotate i v out) = out"

text \<open>
  What each call does to the entries in memory and to those a restart would rebuild.
\<close>

lemma dlq_call_step_cases:
  assumes "dlq_call_step c q = q'"
  obtains (none) "q' = q"
  | (both) r where "dlq_wal q' = dlq_wal q @ [r]" "dlq_entries q' = dlq_apply r (dlq_entries q)"
      "dlq_call_outcome c = Logged"
  | (log_only) r where "dlq_wal q' = dlq_wal q @ [r]" "dlq_entries q' = dlq_entries q"
      "\<exists>e. dlq_call_outcome c = Unsynced e" "\<forall>i. r \<noteq> DlqRemove i"
  | (taken) i where "dlq_wal q' \<in> {dlq_wal q, dlq_wal q @ [DlqRemove i]}"
      "dlq_entries q' = AList.delete i (dlq_entries q)" "\<exists>out. c = CallTake i out \<and> out \<noteq> Logged"
proof (cases c)
  case (CallRecord d out)
  with assms that show thesis
    by (cases out) (auto simp: dlq_record_def dlq_log_def)
next
  case (CallTake i out)
  with assms that show thesis
    by (cases out) (auto simp: dlq_take_def dlq_log_def split: option.splits)
next
  case (CallAnnotate i v out)
  show thesis
  proof (cases "map_of (dlq_entries q) i")
    case None
    with assms CallAnnotate none show thesis by (simp add: dlq_annotate_def)
  next
    case (Some d)
    with assms CallAnnotate that show thesis
      by (cases out) (auto simp: dlq_annotate_def dlq_log_def dlq_annotate_entry_def)
  qed
qed


text \<open>The log writes whose result the caller can rely on; a removal has to be acknowledged.\<close>

fun dlq_faithful :: "('a, 'v) dlq_call \<Rightarrow> bool" where
  "dlq_faithful (CallTake i out) \<longleftrightarrow> out = Logged"
| "dlq_faithful c \<longleftrightarrow> (case dlq_call_outcome c of Unsynced e \<Rightarrow> False | _ \<Rightarrow> True)"

interpretation ds: replayed_store dlq_apply "[]" dlq_entries dlq_wal dlq_call_step dlq_faithful
proof unfold_locales
  fix c :: "('a, 'v) dlq_call" and q
  assume faithful: "dlq_faithful c"
  show "(dlq_entries (dlq_call_step c q) = dlq_entries q \<and> dlq_wal (dlq_call_step c q) = dlq_wal q) \<or>
    (\<exists>r. dlq_wal (dlq_call_step c q) = dlq_wal q @ [r] \<and>
      dlq_entries (dlq_call_step c q) = dlq_apply r (dlq_entries q))"
  proof (cases rule: dlq_call_step_cases [of c q, OF refl, case_names none both log_only taken])
    case (log_only r)
    then show ?thesis using faithful by (cases c) auto
  qed (use faithful in auto)
qed

text \<open>
  The dead-letter queue recovers exactly. Opened from any log and used by any sequence of
  \<^verbatim>\<open>record\<close>, \<^verbatim>\<open>take\<close> and \<^verbatim>\<open>annotate\<close> calls whose log writes are acknowledged or leave nothing (a
  \<^verbatim>\<open>take\<close>: acknowledged), a restart rebuilds the same dead letters, verdicts included, each under
  its own identifier.
\<close>

lemma dlq_recovers:
  assumes "dlq_open (Inr records) = Inr q" and "\<forall>c\<in>set cs. dlq_faithful c"
  shows "dlq_open (Inr (dlq_wal (fold dlq_call_step cs q))) = Inr (fold dlq_call_step cs q) \<and>
    dlq_wf (dlq_entries (fold dlq_call_step cs q))"
proof -
  have "dlq_entries q = fold dlq_apply (dlq_wal q) []"
    using assms(1) by (auto simp: dlq_open_def dlq_replay_def)
  then have "dlq_entries (fold dlq_call_step cs q) = dlq_replay (dlq_wal (fold dlq_call_step cs q))"
    using ds.calls_rebuild [OF _ assms(2)] by (simp add: dlq_replay_def)
  then show ?thesis by (simp add: dlq_open_def dlq_wf_replay)
qed

definition sample_letter :: "(u8, u8) dead_letter" where
  "sample_letter =
     \<lparr> dl_id = MessageId 1, dl_idempotency_key = None, dl_item = 7, dl_delivery_count = 3,
       dl_last_error = Some ''boom'', dl_dead_lettered_at = Timestamp 9, dl_checkpoint = None, dl_triage = None \<rparr>"

definition sample_verdict :: triage_verdict where
  "sample_verdict = \<lparr> tv_classification = Permanent, tv_reason = ''bad input'', tv_triaged_at = Timestamp 10 \<rparr>"

lemmas dlq_eval = dlq_open_def dlq_replay_def dlq_record_def dlq_take_def dlq_annotate_def
  dlq_annotate_entry_def dlq_log_def sample_letter_def sample_verdict_def

lemma dlq_recovers_witness:
  "\<exists>q q'. dlq_open (Inr [DlqDeadLetter sample_letter]) = Inr q \<and>
     fold dlq_call_step [CallAnnotate (MessageId 1) sample_verdict Logged, CallRecord sample_letter (NotLogged OtherIo)] q = q' \<and>
     map_option dl_triage (map_of (dlq_entries q') (MessageId 1)) = Some (Some sample_verdict) \<and>
     dlq_open (Inr (dlq_wal q')) = Inr q'"
proof -
  let ?cs = "[CallAnnotate (MessageId 1) sample_verdict Logged, CallRecord sample_letter (NotLogged OtherIo)]"
  obtain q where q: "dlq_open (Inr [DlqDeadLetter sample_letter]) = Inr q"
    by (simp add: dlq_open_def)
  then have "map_option dl_triage (map_of (dlq_entries (fold dlq_call_step ?cs q)) (MessageId 1)) = Some (Some sample_verdict)"
    by (auto simp: dlq_eval)
  with dlq_recovers [OF q, of ?cs] q show ?thesis by auto
qed

lemma dom_dlq_apply:
  "dom (map_of (dlq_apply r es)) =
     (case r of DlqDeadLetter d \<Rightarrow> insert (dl_id d) (dom (map_of es))
      | DlqRemove i \<Rightarrow> dom (map_of es) - {i} | DlqAnnotate i v \<Rightarrow> dom (map_of es))"
  by (cases r) (auto split: option.splits)

lemma dlq_call_covered:
  assumes "dom (map_of (dlq_entries q)) \<subseteq> dom (map_of (dlq_replay (dlq_wal q)))"
  shows "dom (map_of (dlq_entries (dlq_call_step c q))) \<subseteq> dom (map_of (dlq_replay (dlq_wal (dlq_call_step c q))))"
proof (cases rule: dlq_call_step_cases [of c q, OF refl, case_names none both log_only taken])
  case none
  then show ?thesis using assms by simp
next
  case (both r)
  then show ?thesis
    using assms by (simp only: dlq_replay_snoc dom_dlq_apply) (auto split: dlq_wal_record.splits)
next
  case (log_only r)
  then show ?thesis
    using assms by (simp only: dlq_replay_snoc dom_dlq_apply) (auto split: dlq_wal_record.splits)
next
  case (taken i)
  then have "dom (map_of (dlq_entries (dlq_call_step c q))) = dom (map_of (dlq_entries q)) - {i}"
    by (simp del: dlq_call_step.simps)
  also have "\<dots> \<subseteq> dom (map_of (dlq_replay (dlq_wal q))) - {i}"
    using assms by (rule Diff_mono) simp
  also have "\<dots> \<subseteq> dom (map_of (dlq_replay (dlq_wal (dlq_call_step c q))))"
    using taken(1) by (auto simp: dlq_replay_snoc dom_dlq_apply simp del: dlq_call_step.simps)
  finally show ?thesis .
qed

text \<open>
  Whatever the outcomes of the log writes are, failed and half-acknowledged ones included, no
  dead letter that the running process still lists is missing after a restart: a failure can bring
  a removed dead letter back, but never lose one.
\<close>

lemma dlq_never_loses:
  assumes "dlq_open (Inr records) = Inr q" and "map_of (dlq_entries (fold dlq_call_step cs q)) i = Some d"
  shows "\<exists>q' d'. dlq_open (Inr (dlq_wal (fold dlq_call_step cs q))) = Inr q' \<and> map_of (dlq_entries q') i = Some d'"
proof -
  have "dom (map_of (dlq_entries q)) \<subseteq> dom (map_of (dlq_replay (dlq_wal q)))"
    using assms(1) by (auto simp: dlq_open_def)
  then have "dom (map_of (dlq_entries (fold dlq_call_step cs q)))
      \<subseteq> dom (map_of (dlq_replay (dlq_wal (fold dlq_call_step cs q))))"
  proof (induction cs arbitrary: q)
    case (Cons c cs)
    from Cons.IH [OF dlq_call_covered [OF Cons.prems]] show ?case by simp
  qed simp
  with assms(2) show ?thesis by (auto simp: dlq_open_def)
qed

lemma dlq_never_loses_witness:
  "\<exists>q q' d'. dlq_open (Inr [DlqDeadLetter sample_letter]) = Inr q \<and>
     dlq_open (Inr (dlq_wal (fold dlq_call_step [CallAnnotate (MessageId 1) sample_verdict (Unsynced OtherIo)] q))) = Inr q' \<and>
     map_of (dlq_entries q') (MessageId 1) = Some d'"
proof -
  let ?cs = "[CallAnnotate (MessageId 1) sample_verdict (Unsynced OtherIo)]"
  obtain q where q: "dlq_open (Inr [DlqDeadLetter sample_letter]) = Inr q"
    by (simp add: dlq_open_def)
  then have "map_of (dlq_entries (fold dlq_call_step ?cs q)) (MessageId 1) = Some sample_letter"
    by (auto simp: dlq_eval)
  from dlq_never_loses [OF q this] q show ?thesis by auto
qed

end
