(* ===== verification/F64.thy ===== *)
theory F64
  imports Complex_Main "HOL-Library.Log_Nat" Qaas_Prelude
begin

text \<open>
  The floating-point arithmetic of the sources (\<^verbatim>\<open>f64\<close>): IEEE 754 binary64 with rounding to
  nearest, ties to even. A finite value is the rational number it denotes; the sign of zero is not
  kept (no operation of the program observes it). Every operation computes the exact rational
  result and rounds it, so the definitions are executable. The main lemma is that rounding is
  monotone; the bounds the components need follow from it.
\<close>

section \<open>Rounding to an integer, ties to even\<close>

definition rne :: "rat \<Rightarrow> int" where
  "rne r =
     (let f = \<lfloor>r\<rfloor>; d = r - of_int f in
      if d < 1 / 2 then f else if 1 / 2 < d then f + 1 else if even f then f else f + 1)"

lemma rne_ge_floor: "\<lfloor>r\<rfloor> \<le> rne r"
  by (simp add: rne_def Let_def)

lemma rne_le_floor_Suc: "rne r \<le> \<lfloor>r\<rfloor> + 1"
  by (simp add: rne_def Let_def)

lemma rne_of_int [simp]: "rne (of_int i) = i"
  by (simp add: rne_def)

lemma rne_mono: "r \<le> s \<Longrightarrow> rne r \<le> rne s"
proof -
  assume rs: "r \<le> s"
  then have "\<lfloor>r\<rfloor> \<le> \<lfloor>s\<rfloor>" by (rule floor_mono)
  then consider "\<lfloor>r\<rfloor> < \<lfloor>s\<rfloor>" | "\<lfloor>r\<rfloor> = \<lfloor>s\<rfloor>" by linarith
  then show ?thesis
  proof cases
    case 1
    then show ?thesis
      using rne_le_floor_Suc [of r] rne_ge_floor [of s] by linarith
  next
    case 2
    with rs show ?thesis by (simp add: rne_def Let_def)
  qed
qed

lemma rne_nonneg: "0 \<le> r \<Longrightarrow> 0 \<le> rne r"
  using rne_mono [of 0 r] rne_of_int [of 0] by simp

lemma rne_le_of_int: "r \<le> of_int i \<Longrightarrow> rne r \<le> i"
  using rne_mono [of r "of_int i"] by simp

lemma rne_ge_of_int: "of_int i \<le> r \<Longrightarrow> i \<le> rne r"
  using rne_mono [of "of_int i" r] by simp

section \<open>The binary exponent of a positive rational\<close>

definition ilog2 :: "rat \<Rightarrow> int" where
  "ilog2 x =
     (case quotient_of x of
        (p, q) \<Rightarrow> (let e = bitlen p - bitlen q in if 2 powi e \<le> x then e else e - 1))"

lemma powi_add2: "(2 :: rat) powi (a + b) = 2 powi a * 2 powi b"
  by (simp add: power_int_add)

lemma powi_less_iff [simp]: "(2 :: rat) powi a < 2 powi b \<longleftrightarrow> a < b"
  using power_int_strict_increasing [of a b "2 :: rat"] power_int_increasing [of b a "2 :: rat"]
  by (cases "a < b") auto

lemma powi_le_iff [simp]: "(2 :: rat) powi a \<le> 2 powi b \<longleftrightarrow> a \<le> b"
  by (simp add: linorder_not_less [symmetric] del: linorder_not_less)

lemma powi_pos [simp]: "(0 :: rat) < 2 powi e"
  by simp

lemma bitlen_powi:
  assumes "0 < p"
  shows "2 powi (bitlen p - 1) \<le> (of_int p :: rat)" and "(of_int p :: rat) < 2 powi bitlen p"
proof -
  have b: "2 ^ nat (bitlen p - 1) \<le> p" "p < 2 ^ nat (bitlen p)" "0 < bitlen p"
    using bitlen_bounds [OF assms] assms by (simp_all add: bitlen_eq_zero_iff less_le bitlen_nonneg)
  have "(2 :: rat) powi (bitlen p - 1) = of_int (2 ^ nat (bitlen p - 1))"
    using b(3) by (simp add: power_int_def)
  also have "\<dots> \<le> of_int p" using b(1) by (simp only: of_int_le_iff)
  finally show "2 powi (bitlen p - 1) \<le> (of_int p :: rat)" .
  have "(of_int p :: rat) < of_int (2 ^ nat (bitlen p))"
    using b(2) by (simp only: of_int_less_iff)
  also have "\<dots> = 2 powi bitlen p"
    using b(3) by (simp add: power_int_def)
  finally show "(of_int p :: rat) < 2 powi bitlen p" .
qed

lemma ilog2_bounds:
  assumes "0 < x"
  shows "2 powi ilog2 x \<le> x" and "x < 2 powi (ilog2 x + 1)"
proof -
  obtain p q where pq: "quotient_of x = (p, q)" by (cases "quotient_of x")
  have q: "0 < q" using quotient_of_denom_pos [OF pq] .
  have x: "x = of_int p / of_int q" using quotient_of_div [OF pq] .
  have p: "0 < p"
    using assms x q by (simp add: zero_less_divide_iff)
  define e where "e = bitlen p - bitlen q"
  have up: "x < 2 powi (e + 1)"
  proof -
    have "of_int p < (2 :: rat) powi bitlen p" by (rule bitlen_powi(2) [OF p])
    also have "\<dots> = 2 powi (e + 1) * 2 powi (bitlen q - 1)"
      by (simp add: e_def flip: powi_add2)
    also have "\<dots> \<le> 2 powi (e + 1) * of_int q"
      by (intro mult_left_mono bitlen_powi(1) [OF q]) (simp add: less_imp_le)
    finally show ?thesis
      using q by (simp add: x divide_less_eq)
  qed
  have low: "2 powi (e - 1) \<le> x"
  proof -
    have "2 powi (e - 1) * of_int q \<le> 2 powi (e - 1) * (2 :: rat) powi bitlen q"
      by (intro mult_left_mono less_imp_le [OF bitlen_powi(2) [OF q]]) (simp add: less_imp_le)
    also have "\<dots> = 2 powi (bitlen p - 1)"
      by (simp add: e_def flip: powi_add2)
    also have "\<dots> \<le> of_int p" by (rule bitlen_powi(1) [OF p])
    finally show ?thesis
      using q by (simp add: x le_divide_eq)
  qed
  show "2 powi ilog2 x \<le> x" and "x < 2 powi (ilog2 x + 1)"
    using up low by (auto simp: ilog2_def pq e_def [symmetric] Let_def)
qed

lemma ilog2_mono:
  assumes "0 < x" and "x \<le> y"
  shows "ilog2 x \<le> ilog2 y"
proof -
  have "(2 :: rat) powi ilog2 x < 2 powi (ilog2 y + 1)"
    using ilog2_bounds(1) [of x] ilog2_bounds(2) [of y] assms by linarith
  then show ?thesis by simp
qed


section \<open>Rounding to a binary64 value\<close>

text \<open>
  The distance of neighbouring values around \<open>x\<close>: 53 significant bits, and never less than the
  smallest subnormal number.
\<close>

definition ulp_exp :: "rat \<Rightarrow> int" where
  "ulp_exp x = max (ilog2 x - 52) (- 1074)"

definition round_pos :: "rat \<Rightarrow> rat" where
  "round_pos x = (if x = 0 then 0 else of_int (rne (x / 2 powi ulp_exp x)) * 2 powi ulp_exp x)"

definition round_rat :: "rat \<Rightarrow> rat" where
  "round_rat x = (if x < 0 then - round_pos (- x) else round_pos x)"

lemma powi_div_int:
  assumes "a \<le> b"
  shows "\<exists>i. (2 :: rat) powi b / 2 powi a = of_int i"
proof -
  have "(2 :: rat) powi b / 2 powi a = 2 powi (b - a)"
    by (simp add: power_int_diff)
  also have "\<dots> = of_int (2 ^ nat (b - a))"
    using assms by (simp add: power_int_def)
  finally show ?thesis by blast
qed

lemma round_pos_le_powi:
  assumes "0 \<le> x" and "x \<le> 2 powi b" and "x \<noteq> 0 \<Longrightarrow> ulp_exp x \<le> b"
  shows "round_pos x \<le> 2 powi b"
proof (cases "x = 0")
  case True
  then show ?thesis by (simp add: round_pos_def less_imp_le)
next
  case False
  then obtain i where i: "(2 :: rat) powi b / 2 powi ulp_exp x = of_int i"
    using powi_div_int assms(3) by blast
  have "x / 2 powi ulp_exp x \<le> of_int i"
    unfolding i [symmetric] by (rule divide_right_mono [OF assms(2)]) (simp add: less_imp_le)
  then have "of_int (rne (x / 2 powi ulp_exp x)) \<le> (of_int i :: rat)"
    by (simp add: rne_le_of_int)
  then have "of_int (rne (x / 2 powi ulp_exp x)) * 2 powi ulp_exp x \<le> (of_int i :: rat) * 2 powi ulp_exp x"
    by (rule mult_right_mono) (simp add: less_imp_le)
  also have "\<dots> = 2 powi b"
    by (simp flip: i)
  finally show ?thesis using False by (simp add: round_pos_def)
qed

lemma round_pos_ge_powi:
  assumes "2 powi b \<le> x" and "ulp_exp x \<le> b"
  shows "2 powi b \<le> round_pos x"
proof -
  obtain i where i: "(2 :: rat) powi b / 2 powi ulp_exp x = of_int i"
    using powi_div_int assms(2) by blast
  have pos: "0 < x" using assms(1) powi_pos [of b] by linarith
  have "of_int i \<le> x / 2 powi ulp_exp x"
    unfolding i [symmetric] by (rule divide_right_mono [OF assms(1)]) (simp add: less_imp_le)
  then have "(of_int i :: rat) \<le> of_int (rne (x / 2 powi ulp_exp x))"
    by (simp add: rne_ge_of_int)
  then have "(of_int i :: rat) * 2 powi ulp_exp x \<le> of_int (rne (x / 2 powi ulp_exp x)) * 2 powi ulp_exp x"
    by (rule mult_right_mono) (simp add: less_imp_le)
  moreover have "(of_int i :: rat) * 2 powi ulp_exp x = 2 powi b"
    by (simp flip: i)
  ultimately show ?thesis using pos by (simp add: round_pos_def)
qed

lemma round_pos_nonneg: "0 \<le> x \<Longrightarrow> 0 \<le> round_pos x"
  by (simp add: round_pos_def rne_nonneg less_imp_le)

lemma ulp_exp_mono: "0 < x \<Longrightarrow> x \<le> y \<Longrightarrow> ulp_exp x \<le> ulp_exp y"
  using ilog2_mono [of x y] by (simp add: ulp_exp_def)

lemma round_pos_mono:
  assumes "0 \<le> x" and "x \<le> y"
  shows "round_pos x \<le> round_pos y"
proof -
  consider "x = 0" | "0 < x" "ulp_exp x = ulp_exp y" | "0 < x" "ulp_exp x < ulp_exp y"
    using assms ulp_exp_mono [of x y] by fastforce
  then show ?thesis
  proof cases
    case 1
    then show ?thesis
      using assms round_pos_nonneg [of y] by (simp add: round_pos_def)
  next
    case 2
    have "rne (x / 2 powi ulp_exp y) \<le> rne (y / 2 powi ulp_exp y)"
      by (intro rne_mono divide_right_mono assms(2)) (simp add: less_imp_le)
    with 2 assms show ?thesis
      by (simp add: round_pos_def mult_right_mono less_imp_le)
  next
    case 3
    then have exp: "ulp_exp y = ilog2 y - 52" "ulp_exp x \<le> ilog2 y" "ilog2 x < ilog2 y"
      using ilog2_mono [OF 3(1) assms(2)] by (auto simp: ulp_exp_def max_def split: if_splits)
    have y: "0 < y" using 3(1) assms(2) by simp
    have "x < 2 powi (ilog2 x + 1)" by (rule ilog2_bounds(2) [OF 3(1)])
    also have "(2 :: rat) powi (ilog2 x + 1) \<le> 2 powi ilog2 y" using exp(3) by simp
    finally have "round_pos x \<le> 2 powi ilog2 y"
      using exp(2) assms(1) by (intro round_pos_le_powi) auto
    also have "2 powi ilog2 y \<le> round_pos y"
      using exp(1) by (intro round_pos_ge_powi ilog2_bounds(1) [OF y]) simp
    finally show ?thesis .
  qed
qed

lemma round_rat_mono: "x \<le> y \<Longrightarrow> round_rat x \<le> round_rat y"
  using round_pos_mono [of x y] round_pos_mono [of "- y" "- x"]
    round_pos_nonneg [of "- x"] round_pos_nonneg [of y]
  by (auto simp: round_rat_def)

lemma round_rat_0 [simp]: "round_rat 0 = 0"
  by (simp add: round_rat_def round_pos_def)


lemma round_pos_exact:
  assumes "y = of_int n * 2 powi u" and "ulp_exp y \<le> u"
  shows "round_pos y = y"
proof -
  obtain i where i: "(2 :: rat) powi u / 2 powi ulp_exp y = of_int i"
    using powi_div_int assms(2) by blast
  have "y / 2 powi ulp_exp y = of_int (n * i)"
    using assms(1) by (simp flip: i)
  then have "of_int (rne (y / 2 powi ulp_exp y)) = y / 2 powi ulp_exp y"
    by (simp only: rne_of_int)
  then show ?thesis by (simp add: round_pos_def)
qed

lemma ilog2_powi [simp]: "ilog2 (2 powi b) = b"
proof -
  have "(2 :: rat) powi b < 2 powi (ilog2 (2 powi b) + 1)" "(2 :: rat) powi ilog2 (2 powi b) \<le> 2 powi b"
    using ilog2_bounds [OF powi_pos, of b] by simp_all
  then show ?thesis by simp
qed

lemma round_pos_tiny:
  assumes "0 < x" and "ilog2 x + 1 < - 1074"
  shows "round_pos x = 0"
proof -
  have u: "ulp_exp x = - 1074" using assms(2) by (simp add: ulp_exp_def)
  have "x < 2 powi (ilog2 x + 1)" by (rule ilog2_bounds(2) [OF assms(1)])
  also have "\<dots> \<le> (2 :: rat) powi (ulp_exp x - 1)"
    using assms(2) u by (simp only: powi_le_iff)
  also have "\<dots> = 2 powi ulp_exp x / 2"
    by (simp add: power_int_diff)
  finally have "x / 2 powi ulp_exp x < 1 / 2"
    by (simp add: divide_less_eq)
  moreover have "0 < x / 2 powi ulp_exp x"
    using assms(1) by simp
  moreover have "rne z = 0" if "0 < z" "z < 1 / 2" for z
  proof -
    have "\<lfloor>z\<rfloor> = 0" using that by (intro floor_unique) simp_all
    with that show ?thesis by (simp add: rne_def Let_def)
  qed
  ultimately have "rne (x / 2 powi ulp_exp x) = 0" by blast
  then show ?thesis by (simp add: round_pos_def)
qed

lemma round_pos_idem: "0 \<le> x \<Longrightarrow> round_pos (round_pos x) = round_pos x"
proof -
  assume x0: "0 \<le> x"
  define y where "y = round_pos x"
  consider "x = 0" | "0 < x" "ilog2 x + 1 < - 1074" | "0 < x" "- 1074 \<le> ilog2 x + 1"
    using x0 by fastforce
  then show ?thesis
  proof cases
    case 1
    then show ?thesis by (simp add: round_pos_def)
  next
    case 2
    then show ?thesis by (simp add: round_pos_tiny) (simp add: round_pos_def)
  next
    case 3
    have u: "ulp_exp x \<le> ilog2 x + 1" using 3(2) by (simp add: ulp_exp_def)
    have le: "y \<le> 2 powi (ilog2 x + 1)"
      using ilog2_bounds(2) [OF 3(1)] u x0 by (auto simp: y_def intro!: round_pos_le_powi)
    have yn: "y = of_int (rne (x / 2 powi ulp_exp x)) * 2 powi ulp_exp x"
      using 3(1) by (simp add: y_def round_pos_def)
    show ?thesis
    proof (cases "y = 0 \<or> y = 2 powi (ilog2 x + 1)")
      case True
      then show ?thesis
      proof
        assume "y = 0"
        then show ?thesis by (simp add: y_def [symmetric]) (simp add: round_pos_def)
      next
        assume y: "y = 2 powi (ilog2 x + 1)"
        then have "ulp_exp y \<le> ilog2 x + 1"
          using 3(2) by (simp add: ulp_exp_def)
        then show ?thesis
          using round_pos_exact [of y 1 "ilog2 x + 1"] y by (simp add: y_def)
      qed
    next
      case False
      then have "0 < y" "y < 2 powi (ilog2 x + 1)"
        using round_pos_nonneg [OF x0] le by (auto simp: y_def less_le)
      then have "(2 :: rat) powi ilog2 y < 2 powi (ilog2 x + 1)"
        using ilog2_bounds(1) [of y] by linarith
      then have "ulp_exp y \<le> ulp_exp x" by (simp add: ulp_exp_def)
      from round_pos_exact [OF yn this] show ?thesis by (simp add: y_def)
    qed
  qed
qed

lemma round_rat_idem [simp]: "round_rat (round_rat x) = round_rat x"
  using round_pos_idem [of x] round_pos_idem [of "- x"] round_pos_nonneg [of x] round_pos_nonneg [of "- x"]
  by (auto simp: round_rat_def)

section \<open>The values and their operations\<close>

datatype f64 = NaN | PInf | NInf | Fin rat

definition f64_round :: "rat \<Rightarrow> f64" where
  "f64_round x =
     (let y = round_rat x in
      if 2 powi 1024 \<le> y then PInf else if y \<le> - (2 powi 1024) then NInf else Fin y)"

fun f64_neg :: "f64 \<Rightarrow> f64" where
  "f64_neg NaN = NaN"
| "f64_neg PInf = NInf"
| "f64_neg NInf = PInf"
| "f64_neg (Fin x) = Fin (- x)"

fun f64_add :: "f64 \<Rightarrow> f64 \<Rightarrow> f64" where
  "f64_add (Fin x) (Fin y) = f64_round (x + y)"
| "f64_add NaN _ = NaN"
| "f64_add _ NaN = NaN"
| "f64_add PInf NInf = NaN"
| "f64_add NInf PInf = NaN"
| "f64_add PInf _ = PInf"
| "f64_add _ PInf = PInf"
| "f64_add NInf _ = NInf"
| "f64_add _ NInf = NInf"

definition f64_sub :: "f64 \<Rightarrow> f64 \<Rightarrow> f64" where
  "f64_sub a b = f64_add a (f64_neg b)"

text \<open>An infinity of the given sign: what a product with an infinite factor is.\<close>

fun f64_sgn :: "f64 \<Rightarrow> int" where
  "f64_sgn NaN = 0"
| "f64_sgn PInf = 1"
| "f64_sgn NInf = - 1"
| "f64_sgn (Fin x) = (if x < 0 then - 1 else if x = 0 then 0 else 1)"

definition f64_inf :: "int \<Rightarrow> f64" where
  "f64_inf s = (if s < 0 then NInf else if s = 0 then NaN else PInf)"

fun f64_mul :: "f64 \<Rightarrow> f64 \<Rightarrow> f64" where
  "f64_mul (Fin x) (Fin y) = f64_round (x * y)"
| "f64_mul NaN _ = NaN"
| "f64_mul _ NaN = NaN"
| "f64_mul a b = f64_inf (f64_sgn a * f64_sgn b)"

fun f64_div :: "f64 \<Rightarrow> f64 \<Rightarrow> f64" where
  "f64_div (Fin x) (Fin y) = (if y = 0 then f64_inf (f64_sgn (Fin x)) else f64_round (x / y))"
| "f64_div NaN _ = NaN"
| "f64_div _ NaN = NaN"
| "f64_div (Fin x) _ = Fin 0"
| "f64_div PInf (Fin y) = (if y < 0 then NInf else PInf)"
| "f64_div NInf (Fin y) = (if y < 0 then PInf else NInf)"
| "f64_div _ _ = NaN"

fun f64_le :: "f64 \<Rightarrow> f64 \<Rightarrow> bool" where
  "f64_le (Fin x) (Fin y) = (x \<le> y)"
| "f64_le NaN _ = False"
| "f64_le _ NaN = False"
| "f64_le NInf _ = True"
| "f64_le _ PInf = True"
| "f64_le _ _ = False"

definition f64_lt :: "f64 \<Rightarrow> f64 \<Rightarrow> bool" where
  "f64_lt a b \<longleftrightarrow> f64_le a b \<and> \<not> f64_le b a"

text \<open>\<^verbatim>\<open>f64::min\<close> and \<^verbatim>\<open>f64::max\<close> return the other argument when one is not a number.\<close>

definition f64_min :: "f64 \<Rightarrow> f64 \<Rightarrow> f64" where
  "f64_min a b = (if a = NaN then b else if b = NaN then a else if f64_le a b then a else b)"

definition f64_max :: "f64 \<Rightarrow> f64 \<Rightarrow> f64" where
  "f64_max a b = (if a = NaN then b else if b = NaN then a else if f64_le a b then b else a)"

text \<open>\<^verbatim>\<open>f64::clamp\<close> with bounds that are numbers.\<close>

definition f64_clamp :: "f64 \<Rightarrow> f64 \<Rightarrow> f64 \<Rightarrow> f64" where
  "f64_clamp lo hi x = (if f64_lt x lo then lo else if f64_lt hi x then hi else x)"

definition f64_of_nat :: "nat \<Rightarrow> f64" where
  "f64_of_nat n = f64_round (of_nat n)"

lemma f64_le_refl [simp]: "f64_le a a \<longleftrightarrow> a \<noteq> NaN"
  by (cases a) auto

lemma f64_le_trans: "f64_le a b \<Longrightarrow> f64_le b c \<Longrightarrow> f64_le a c"
  by (cases a; cases b; cases c) auto

lemma f64_le_total: "a \<noteq> NaN \<Longrightarrow> b \<noteq> NaN \<Longrightarrow> f64_le a b \<or> f64_le b a"
  by (cases a; cases b) auto

lemma f64_not_lt: "a \<noteq> NaN \<Longrightarrow> b \<noteq> NaN \<Longrightarrow> \<not> f64_lt b a \<longleftrightarrow> f64_le a b"
  using f64_le_total [of a b] by (auto simp: f64_lt_def)

lemma f64_round_not_NaN [simp]: "f64_round x \<noteq> NaN"
  by (simp add: f64_round_def Let_def)

lemma f64_round_mono:
  assumes "x \<le> y"
  shows "f64_le (f64_round x) (f64_round y)"
proof -
  have "(0 :: rat) < 2 powi 1024" by simp
  with round_rat_mono [OF assms] show ?thesis by (auto simp: f64_round_def Let_def)
qed

lemma f64_round_bounds [simp]: "f64_le NInf (f64_round x)" "f64_le (f64_round x) PInf"
  unfolding f64_round_def Let_def by simp_all

text \<open>A sum does not decrease when its first operand grows.\<close>

lemma f64_add_mono:
  assumes "f64_le a b" and "f64_add a c \<noteq> NaN" and "f64_add b c \<noteq> NaN"
  shows "f64_le (f64_add a c) (f64_add b c)"
  using assms f64_round_mono
  by (cases a; cases b; cases c) auto


section \<open>Interpolation stays below its end point\<close>

text \<open>
  A product with a factor below one, of a difference that was itself rounded: the two roundings
  together do not exceed the exact difference. The factors a random generator draws from
  \<open>[0, 1)\<close> are multiples of \<open>2 ^ - 53\<close>, hence at most \<open>1 - 2 ^ - 53\<close>.
\<close>

definition unit_max :: rat where
  "unit_max = 1 - 1 / 2 ^ 53"

lemma rne_error: "of_int (rne r) \<le> r + 1 / 2"
proof -
  have "of_int \<lfloor>r\<rfloor> \<le> r" by simp
  then show ?thesis by (simp add: rne_def Let_def) linarith
qed

lemma rne_less_half: "r < of_int n - 1 / 2 \<Longrightarrow> rne r \<le> n - 1"
proof -
  assume r: "r < of_int n - 1 / 2"
  then have "\<lfloor>r\<rfloor> < n" by (simp add: floor_less_iff)
  moreover have "rne r = \<lfloor>r\<rfloor>" if "\<lfloor>r\<rfloor> = n - 1"
    using r that by (simp add: rne_def Let_def)
  ultimately show ?thesis using rne_le_floor_Suc [of r] by linarith
qed

lemma round_scaled_le:
  assumes y: "0 < y" and normal: "- 1022 \<le> ilog2 y" and r: "0 \<le> r" "r \<le> unit_max"
  shows "round_pos (r * round_pos y) \<le> y"
proof -
  define u where "u = (2 :: rat) powi ulp_exp y"
  define n where "n = rne (y / u)"
  define d where "d = round_pos y"
  have u: "0 < u" by (simp add: u_def)
  have exp: "ulp_exp y = ilog2 y - 52" using normal by (simp add: ulp_exp_def)
  have d: "d = of_int n * u" using y by (simp add: d_def round_pos_def n_def u_def)
  have low: "2 powi ilog2 y \<le> y" by (rule ilog2_bounds(1) [OF y])
  have lowu: "(2 :: rat) powi ilog2 y = 2 ^ 52 * u"
  proof -
    have "(2 :: rat) powi ilog2 y = 2 powi 52 * 2 powi (ilog2 y - 52)"
      by (simp only: powi_add2 [symmetric]) simp
    then show ?thesis by (simp add: u_def exp)
  qed
  have rd0: "0 \<le> r * d" using r(1) y by (simp add: d_def round_pos_nonneg)
  have rd_le: "r * d \<le> d" using r y
    by (intro mult_left_le_one_le) (auto simp: d_def round_pos_nonneg unit_max_def)
  show ?thesis
  proof (cases "d \<le> y")
    case True
    have "round_pos (r * d) \<le> round_pos d"
      using rd0 rd_le by (rule round_pos_mono)
    also have "\<dots> = d" using y by (simp add: d_def round_pos_idem)
    finally show ?thesis using True by (simp add: d_def)
  next
    case False
    have "2 ^ 52 * u < of_int n * u" using False low lowu d by linarith
    then have n: "2 ^ 52 < (of_int n :: rat)" using u by simp
    have half: "(of_int n - 1 / 2) * u \<le> y"
      using rne_error [of "y / u"] u by (simp add: n_def field_simps)
    have "r * d \<le> unit_max * (of_int n * u)"
      unfolding d using r(2) u n by (intro mult_right_mono) auto
    also have "\<dots> = (unit_max * of_int n) * u" by simp
    also have "\<dots> < (of_int n - 1 / 2) * u"
      using n u by (intro mult_strict_right_mono) (simp_all add: unit_max_def field_simps)
    finally have less: "r * d < (of_int n - 1 / 2) * u" .
    then have less_y: "r * d < y" using half by linarith
    show ?thesis
    proof (cases "r * d = 0")
      case True
      then have "round_pos (r * d) = 0" by (simp only: round_pos_def if_True refl)
      then show ?thesis using y by (simp add: d_def)
    next
      case nz: False
      then have pos: "0 < r * d" using rd0 by linarith
      show ?thesis
      proof (cases "ulp_exp (r * d) = ulp_exp y")
        case True
        have "r * d / u < of_int n - 1 / 2" using less u by (simp add: divide_less_eq)
        then have "rne (r * d / u) \<le> n - 1" by (rule rne_less_half)
        then have "(of_int (rne (r * d / u)) :: rat) \<le> of_int (n - 1)" by (simp only: of_int_le_iff)
        then have "of_int (rne (r * d / u)) * u \<le> of_int (n - 1) * u"
          using u by (intro mult_right_mono) auto
        also have "\<dots> \<le> (of_int n - 1 / 2) * u"
          using u by (intro mult_right_mono) auto
        finally have le: "of_int (rne (r * d / u)) * u \<le> (of_int n - 1 / 2) * u" .
        have "round_pos (r * d) = of_int (rne (r * d / u)) * u"
          using nz by (simp only: round_pos_def [of "r * d"] True u_def if_False)
        with le half show ?thesis by (simp add: d_def)
      next
        case diff: False
        have "ulp_exp (r * d) < ulp_exp y"
          using diff ulp_exp_mono [OF pos less_imp_le [OF less_y]] by linarith
        then have il: "ilog2 (r * d) + 1 \<le> ilog2 y" "ulp_exp (r * d) \<le> ilog2 y"
          by (simp_all add: ulp_exp_def exp max_def split: if_splits)
        have "r * d < 2 powi (ilog2 (r * d) + 1)" by (rule ilog2_bounds(2) [OF pos])
        also have "\<dots> \<le> (2 :: rat) powi ilog2 y" using il(1) by (simp only: powi_le_iff)
        finally have "round_pos (r * d) \<le> 2 powi ilog2 y"
          using il(2) rd0 by (intro round_pos_le_powi) auto
        then show ?thesis using low by (simp add: d_def)
      qed
    qed
  qed
qed

text \<open>A difference of two values below the normal range is exact.\<close>

definition representable :: "rat \<Rightarrow> bool" where
  "representable x \<longleftrightarrow> round_rat x = x"

lemma representable_round [simp]: "representable (round_rat x)"
  by (simp add: representable_def)

lemma representable_grid:
  assumes "representable x"
  shows "\<exists>i. x = of_int i * 2 powi (- 1074)"
proof -
  have pos: "\<exists>i. round_pos y = of_int i * 2 powi (- 1074)" for y
  proof -
    have "- 1074 \<le> ulp_exp y" by (simp add: ulp_exp_def)
    from powi_div_int [OF this] obtain j where "(2 :: rat) powi ulp_exp y / 2 powi (- 1074) = of_int j" ..
    then have "(2 :: rat) powi ulp_exp y = of_int j * 2 powi (- 1074)"
      by (simp only: nonzero_divide_eq_eq [OF less_imp_neq [OF powi_pos, symmetric]])
    then have "round_pos y = of_int (if y = 0 then 0 else rne (y / 2 powi ulp_exp y) * j) * 2 powi (- 1074)"
      by (simp only: round_pos_def of_int_mult mult.assoc split: if_split) simp
    then show ?thesis by blast
  qed
  show ?thesis
  proof (cases "x < 0")
    case True
    then have "x = - round_pos (- x)" using assms by (simp add: representable_def round_rat_def)
    moreover obtain i where "round_pos (- x) = of_int i * 2 powi (- 1074)" using pos by blast
    ultimately have "x = of_int (- i) * 2 powi (- 1074)" by (simp only: of_int_minus minus_mult_left)
    then show ?thesis by blast
  next
    case False
    then show ?thesis using assms pos [of x] by (simp only: representable_def round_rat_def if_False)
  qed
qed

lemma round_diff_exact:
  assumes "representable x" and "representable y" and "y < x" and "ilog2 (x - y) < - 1022"
  shows "round_pos (x - y) = x - y"
proof -
  obtain i j where x: "x = of_int i * 2 powi (- 1074)" and y: "y = of_int j * 2 powi (- 1074)"
    using representable_grid assms(1,2) by blast
  have "x - y = of_int (i - j) * 2 powi (- 1074)"
    by (simp only: x y of_int_diff left_diff_distrib)
  moreover have "ulp_exp (x - y) \<le> - 1074" using assms(4) by (simp add: ulp_exp_def)
  ultimately show ?thesis by (rule round_pos_exact)
qed

lemma round_interpolate_le:
  assumes "representable lo" and "representable hi" and "lo \<le> hi"
    and "0 \<le> r" and "r \<le> unit_max"
  shows "round_rat (lo + round_rat (r * round_rat (hi - lo))) \<le> hi"
proof -
  have "round_rat (r * round_rat (hi - lo)) \<le> hi - lo"
  proof (cases "lo = hi")
    case True
    then show ?thesis by simp
  next
    case False
    with assms(3) have pos: "0 < hi - lo" by simp
    define d where "d = round_pos (hi - lo)"
    have d0: "0 \<le> d" using pos by (simp add: d_def round_pos_nonneg)
    have "round_pos (r * d) \<le> hi - lo"
    proof (cases "ilog2 (hi - lo) < - 1022")
      case True
      then have exact: "d = hi - lo"
        unfolding d_def using assms(1,2) pos by (intro round_diff_exact) auto
      have "r * d \<le> d"
        using assms(4,5) d0 by (intro mult_left_le_one_le) (auto simp: unit_max_def)
      then have "round_pos (r * d) \<le> round_pos d"
        using assms(4) d0 by (intro round_pos_mono) auto
      also have "\<dots> = hi - lo" using pos exact by (simp add: d_def round_pos_idem)
      finally show ?thesis .
    next
      case normal: False
      then show ?thesis
        unfolding d_def using pos assms(4,5) by (intro round_scaled_le) auto
    qed
    moreover have "\<not> r * d < 0" using assms(4) d0 by (simp add: linorder_not_less)
    ultimately show ?thesis using pos by (simp add: round_rat_def d_def)
  qed
  then have "round_rat (lo + round_rat (r * round_rat (hi - lo))) \<le> round_rat hi"
    by (intro round_rat_mono) simp
  then show ?thesis using assms(2) by (simp add: representable_def)
qed

lemma round_rat_powi [simp]:
  assumes "- 1074 \<le> b"
  shows "round_rat (2 powi b) = 2 powi b"
proof -
  have "\<not> (2 :: rat) powi b < 0" by (simp add: not_less less_imp_le)
  then show ?thesis
    using assms round_pos_exact [of "2 powi b" 1 b] by (simp add: round_rat_def ulp_exp_def)
qed

end
