(* ===== verification/Retry_Policy.thy ===== *)
theory Retry_Policy
  imports F64
begin

text \<open>
  \<^verbatim>\<open>crates/qaas-core/src/retry.rs\<close>: exponential backoff with jitter, and the point at which a
  message stops being retried. Durations are nanoseconds; the conversions to and from
  \<^verbatim>\<open>f64\<close> seconds and the whole computation of the delay are in binary64 arithmetic. The
  uniform random number of \<^verbatim>\<open>fastrand::f64\<close> is an argument. The theorem is the documented one:
  whatever the policy's fields are, the delay is computed without a panic and is at most
  \<^verbatim>\<open>max_delay\<close>.
\<close>

section \<open>Conversions between durations and seconds\<close>

definition as_secs_f64 :: "duration \<Rightarrow> f64" where
  "as_secs_f64 d =
     f64_add (f64_of_nat (d div nanos_per_sec))
       (f64_div (f64_of_nat (d mod nanos_per_sec)) (Fin (of_nat nanos_per_sec)))"

text \<open>
  \<^verbatim>\<open>Duration::from_secs_f64\<close> rounds to the nearest nanosecond and panics (here \<^const>\<open>None\<close>) on a
  value that is negative, not finite, or not below \<open>2 ^ 64\<close> seconds.
\<close>

fun from_secs_f64 :: "f64 \<Rightarrow> duration option" where
  "from_secs_f64 (Fin x) =
     (if x < 0 then None
      else let n = nat (rne (x * of_nat nanos_per_sec)) in
           if n < 2 ^ 64 * nanos_per_sec then Some n else None)"
| "from_secs_f64 _ = None"

text \<open>
  \<^verbatim>\<open>f64::powi\<close> with a non-negative exponent, the loop of the compiler's run-time library: repeated
  squaring, each product rounded.
\<close>

fun powi_loop :: "f64 \<Rightarrow> nat \<Rightarrow> f64 \<Rightarrow> f64" where
  "powi_loop a n r =
     (let r' = (if odd n then f64_mul r a else r) in
      if n div 2 = 0 then r' else powi_loop (f64_mul a a) (n div 2) r')"

declare powi_loop.simps [simp del]

definition f64_powi :: "f64 \<Rightarrow> nat \<Rightarrow> f64" where
  "f64_powi a n = powi_loop a n (Fin 1)"

section \<open>The policy\<close>

record retry_policy =
  base_delay :: duration
  max_delay :: duration
  multiplier :: f64
  jitter :: f64
  max_attempts :: "u32 option"

definition MAX_BACKOFF_EXPONENT :: u32 where
  "MAX_BACKOFF_EXPONENT = 32"

definition retry_DEFAULT :: retry_policy where
  "retry_DEFAULT =
     \<lparr> base_delay = from_millis 500, max_delay = from_secs 60, multiplier = f64_round 2,
       jitter = f64_round (2 / 10), max_attempts = Some 5 \<rparr>"

definition apply_jitter :: "f64 \<Rightarrow> f64 \<Rightarrow> f64 \<Rightarrow> f64" where
  "apply_jitter draw capped_secs jit =
     (let jit = f64_clamp (Fin 0) (Fin 1) jit;
          floor = f64_mul capped_secs (f64_sub (Fin 1) jit)
      in f64_add floor (f64_mul draw (f64_sub capped_secs floor)))"

definition delay_for :: "f64 \<Rightarrow> retry_policy \<Rightarrow> u32 \<Rightarrow> duration option" where
  "delay_for draw p delivery_count =
     (let exponent = min (sat_sub delivery_count 1) MAX_BACKOFF_EXPONENT;
          raw_secs = f64_mul (as_secs_f64 (base_delay p)) (f64_powi (multiplier p) (unat exponent));
          capped_secs = f64_min raw_secs (as_secs_f64 (max_delay p));
          jittered_secs = apply_jitter draw capped_secs (jitter p)
      in from_secs_f64 (f64_max jittered_secs (Fin 0)))"

definition is_exhausted :: "retry_policy \<Rightarrow> u32 \<Rightarrow> bool" where
  "is_exhausted p delivery_count =
     (case max_attempts p of None \<Rightarrow> False | Some m \<Rightarrow> m \<le> delivery_count)"

section \<open>The delay is at most the maximal delay\<close>

text \<open>The values a draw from \<open>[0, 1)\<close> may have.\<close>

definition unit_draw :: "f64 \<Rightarrow> bool" where
  "unit_draw a = (case a of Fin r \<Rightarrow> representable r \<and> 0 \<le> r \<and> r < 1 | _ \<Rightarrow> False)"

lemma unit_draw_le:
  assumes "representable r" and "r < 1"
  shows "r \<le> unit_max"
proof (rule ccontr)
  assume "\<not> r \<le> unit_max"
  then have big: "unit_max < r" by simp
  then have pos: "0 < r" "1 / 2 < r" by (simp_all add: unit_max_def)
  have "ilog2 r = - 1"
  proof -
    have "(2 :: rat) powi ilog2 r < 2 powi 0" using ilog2_bounds(1) [OF pos(1)] assms(2) by simp
    then have "ilog2 r < 0" by (simp only: powi_less_iff)
    moreover have "(2 :: rat) powi (- 1) < 2 powi (ilog2 r + 1)"
      using ilog2_bounds(2) [OF pos(1)] pos(2) by (simp add: power_int_minus)
    then have "- 1 < ilog2 r + 1" by (simp only: powi_less_iff)
    ultimately show ?thesis by simp
  qed
  then have u: "ulp_exp r = - 53" by (simp add: ulp_exp_def)
  have "r = round_pos r" using assms(1) pos by (simp add: representable_def round_rat_def)
  then have "r = of_int (rne (r * 2 ^ 53)) / 2 ^ 53"
    using pos u by (simp add: round_pos_def power_int_minus divide_simps)
  then obtain k :: int where r: "r = of_int k / 2 ^ 53" by blast
  have "(of_int k :: rat) < of_int (2 ^ 53)" using assms(2) by (simp add: r)
  moreover have "(of_int (2 ^ 53 - 1) :: rat) < of_int k" using big by (simp add: r unit_max_def field_simps)
  ultimately have "k < 2 ^ 53" "2 ^ 53 - 1 < k" by (simp_all only: of_int_less_iff)
  then show False by simp
qed

lemma f64_round_fin:
  assumes "- (2 powi 1000) \<le> x" and "x \<le> 2 powi 1000"
  shows "f64_round x = Fin (round_rat x)"
proof -
  have lt: "(2 :: rat) powi 1000 < 2 powi 1024" by (simp only: powi_less_iff)
  have "round_rat x \<le> 2 powi 1000"
    using round_rat_mono [OF assms(2)] by (simp only: round_rat_powi)
  moreover have "- (2 powi 1000) \<le> round_rat x"
  proof -
    have "round_rat (- (2 powi 1000)) = - (2 powi 1000)"
      using round_rat_powi [of 1000] powi_pos [of 1000] by (simp only: round_rat_def) simp
    then show ?thesis using round_rat_mono [OF assms(1)] by (simp only:)
  qed
  ultimately show ?thesis using lt by (simp only: f64_round_def Let_def) auto
qed

lemma round_rat_nonneg: "0 \<le> x \<Longrightarrow> 0 \<le> round_rat x"
  using round_rat_mono [of 0 x] by simp

lemma round_rat_nonpos: "x \<le> 0 \<Longrightarrow> round_rat x \<le> 0"
  using round_rat_mono [of x 0] by simp

lemma round_rat_le: "representable y \<Longrightarrow> x \<le> y \<Longrightarrow> round_rat x \<le> y"
  using round_rat_mono [of x y] by (simp add: representable_def)

lemma round_rat_ge: "representable y \<Longrightarrow> y \<le> x \<Longrightarrow> y \<le> round_rat x"
  using round_rat_mono [of y x] by (simp add: representable_def)

lemma representable_1 [simp]: "representable 1"
  using round_rat_powi [of 0] by (simp add: representable_def)

lemma representable_0 [simp]: "representable 0"
  by (simp add: representable_def)

lemma f64_mul_Fin:
  assumes "f64_mul a b = Fin x"
  shows "representable x" and "- (2 powi 1024) < x"
  using assms by (cases a; cases b; auto simp: f64_round_def f64_inf_def Let_def split: if_splits)+


text \<open>
  The complement of the clamped jitter is a number of the unit interval, unless the jitter is not a
  number; then the result is not a number either.
\<close>

lemma one_minus_jitter:
  obtains (nan) "f64_sub (Fin 1) (f64_clamp (Fin 0) (Fin 1) jit) = NaN"
  | (fin) w where "f64_sub (Fin 1) (f64_clamp (Fin 0) (Fin 1) jit) = Fin w" and "0 \<le> w" and "w \<le> 1"
proof (cases "f64_clamp (Fin 0) (Fin 1) jit")
  case (Fin j)
  have "0 \<le> j" "j \<le> 1"
    using Fin by (cases jit; auto simp: f64_clamp_def f64_lt_def split: if_splits)+
  then show thesis
    using that(2) [of "round_rat (1 - j)"] Fin round_rat_le [of 1 "1 - j"] f64_round_fin [of "1 - j"]
      powi_le_iff [of 0 1000]
    by (auto simp: f64_sub_def round_rat_nonneg simp del: powi_le_iff)
qed (use that(1) in \<open>auto simp: f64_clamp_def f64_lt_def f64_sub_def split: if_splits\<close>)

lemma f64_NaN [simp]: "f64_add a NaN = NaN" "f64_mul a NaN = NaN" "f64_sub a NaN = NaN"
  by (cases a; simp add: f64_sub_def)+

lemma apply_jitter_NaN:
  "f64_sub (Fin 1) (f64_clamp (Fin 0) (Fin 1) jit) = NaN \<Longrightarrow> apply_jitter draw c jit = NaN"
  by (simp add: apply_jitter_def Let_def)

text \<open>Interpolation with non-negative end points: between zero and the upper one.\<close>

lemma apply_jitter_le:
  assumes "representable x" and "0 \<le> x" and "x \<le> 2 powi 64" and "unit_draw draw"
  shows "apply_jitter draw (Fin x) jit = NaN
    \<or> (\<exists>y. apply_jitter draw (Fin x) jit = Fin y \<and> 0 \<le> y \<and> y \<le> x)"
proof (cases jit rule: one_minus_jitter)
  case nan
  then show ?thesis by (simp add: apply_jitter_NaN)
next
  case w: (fin w)
  have x1000: "x \<le> 2 powi 1000"
    using assms(3) powi_le_iff [of 64 1000] by linarith
  then have small: "f64_round z = Fin (round_rat z)" if "0 \<le> z" "z \<le> x" for z
    using that powi_pos [of 1000] by (intro f64_round_fin) linarith+
  obtain r where r: "draw = Fin r" "representable r" "0 \<le> r" "r < 1"
    using assms(4) by (auto simp: unit_draw_def split: f64.splits)
  define lo where "lo = round_rat (x * w)"
  have xw: "0 \<le> x * w" "x * w \<le> x"
    using assms(2) w by (auto simp: mult_left_le)
  have lo: "0 \<le> lo" "lo \<le> x" "representable lo"
    using xw assms(1) by (auto simp: lo_def round_rat_nonneg round_rat_le)
  have "f64_sub (Fin x) (Fin lo) = Fin (round_rat (x - lo))"
    using small [of "x - lo"] lo by (simp add: f64_sub_def)
  moreover have d: "0 \<le> round_rat (x - lo)" "round_rat (x - lo) \<le> x"
    using lo assms(1) by (auto simp: round_rat_nonneg round_rat_le)
  moreover have rd: "0 \<le> r * round_rat (x - lo)" "r * round_rat (x - lo) \<le> x"
    using r d by (auto intro: order_trans [OF mult_left_le_one_le])
  moreover have up: "round_rat (lo + round_rat (r * round_rat (x - lo))) \<le> x"
    using lo assms(1) r unit_draw_le [of r] by (intro round_interpolate_le) auto
  moreover have "f64_add (Fin lo) (Fin (round_rat (r * round_rat (x - lo))))
      = Fin (round_rat (lo + round_rat (r * round_rat (x - lo))))"
  proof -
    have "round_rat (r * round_rat (x - lo)) \<le> x"
      using rd assms(1) by (simp add: round_rat_le)
    then have "lo + round_rat (r * round_rat (x - lo)) \<le> 2 * 2 powi 64"
      using lo(2) assms(3) by linarith
    also have "\<dots> = 2 powi 65" using powi_add2 [of 64 1] by simp
    also have "\<dots> \<le> (2 :: rat) powi 1000" by (simp only: powi_le_iff)
    finally show ?thesis
      using lo(1) rd(1) powi_pos [of 1000]
      by (simp only: f64_add.simps) (intro f64_round_fin, auto simp: round_rat_nonneg intro: order_trans [of _ 0])
  qed
  ultimately have "apply_jitter draw (Fin x) jit
      = Fin (round_rat (lo + round_rat (r * round_rat (x - lo))))"
    using w(1) small [OF xw] small [OF rd] r(1) by (simp add: apply_jitter_def lo_def)
  moreover have "0 \<le> round_rat (lo + round_rat (r * round_rat (x - lo)))"
    using lo(1) rd(1) by (intro round_rat_nonneg add_nonneg_nonneg)
  ultimately show ?thesis using up by blast
qed


text \<open>A negative capped delay (a negative multiplier) gives a delay of at most zero.\<close>

definition nonpos :: "f64 \<Rightarrow> bool" where
  "nonpos a \<longleftrightarrow> a = NaN \<or> f64_le a (Fin 0)"

lemma f64_round_nonpos: "x \<le> 0 \<Longrightarrow> f64_le (f64_round x) (Fin 0)"
  using f64_round_mono [of x 0] f64_round_fin [of 0] powi_pos [of 1000]
  by (simp add: less_imp_le del: powi_pos)

lemma nonpos_add: "nonpos a \<Longrightarrow> nonpos b \<Longrightarrow> nonpos (f64_add a b)"
  by (cases a; cases b) (auto simp: nonpos_def f64_round_nonpos)

lemma nonpos_mul: "0 \<le> r \<Longrightarrow> nonpos b \<Longrightarrow> nonpos (f64_mul (Fin r) b)"
  by (cases b) (auto simp: nonpos_def f64_round_nonpos f64_inf_def mult_nonneg_nonpos)

lemma apply_jitter_nonpos:
  assumes "representable x" and "- (2 powi 1024) < x" and "x < 0" and "unit_draw draw"
  shows "nonpos (apply_jitter draw (Fin x) jit)"
proof (cases jit rule: one_minus_jitter)
  case nan
  then show ?thesis by (simp add: apply_jitter_NaN nonpos_def)
next
  case w: (fin w)
  obtain r where r: "draw = Fin r" "0 \<le> r"
    using assms(4) by (auto simp: unit_draw_def split: f64.splits)
  define lo where "lo = f64_mul (Fin x) (Fin w)"
  have "x \<le> x * w" using assms(3) w mult_left_mono_neg [of w 1 x] by simp
  then have le: "x \<le> round_rat (x * w)" by (rule round_rat_ge [OF assms(1)])
  have le0: "round_rat (x * w) \<le> 0"
    using assms(3) w by (intro round_rat_nonpos) (simp add: mult_nonpos_nonneg)
  have "lo = Fin (round_rat (x * w))"
    using le le0 assms(2) powi_pos [of 1024] by (simp only: lo_def f64_mul.simps f64_round_def Let_def) auto
  then have "nonpos (f64_sub (Fin x) lo)" and lo: "nonpos lo"
    using le le0 by (simp_all add: f64_sub_def nonpos_def f64_round_nonpos)
  then have "nonpos (f64_add lo (f64_mul draw (f64_sub (Fin x) lo)))"
    using lo r by (simp add: nonpos_add nonpos_mul)
  then show ?thesis using w(1) by (simp add: apply_jitter_def lo_def Let_def)
qed

lemma apply_jitter_NInf: "nonpos (apply_jitter draw NInf jit)"
proof (cases jit rule: one_minus_jitter)
  case nan
  then show ?thesis by (simp add: apply_jitter_NaN nonpos_def)
next
  case w: (fin w)
  then have "f64_sub NInf (f64_mul NInf (Fin w)) = NaN"
    by (auto simp: f64_sub_def f64_inf_def)
  then show ?thesis using w(1) by (simp add: apply_jitter_def Let_def nonpos_def)
qed

text \<open>The conversion to seconds is exact to less than half a nanosecond.\<close>

lemma round_pos_error: "0 < x \<Longrightarrow> round_pos x \<le> x + 2 powi ulp_exp x / 2"
  using mult_right_mono [OF rne_error [of "x / 2 powi ulp_exp x"], of "2 powi ulp_exp x"]
  by (simp add: round_pos_def distrib_right less_imp_le)

lemma ilog2_le: "0 < x \<Longrightarrow> x < 2 powi (b + 1) \<Longrightarrow> ilog2 x \<le> b"
  using ilog2_bounds(1) [of x] powi_less_iff [of "ilog2 x" "b + 1"] by linarith

lemma round_rat_upper:
  assumes "0 \<le> x" and "x < 2 powi (b + 1)" and "- 1022 \<le> b"
  shows "round_rat x \<le> x + 2 powi (b - 53)"
proof (cases "x = 0")
  case False
  then have pos: "0 < x" using assms(1) by simp
  have "ulp_exp x \<le> b - 52"
    using ilog2_le [OF pos assms(2)] assms(3) by (simp add: ulp_exp_def)
  then have "(2 :: rat) powi ulp_exp x \<le> 2 powi (b - 52)" by (simp only: powi_le_iff)
  also have "\<dots> = 2 * 2 powi (b - 53)" using powi_add2 [of 1 "b - 53"] by simp
  finally show ?thesis using round_pos_error [OF pos] pos by (simp add: round_rat_def)
qed (simp add: less_imp_le)

lemma round_of_nat:
  assumes "n < 2 ^ 53"
  shows "round_rat (of_nat n) = of_nat n"
proof (cases "n = 0")
  case False
  have "(of_nat n :: rat) < of_nat (2 ^ 53)" using assms by (simp only: of_nat_less_iff)
  then have "ilog2 (of_nat n) \<le> 52" using False by (intro ilog2_le) auto
  then have "ulp_exp (of_nat n) \<le> 0" by (simp add: ulp_exp_def)
  then show ?thesis using round_pos_exact [of "of_nat n" "int n" 0] by (simp add: round_rat_def)
qed simp

lemma f64_of_nat_exact: "n < 2 ^ 53 \<Longrightarrow> f64_of_nat n = Fin (of_nat n)"
proof -
  assume n: "n < 2 ^ 53"
  have "(of_nat n :: rat) < of_nat (2 ^ 53)" using n by (simp only: of_nat_less_iff)
  also have "of_nat (2 ^ 53) = (2 :: rat) powi 53" by simp
  also have "\<dots> \<le> 2 powi 1000" by (simp only: powi_le_iff)
  finally have "f64_round (of_nat n) = Fin (round_rat (of_nat n))"
    using powi_pos [of 1000] by (intro f64_round_fin) (auto intro: order_trans [of _ 0] less_imp_le)
  then show ?thesis by (simp add: f64_of_nat_def round_of_nat [OF n])
qed


lemma as_secs_upper:
  assumes "d < from_secs (2 ^ 22)"
  obtains m where "as_secs_f64 d = Fin m" and "representable m" and "0 \<le> m"
    and "m * of_nat nanos_per_sec < of_nat d + 1 / 2"
proof -
  define s where "s = d div nanos_per_sec"
  define n where "n = d mod nanos_per_sec"
  define q :: rat where "q = of_nat n / of_nat nanos_per_sec"
  have n: "n < 1000000000" by (simp add: n_def nanos_per_sec_def)
  have s: "s < 2 ^ 22" using assms by (simp add: s_def from_secs_def less_mult_imp_div_less)
  have q: "0 \<le> q" "q < 1" using n by (simp_all add: q_def nanos_per_sec_def)
  have rq: "0 \<le> round_rat q" "round_rat q \<le> 1" "round_rat q \<le> q + 2 powi (- 54)"
    using q round_rat_upper [of q "- 1"] round_rat_le [of 1 q] by (simp_all add: round_rat_nonneg)
  have s': "(of_nat s :: rat) \<le> 2 ^ 22 - 1"
  proof -
    have "(of_nat s :: rat) \<le> of_nat (2 ^ 22 - 1)" using s by (simp only: of_nat_le_iff)
    then show ?thesis by simp
  qed
  define z where "z = of_nat s + round_rat q"
  have z: "0 \<le> z" "z \<le> 2 ^ 22" using s' rq by (simp_all add: z_def)
  have "(2 :: rat) ^ 22 = 2 powi 22" by simp
  also have "\<dots> \<le> (2 :: rat) powi 1000" by (simp only: powi_le_iff)
  finally have big: "z \<le> 2 powi 1000" using z by linarith
  have fz: "f64_round z = Fin (round_rat z)"
    using z big powi_pos [of 1000] by (intro f64_round_fin) (auto intro: order_trans [of _ 0] less_imp_le)
  have fq: "f64_round q = Fin (round_rat q)"
    using q powi_le_iff [of 0 1000] powi_pos [of 1000]
    by (intro f64_round_fin) (auto intro: order_trans [of _ 0] less_imp_le simp del: powi_le_iff)
  have "as_secs_f64 d = Fin (round_rat z)"
    using n s fz fq
    by (simp add: as_secs_f64_def flip: s_def n_def)
      (simp add: f64_of_nat_exact nanos_per_sec_def q_def z_def)
  moreover have "round_rat z \<le> z + 2 powi (- 31)"
    using z round_rat_upper [of z 22] by simp
  then have "round_rat z \<le> of_nat s + q + 2 powi (- 54) + 2 powi (- 31)"
    using rq(3) by (simp add: z_def)
  then have "round_rat z * of_nat nanos_per_sec
      \<le> (of_nat s + q + 2 powi (- 54) + 2 powi (- 31)) * of_nat nanos_per_sec"
    by (rule mult_right_mono) simp
  moreover have "of_nat d = (of_nat s + q) * of_nat nanos_per_sec"
    by (simp add: s_def q_def n_def nanos_per_sec_def distrib_right)
       (metis div_mult_mod_eq of_nat_add of_nat_mult of_nat_numeral)
  ultimately show thesis
    using that [of "round_rat z"] z by (simp add: round_rat_nonneg distrib_right nanos_per_sec_def)
qed

lemma from_secs_f64_le:
  assumes "0 \<le> y" and "y \<le> m" and "m * of_nat nanos_per_sec < of_nat d + 1 / 2"
    and "d < from_secs (2 ^ 22)"
  shows "\<exists>t. from_secs_f64 (Fin y) = Some t \<and> t \<le> d"
proof -
  have "y * of_nat nanos_per_sec \<le> m * of_nat nanos_per_sec"
    using assms(2) by (rule mult_right_mono) simp
  then have "y * of_nat nanos_per_sec < of_int (int d + 1) - 1 / 2"
    using assms(3) by simp
  from rne_less_half [OF this] have "nat (rne (y * of_nat nanos_per_sec)) \<le> d" by simp
  moreover have "d < 2 ^ 64 * nanos_per_sec"
    using assms(4) by (simp add: from_secs_def nanos_per_sec_def)
  ultimately show ?thesis using assms(1) by (simp add: Let_def)
qed

lemma delay_for_bounded:
  assumes "unit_draw draw" and "max_delay p < from_secs (2 ^ 22)"
  shows "\<exists>d. delay_for draw p n = Some d \<and> d \<le> max_delay p"
proof -
  obtain m where m: "as_secs_f64 (max_delay p) = Fin m" "representable m" "0 \<le> m"
      "m * of_nat nanos_per_sec < of_nat (max_delay p) + 1 / 2"
    using as_secs_upper [OF assms(2)] by metis
  define raw where "raw = f64_mul (as_secs_f64 (base_delay p))
    (f64_powi (multiplier p) (unat (min (sat_sub n 1) MAX_BACKOFF_EXPONENT)))"
  define c where "c = f64_min raw (Fin m)"
  define out where "out = f64_max (apply_jitter draw c (jitter p)) (Fin 0)"
  have m64: "m \<le> 2 powi 64"
  proof -
    have "(of_nat (max_delay p) :: rat) < of_nat (from_secs (2 ^ 22))"
      using assms(2) by (simp only: of_nat_less_iff)
    then show ?thesis using m(4) by (simp add: from_secs_def nanos_per_sec_def)
  qed
  have c: "c = NInf \<or> (\<exists>x. c = Fin x \<and> x \<le> m \<and> representable x \<and> - (2 powi 1024) < x)"
    using f64_mul_Fin [of "as_secs_f64 (base_delay p)"] m powi_pos [of 1024]
    by (cases raw) (auto simp: c_def raw_def f64_min_def simp del: powi_pos)
  have "\<exists>y. out = Fin y \<and> 0 \<le> y \<and> y \<le> m"
  proof (cases "\<exists>x. c = Fin x \<and> 0 \<le> x")
    case True
    then obtain x where x: "c = Fin x" "0 \<le> x" "x \<le> m" "representable x" using c by auto
    have "x \<le> 2 powi 64" using x(3) m64 by (rule order_trans)
    from apply_jitter_le [OF x(4,2) this assms(1), of "jitter p"] x(1)
    have "apply_jitter draw c (jitter p) = NaN
        \<or> (\<exists>y. apply_jitter draw c (jitter p) = Fin y \<and> 0 \<le> y \<and> y \<le> x)" by simp
    then show ?thesis using x m(3) by (auto simp: out_def f64_max_def)
  next
    case False
    then have "nonpos (apply_jitter draw c (jitter p))"
      using c apply_jitter_nonpos [OF _ _ _ assms(1)] apply_jitter_NInf by (auto simp: not_le)
    then have "out = Fin 0"
      by (cases "apply_jitter draw c (jitter p)") (auto simp: out_def nonpos_def f64_max_def)
    then show ?thesis using m(3) by simp
  qed
  then obtain y where "out = Fin y" "0 \<le> y" "y \<le> m" by blast
  with from_secs_f64_le [OF _ _ m(4) assms(2)] show ?thesis
    by (simp add: delay_for_def Let_def m(1) raw_def c_def out_def)
qed




end
