(* ===== verification/Consumer_Group.thy ===== *)
theory Consumer_Group
  imports Dead_Letter Retry_Policy
begin

text \<open>
  \<^verbatim>\<open>crates/qaas-core/src/consumer_group.rs\<close>: the work queue with leases, retries, checkpoints,
  idempotency keys and a dead-letter queue. The record \<open>group\<close> holds the fields of
  \<^verbatim>\<open>ConsumerGroup\<close> and of the \<^verbatim>\<open>State\<close> under its lock. An asynchronous method is the composition of
  its atomic sections (the code between a lock and its unlock, or one log write); the sections that
  other calls can run between are definitions of their own. What the environment decides is an
  argument: readings of the clocks, fresh identifiers, random draws, outcomes of log writes and the
  iteration order of hash maps. The notifications sent through \<^verbatim>\<open>changed\<close> are recorded in order.
\<close>

section \<open>Data\<close>

datatype ('a, 'v) cg_record =
  CgEnqueue message_id "idempotency_key option" 'a
| CgAck message_id
| CgDeadLettered message_id
| CgCheckpoint message_id 'v

record ('a, 'v) pending =
  p_id :: message_id
  p_item :: 'a
  p_delivery_count :: u32
  p_key :: "idempotency_key option"
  p_checkpoint :: "'v option"

datatype lease_token = LeaseToken u64

primrec token_as_u64 :: "lease_token \<Rightarrow> u64" where
  "token_as_u64 (LeaseToken n) = n"

definition token_from_u64 :: "u64 \<Rightarrow> lease_token" where
  "token_from_u64 = LeaseToken"

record 'v stream_chunk =
  sc_sequence :: u64
  sc_data :: 'v
  sc_is_final :: bool

record ('a, 'v) leased =
  l_item :: 'a
  l_token :: lease_token
  l_expires_at :: instant
  l_delivery_count :: u32
  l_key :: "idempotency_key option"
  l_checkpoint :: "'v option"
  l_stream :: "'v stream_chunk list"

record ('a, 'v) delayed =
  d_id :: message_id
  d_item :: 'a
  d_delivery_count :: u32
  d_available_at :: instant
  d_key :: "idempotency_key option"
  d_checkpoint :: "'v option"

datatype notification = NotifyOne | NotifyWaiters

record ('a, 'v) group =
  g_pending :: "('a, 'v) pending list"
  g_leased :: "(message_id, ('a, 'v) leased) hash_map"
  g_delayed :: "('a, 'v) delayed list"
  g_dedup :: "idempotency_key \<rightharpoonup> message_id"
  g_wal :: "('a, 'v) cg_record list"
  g_dlq :: "('a, 'v) dlq"
  g_visibility_timeout :: duration
  g_retry_policy :: retry_policy
  g_next_lease_token :: u64
  g_changed :: "notification list"

record ('a, 'v) claim =
  c_id :: message_id
  c_token :: lease_token
  c_key :: idempotency_key
  c_item :: 'a
  c_delivery_count :: u32
  c_checkpoint :: "'v option"

datatype 'v partial_results_poll = Chunks "'v stream_chunk list" | NotActive

text \<open>A call ends with a value, with an I/O error, or with a panic of its task.\<close>

datatype cg_error = CgIo io_error | CgPanic

type_synonym 'x cg_result = "cg_error + 'x"

definition cg_notify :: "notification \<Rightarrow> ('a, 'v) group \<Rightarrow> ('a, 'v) group" where
  "cg_notify n g = g \<lparr> g_changed := g_changed g @ [n] \<rparr>"

definition cg_log ::
  "('a, 'v) cg_record \<Rightarrow> log_outcome \<Rightarrow> ('a, 'v) group \<Rightarrow> unit io_result \<times> ('a, 'v) group" where
  "cg_log r out g = (case log_append r out (g_wal g) of (res, wal) \<Rightarrow> (res, g \<lparr> g_wal := wal \<rparr>))"

section \<open>Opening\<close>

text \<open>The local variables of the replay loop: pending messages, keys, latest checkpoints.\<close>

type_synonym ('a, 'v) cg_replay_state =
  "('a, 'v) pending list \<times> (idempotency_key \<rightharpoonup> message_id) \<times> (message_id \<rightharpoonup> 'v)"

definition fresh_pending :: "message_id \<Rightarrow> 'a \<Rightarrow> idempotency_key option \<Rightarrow> ('a, 'v) pending" where
  "fresh_pending i item key =
     \<lparr> p_id = i, p_item = item, p_delivery_count = 0, p_key = key, p_checkpoint = None \<rparr>"

fun cg_apply :: "('a, 'v) cg_record \<Rightarrow> ('a, 'v) cg_replay_state \<Rightarrow> ('a, 'v) cg_replay_state" where
  "cg_apply (CgEnqueue i key item) (pend, dedup, cps) =
     (pend @ [fresh_pending i item key],
      (case key of None \<Rightarrow> dedup | Some k \<Rightarrow> dedup(k \<mapsto> i)), cps)"
| "cg_apply (CgAck i) (pend, dedup, cps) =
     (case find (\<lambda>p. p_id p = i) pend of
        None \<Rightarrow> (pend, dedup, cps)
      | Some acked \<Rightarrow>
          (remove_first (\<lambda>p. p_id p = i) pend,
           (case p_key acked of None \<Rightarrow> dedup | Some k \<Rightarrow> dedup(k := None)), cps))"
| "cg_apply (CgDeadLettered i) (pend, dedup, cps) = (remove_first (\<lambda>p. p_id p = i) pend, dedup, cps)"
| "cg_apply (CgCheckpoint i v) (pend, dedup, cps) = (pend, dedup, cps(i \<mapsto> v))"

definition cg_replay :: "('a, 'v) cg_record list \<Rightarrow> ('a, 'v) cg_replay_state" where
  "cg_replay records = fold cg_apply records ([], Map.empty, Map.empty)"

text \<open>\<^verbatim>\<open>checkpoints.remove(&entry.id)\<close> for each pending message in turn.\<close>

fun attach_checkpoints :: "('a, 'v) pending list \<Rightarrow> (message_id \<rightharpoonup> 'v) \<Rightarrow> ('a, 'v) pending list" where
  "attach_checkpoints [] cps = []"
| "attach_checkpoints (p # ps) cps =
     (p \<lparr> p_checkpoint := cps (p_id p) \<rparr>) # attach_checkpoints ps (cps(p_id p := None))"

definition seed_dedup ::
  "(message_id \<times> idempotency_key option) list \<Rightarrow> (idempotency_key \<rightharpoonup> message_id) \<Rightarrow> (idempotency_key \<rightharpoonup> message_id)" where
  "seed_dedup idks dedup =
     fold (\<lambda>(i, key) d. case key of None \<Rightarrow> d | Some k \<Rightarrow> d(k \<mapsto> i)) idks dedup"

text \<open>\<open>opened\<close> and \<open>dlq_opened\<close> are what \<^verbatim>\<open>Wal::open\<close> returned for the two files.\<close>

definition cg_open ::
  "duration \<Rightarrow> retry_policy \<Rightarrow> message_id iter_rank \<Rightarrow> ('a, 'v) cg_record list io_result
   \<Rightarrow> ('a, 'v) dlq_wal_record list io_result \<Rightarrow> ('a, 'v) group io_result" where
  "cg_open visibility_timeout retry_policy rank opened dlq_opened =
     (case opened of
        Inl e \<Rightarrow> Inl e
      | Inr records \<Rightarrow>
          (case cg_replay records of
             (pend, dedup, cps) \<Rightarrow>
               (case dlq_open dlq_opened of
                  Inl e \<Rightarrow> Inl e
                | Inr dlq \<Rightarrow>
                    Inr \<lparr> g_pending = attach_checkpoints pend cps, g_leased = [], g_delayed = [],
                          g_dedup = seed_dedup (dlq_ids_and_keys rank dlq) dedup, g_wal = records,
                          g_dlq = dlq, g_visibility_timeout = visibility_timeout,
                          g_retry_policy = retry_policy, g_next_lease_token = 0, g_changed = [] \<rparr>)))"

text \<open>
  \<^verbatim>\<open>dlq_path\<close>, on the file name of the path; an absent file name counts as empty.
\<close>

definition dlq_file_name :: "string option \<Rightarrow> string" where
  "dlq_file_name name = (case name of None \<Rightarrow> '''' | Some n \<Rightarrow> n) @ ''.dlq''"

section \<open>Enqueuing\<close>

text \<open>The first section of \<^verbatim>\<open>enqueue_with_id_and_key\<close>: the existing message, or the reservation.\<close>

definition reserve_key ::
  "message_id \<Rightarrow> idempotency_key option \<Rightarrow> ('a, 'v) group \<Rightarrow> message_id option \<times> ('a, 'v) group" where
  "reserve_key i key g =
     (case key of
        None \<Rightarrow> (None, g)
      | Some k \<Rightarrow>
          (case g_dedup g k of
             Some existing \<Rightarrow> (Some existing, g)
           | None \<Rightarrow> (None, g \<lparr> g_dedup := (g_dedup g)(k \<mapsto> i) \<rparr>)))"

definition release_key :: "idempotency_key option \<Rightarrow> ('a, 'v) group \<Rightarrow> ('a, 'v) group" where
  "release_key key g =
     (case key of None \<Rightarrow> g | Some k \<Rightarrow> g \<lparr> g_dedup := (g_dedup g)(k := None) \<rparr>)"

definition push_pending :: "('a, 'v) pending \<Rightarrow> ('a, 'v) group \<Rightarrow> ('a, 'v) group" where
  "push_pending p g = g \<lparr> g_pending := g_pending g @ [p] \<rparr>"

definition write_enqueue_record ::
  "message_id \<Rightarrow> 'a \<Rightarrow> idempotency_key option \<Rightarrow> log_outcome \<Rightarrow> ('a, 'v) group
   \<Rightarrow> message_id io_result \<times> ('a, 'v) group" where
  "write_enqueue_record i item key out g =
     (case cg_log (CgEnqueue i key item) out g of
        (Inl e, g) \<Rightarrow> (Inl e, release_key key g)
      | (Inr _, g) \<Rightarrow> (Inr i, cg_notify NotifyOne (push_pending (fresh_pending i item key) g)))"

definition enqueue_with_id_and_key ::
  "message_id \<Rightarrow> 'a \<Rightarrow> idempotency_key option \<Rightarrow> log_outcome \<Rightarrow> ('a, 'v) group
   \<Rightarrow> message_id io_result \<times> ('a, 'v) group" where
  "enqueue_with_id_and_key i item key out g =
     (case reserve_key i key g of
        (Some existing, g) \<Rightarrow> (Inr existing, g)
      | (None, g) \<Rightarrow> write_enqueue_record i item key out g)"

definition cg_enqueue ::
  "message_id \<Rightarrow> 'a \<Rightarrow> log_outcome \<Rightarrow> ('a, 'v) group \<Rightarrow> message_id io_result \<times> ('a, 'v) group" where
  "cg_enqueue fresh_id item out g = enqueue_with_id_and_key fresh_id item None out g"

definition cg_enqueue_with_key ::
  "message_id \<Rightarrow> 'a \<Rightarrow> idempotency_key \<Rightarrow> log_outcome \<Rightarrow> ('a, 'v) group
   \<Rightarrow> message_id io_result \<times> ('a, 'v) group" where
  "cg_enqueue_with_key fresh_id item key out g = enqueue_with_id_and_key fresh_id item (Some key) out g"

definition cg_len :: "('a, 'v) group \<Rightarrow> nat" where
  "cg_len g = length (g_pending g) + length (g_leased g) + length (g_delayed g)"

definition cg_is_empty :: "('a, 'v) group \<Rightarrow> bool" where
  "cg_is_empty g \<longleftrightarrow> cg_len g = 0"

text \<open>
  \<open>unix\<close> reads the time out of an identifier (see \<open>message_timestamp\<close>), \<open>now\<close> is
  \<^verbatim>\<open>Timestamp::now()\<close>; the result is \<^const>\<open>None\<close> when the task panics.
\<close>

definition oldest_pending_age ::
  "(128 word \<Rightarrow> (u64 \<times> u32) option) \<Rightarrow> timestamp \<Rightarrow> ('a, 'v) group \<Rightarrow> duration option option" where
  "oldest_pending_age unix now g =
     (case g_pending g of
        [] \<Rightarrow> Some None
      | oldest # _ \<Rightarrow>
          map_option (\<lambda>enqueued_at. Some (from_millis (unat (sat_sub (ts_millis now) (ts_millis enqueued_at)))))
            (message_timestamp unix (p_id oldest)))"

section \<open>Failed deliveries\<close>

record resolve_env =
  re_draw :: f64
  re_now :: instant
  re_timestamp :: timestamp
  re_dlq_out :: log_outcome
  re_wal_out :: log_outcome

definition resolve_failed_delivery ::
  "resolve_env \<Rightarrow> message_id \<Rightarrow> 'a \<Rightarrow> u32 \<Rightarrow> idempotency_key option \<Rightarrow> 'v option \<Rightarrow> string option
   \<Rightarrow> ('a, 'v) group \<Rightarrow> unit cg_result \<times> ('a, 'v) group" where
  "resolve_failed_delivery env i item delivery_count key checkpoint reason g =
     (if is_exhausted (g_retry_policy g) delivery_count
      then
        (case dlq_record
                \<lparr> dl_id = i, dl_idempotency_key = key, dl_item = item, dl_delivery_count = delivery_count,
                  dl_last_error = reason, dl_dead_lettered_at = re_timestamp env, dl_checkpoint = checkpoint,
                  dl_triage = None \<rparr>
                (re_dlq_out env) (g_dlq g) of
           (Inl e, dlq) \<Rightarrow> (Inl (CgIo e), g \<lparr> g_dlq := dlq \<rparr>)
         | (Inr _, dlq) \<Rightarrow>
             (case cg_log (CgDeadLettered i) (re_wal_out env) (g \<lparr> g_dlq := dlq \<rparr>) of
                (Inl e, g) \<Rightarrow> (Inl (CgIo e), g)
              | (Inr _, g) \<Rightarrow> (Inr (), g)))
      else
        (case delay_for (re_draw env) (g_retry_policy g) delivery_count of
           None \<Rightarrow> (Inl CgPanic, g)
         | Some delay \<Rightarrow>
             (Inr (),
              g \<lparr> g_delayed := g_delayed g @
                    [\<lparr> d_id = i, d_item = item, d_delivery_count = delivery_count,
                       d_available_at = re_now env + delay, d_key = key, d_checkpoint = checkpoint \<rparr>] \<rparr>)))"

text \<open>
  The sweep of expired leases: all of them are taken out under one lock, then resolved one by one.
  An I/O error is logged and the sweep goes on; a panic ends it.
\<close>

definition expired_leases ::
  "message_id iter_rank \<Rightarrow> instant \<Rightarrow> ('a, 'v) group \<Rightarrow> (message_id \<times> ('a, 'v) leased) list" where
  "expired_leases rank now g = filter (\<lambda>(_, lease). l_expires_at lease \<le> now) (hm_iter rank (g_leased g))"

definition remove_leases :: "message_id list \<Rightarrow> ('a, 'v) group \<Rightarrow> ('a, 'v) group" where
  "remove_leases ids g = g \<lparr> g_leased := fold AList.delete ids (g_leased g) \<rparr>"

fun resolve_all ::
  "(message_id \<Rightarrow> resolve_env) \<Rightarrow> (message_id \<times> ('a, 'v) leased) list \<Rightarrow> ('a, 'v) group
   \<Rightarrow> unit cg_result \<times> ('a, 'v) group" where
  "resolve_all env [] g = (Inr (), g)"
| "resolve_all env ((i, lease) # expired) g =
     (case resolve_failed_delivery (env i) i (l_item lease) (l_delivery_count lease) (l_key lease)
             (l_checkpoint lease) (Some ''visibility timeout expired'') g of
        (Inl CgPanic, g) \<Rightarrow> (Inl CgPanic, g)
      | (_, g) \<Rightarrow> resolve_all env expired g)"

definition reclaim_expired_leases ::
  "message_id iter_rank \<Rightarrow> instant \<Rightarrow> (message_id \<Rightarrow> resolve_env) \<Rightarrow> ('a, 'v) group
   \<Rightarrow> unit cg_result \<times> ('a, 'v) group" where
  "reclaim_expired_leases rank now env g =
     (let expired = expired_leases rank now g in
      if expired = [] then (Inr (), g)
      else case resolve_all env expired (remove_leases (map fst expired) g) of
             (Inl e, g) \<Rightarrow> (Inl e, g)
           | (Inr _, g) \<Rightarrow> (Inr (), cg_notify NotifyWaiters g))"

definition promote_ready_delayed :: "instant \<Rightarrow> ('a, 'v) group \<Rightarrow> ('a, 'v) group" where
  "promote_ready_delayed now g =
     g \<lparr> g_pending := g_pending g @
           map (\<lambda>d. \<lparr> p_id = d_id d, p_item = d_item d, p_delivery_count = d_delivery_count d,
                      p_key = d_key d, p_checkpoint = d_checkpoint d \<rparr>)
             (filter (\<lambda>d. d_available_at d \<le> now) (g_delayed g)),
         g_delayed := filter (\<lambda>d. \<not> d_available_at d \<le> now) (g_delayed g) \<rparr>"

definition earliest_wake :: "('a, 'v) group \<Rightarrow> instant option" where
  "earliest_wake g =
     (let instants = map (\<lambda>(_, lease). l_expires_at lease) (g_leased g) @ map d_available_at (g_delayed g) in
      if instants = [] then None else Some (Min (set instants)))"

section \<open>Claiming and resolving\<close>

text \<open>
  \<open>display\<close> is the string form of a UUID. \<^const>\<open>None\<close>: the \<^verbatim>\<open>expect\<close> on an empty one panics.
\<close>

definition effective_idempotency_key ::
  "(128 word \<Rightarrow> string) \<Rightarrow> message_id \<Rightarrow> idempotency_key option \<Rightarrow> idempotency_key option" where
  "effective_idempotency_key display i explicit =
     (case explicit of
        Some k \<Rightarrow> Some k
      | None \<Rightarrow>
          (case i of MessageId uuid \<Rightarrow>
             (case idempotency_key_new (display uuid) of Inl _ \<Rightarrow> None | Inr k \<Rightarrow> Some k)))"

record claim_env =
  ce_rank :: "message_id iter_rank"
  ce_reclaim_now :: instant
  ce_resolve :: "message_id \<Rightarrow> resolve_env"
  ce_promote_now :: instant
  ce_lease_now :: instant

datatype ('a, 'v) claim_pass_result = Claimed "('a, 'v) claim" | WaitUntil "instant option" | ClaimPanic

text \<open>The section of \<^verbatim>\<open>claim\<close> that grants a lease to the first pending message.\<close>

definition grant_lease ::
  "instant \<Rightarrow> ('a, 'v) pending \<Rightarrow> ('a, 'v) pending list \<Rightarrow> ('a, 'v) group \<Rightarrow> ('a, 'v) group" where
  "grant_lease now p rest g =
     g \<lparr> g_pending := rest,
         g_leased := AList.update (p_id p)
           \<lparr> l_item = p_item p, l_token = LeaseToken (g_next_lease_token g),
             l_expires_at = now + g_visibility_timeout g, l_delivery_count = p_delivery_count p + 1,
             l_key = p_key p, l_checkpoint = p_checkpoint p, l_stream = [] \<rparr> (g_leased g),
         g_next_lease_token := g_next_lease_token g + 1 \<rparr>"

text \<open>One pass of the loop of \<^verbatim>\<open>claim\<close>; the caller waits until the given instant and passes again.\<close>

definition claim_pass ::
  "(128 word \<Rightarrow> string) \<Rightarrow> claim_env \<Rightarrow> ('a, 'v) group \<Rightarrow> ('a, 'v) claim_pass_result \<times> ('a, 'v) group" where
  "claim_pass display env g =
     (case reclaim_expired_leases (ce_rank env) (ce_reclaim_now env) (ce_resolve env) g of
        (Inl _, g) \<Rightarrow> (ClaimPanic, g)
      | (Inr _, g) \<Rightarrow>
          (let g = promote_ready_delayed (ce_promote_now env) g in
           case g_pending g of
             [] \<Rightarrow> (WaitUntil (earliest_wake g), g)
           | p # rest \<Rightarrow>
               (let g' = cg_notify NotifyOne (grant_lease (ce_lease_now env) p rest g) in
                case effective_idempotency_key display (p_id p) (p_key p) of
                  None \<Rightarrow> (ClaimPanic, g')
                | Some k \<Rightarrow>
                    (Claimed \<lparr> c_id = p_id p, c_token = LeaseToken (g_next_lease_token g), c_key = k,
                               c_item = p_item p, c_delivery_count = p_delivery_count p + 1,
                               c_checkpoint = p_checkpoint p \<rparr>, g'))))"

text \<open>The section of \<^verbatim>\<open>ack\<close> and \<^verbatim>\<open>nack\<close> that takes a lease out when the token matches.\<close>

definition take_lease ::
  "message_id \<Rightarrow> lease_token \<Rightarrow> ('a, 'v) group \<Rightarrow> ('a, 'v) leased option \<times> ('a, 'v) group" where
  "take_lease i token g =
     (case map_of (g_leased g) i of
        None \<Rightarrow> (None, g)
      | Some lease \<Rightarrow>
          if l_token lease = token then (Some lease, g \<lparr> g_leased := AList.delete i (g_leased g) \<rparr>)
          else (None, g))"

definition ack_release ::
  "message_id \<Rightarrow> lease_token \<Rightarrow> ('a, 'v) group \<Rightarrow> bool \<times> ('a, 'v) group" where
  "ack_release i token g =
     (case take_lease i token g of
        (None, g) \<Rightarrow> (False, g)
      | (Some lease, g) \<Rightarrow> (True, release_key (l_key lease) g))"

definition cg_ack ::
  "message_id \<Rightarrow> lease_token \<Rightarrow> log_outcome \<Rightarrow> ('a, 'v) group \<Rightarrow> bool io_result \<times> ('a, 'v) group" where
  "cg_ack i token out g =
     (case ack_release i token g of
        (False, g) \<Rightarrow> (Inr False, g)
      | (True, g) \<Rightarrow>
          (case cg_log (CgAck i) out g of
             (Inl e, g) \<Rightarrow> (Inl e, g)
           | (Inr _, g) \<Rightarrow> (Inr True, g)))"

definition cg_nack ::
  "resolve_env \<Rightarrow> message_id \<Rightarrow> lease_token \<Rightarrow> string option \<Rightarrow> ('a, 'v) group
   \<Rightarrow> bool cg_result \<times> ('a, 'v) group" where
  "cg_nack env i token reason g =
     (case take_lease i token g of
        (None, g) \<Rightarrow> (Inr False, g)
      | (Some lease, g) \<Rightarrow>
          (case resolve_failed_delivery env i (l_item lease) (l_delivery_count lease) (l_key lease)
                  (l_checkpoint lease) reason g of
             (Inl e, g) \<Rightarrow> (Inl e, g)
           | (Inr _, g) \<Rightarrow> (Inr True, cg_notify NotifyOne g)))"

definition holds_lease :: "message_id \<Rightarrow> lease_token \<Rightarrow> ('a, 'v) group \<Rightarrow> bool" where
  "holds_lease i token g =
     (case map_of (g_leased g) i of None \<Rightarrow> False | Some lease \<Rightarrow> l_token lease = token)"

definition update_lease ::
  "message_id \<Rightarrow> (('a, 'v) leased \<Rightarrow> ('a, 'v) leased) \<Rightarrow> ('a, 'v) group \<Rightarrow> ('a, 'v) group" where
  "update_lease i f g =
     (case map_of (g_leased g) i of
        None \<Rightarrow> g
      | Some lease \<Rightarrow> g \<lparr> g_leased := AList.update i (f lease) (g_leased g) \<rparr>)"

text \<open>The section of \<^verbatim>\<open>checkpoint\<close> after the log write.\<close>

definition checkpoint_lease ::
  "message_id \<Rightarrow> lease_token \<Rightarrow> 'v \<Rightarrow> ('a, 'v) group \<Rightarrow> bool \<times> ('a, 'v) group" where
  "checkpoint_lease i token v g =
     (if holds_lease i token g then (True, update_lease i (\<lambda>l. l \<lparr> l_checkpoint := Some v \<rparr>) g) else (False, g))"

definition cg_checkpoint ::
  "message_id \<Rightarrow> lease_token \<Rightarrow> 'v \<Rightarrow> log_outcome \<Rightarrow> ('a, 'v) group \<Rightarrow> bool io_result \<times> ('a, 'v) group" where
  "cg_checkpoint i token v out g =
     (if \<not> holds_lease i token g then (Inr False, g)
      else case cg_log (CgCheckpoint i v) out g of
             (Inl e, g) \<Rightarrow> (Inl e, g)
           | (Inr _, g) \<Rightarrow> (case checkpoint_lease i token v g of (b, g) \<Rightarrow> (Inr b, g)))"

text \<open>The length of a stream is a \<^verbatim>\<open>usize\<close>; converting it to \<^verbatim>\<open>u64\<close> saturates, adding one wraps.\<close>

definition next_sequence :: "'v stream_chunk list \<Rightarrow> u64" where
  "next_sequence stream = (if length stream < 2 ^ 64 then of_nat (length stream) else - 1) + 1"

definition publish_partial_result ::
  "message_id \<Rightarrow> lease_token \<Rightarrow> 'v \<Rightarrow> bool \<Rightarrow> ('a, 'v) group \<Rightarrow> u64 option \<times> ('a, 'v) group" where
  "publish_partial_result i token data is_final g =
     (case map_of (g_leased g) i of
        None \<Rightarrow> (None, g)
      | Some lease \<Rightarrow>
          if l_token lease \<noteq> token then (None, g)
          else let sequence = next_sequence (l_stream lease);
                   chunk = \<lparr> sc_sequence = sequence, sc_data = data, sc_is_final = is_final \<rparr>
               in (Some sequence,
                   cg_notify NotifyWaiters
                     (g \<lparr> g_leased := AList.update i (lease \<lparr> l_stream := l_stream lease @ [chunk] \<rparr>) (g_leased g) \<rparr>)))"

text \<open>One pass of the loop of \<^verbatim>\<open>partial_results_since\<close>; \<^const>\<open>None\<close>: the watcher waits.\<close>

definition partial_results_pass ::
  "message_id \<Rightarrow> u64 \<Rightarrow> ('a, 'v) group \<Rightarrow> 'v partial_results_poll option" where
  "partial_results_pass i after g =
     (case map_of (g_leased g) i of
        None \<Rightarrow> Some NotActive
      | Some lease \<Rightarrow>
          (let chunks = filter (\<lambda>c. after < sc_sequence c) (l_stream lease) in
           if chunks \<noteq> [] then Some (Chunks chunks) else None))"

section \<open>Dead letters\<close>

definition cg_dead_letters :: "message_id iter_rank \<Rightarrow> ('a, 'v) group \<Rightarrow> ('a, 'v) dead_letter list" where
  "cg_dead_letters rank g = dlq_list rank (g_dlq g)"

definition annotate_dead_letter ::
  "message_id \<Rightarrow> triage_verdict \<Rightarrow> log_outcome \<Rightarrow> ('a, 'v) group \<Rightarrow> bool io_result \<times> ('a, 'v) group" where
  "annotate_dead_letter i v out g =
     (case dlq_annotate i v out (g_dlq g) of (res, dlq) \<Rightarrow> (res, g \<lparr> g_dlq := dlq \<rparr>))"

definition reprocess_dead_letter ::
  "message_id \<Rightarrow> log_outcome \<Rightarrow> log_outcome \<Rightarrow> ('a, 'v) group \<Rightarrow> bool io_result \<times> ('a, 'v) group" where
  "reprocess_dead_letter i dlq_out out g =
     (case dlq_take i dlq_out (g_dlq g) of
        (Inl e, dlq) \<Rightarrow> (Inl e, g \<lparr> g_dlq := dlq \<rparr>)
      | (Inr None, dlq) \<Rightarrow> (Inr False, g \<lparr> g_dlq := dlq \<rparr>)
      | (Inr (Some d), dlq) \<Rightarrow>
          (case write_enqueue_record (dl_id d) (dl_item d) (dl_idempotency_key d) out (g \<lparr> g_dlq := dlq \<rparr>) of
             (Inl e, g) \<Rightarrow> (Inl e, g)
           | (Inr _, g) \<Rightarrow> (Inr True, g)))"

definition purge_dead_letter ::
  "message_id \<Rightarrow> log_outcome \<Rightarrow> ('a, 'v) group \<Rightarrow> bool io_result \<times> ('a, 'v) group" where
  "purge_dead_letter i dlq_out g =
     (case dlq_take i dlq_out (g_dlq g) of
        (Inl e, dlq) \<Rightarrow> (Inl e, g \<lparr> g_dlq := dlq \<rparr>)
      | (Inr None, dlq) \<Rightarrow> (Inr False, g \<lparr> g_dlq := dlq \<rparr>)
      | (Inr (Some d), dlq) \<Rightarrow> (Inr True, release_key (dl_idempotency_key d) (g \<lparr> g_dlq := dlq \<rparr>)))"

end
