(* ===== verification/Group_Invariants.thy ===== *)
theory Group_Invariants
  imports Consumer_Group
begin

text \<open>
  The invariants of the consumer group: where the messages of a group are, what each call does to
  them, and what holds in every state that calls reach. A call is one value of \<open>cg_call\<close>, with the
  environment's choices; the outcomes of the log writes are arbitrary unless a lemma says otherwise.
\<close>

section \<open>The messages of a group\<close>

type_synonym 'a msg = "message_id \<times> idempotency_key option \<times> 'a"

definition cg_live :: "('a, 'v) group \<Rightarrow> 'a msg list" where
  "cg_live g =
     map (\<lambda>p. (p_id p, p_key p, p_item p)) (g_pending g) @
     map (\<lambda>(i, l). (i, l_key l, l_item l)) (g_leased g) @
     map (\<lambda>d. (d_id d, d_key d, d_item d)) (g_delayed g)"

definition cg_dead :: "('a, 'v) group \<Rightarrow> 'a msg list" where
  "cg_dead g = map (\<lambda>(i, d). (i, dl_idempotency_key d, dl_item d)) (dlq_entries (g_dlq g))"

definition cg_msgs :: "('a, 'v) group \<Rightarrow> 'a msg multiset" where
  "cg_msgs g = mset (cg_live g) + mset (cg_dead g)"

definition cg_ids :: "('a, 'v) group \<Rightarrow> message_id set" where
  "cg_ids g = fst ` set_mset (cg_msgs g)"

definition unique_ids :: "'a msg multiset \<Rightarrow> bool" where
  "unique_ids M \<longleftrightarrow> (\<forall>i. size {#m \<in># M. fst m = i#} \<le> 1)"

lemma unique_ids_subset: "M' \<subseteq># M \<Longrightarrow> unique_ids M \<Longrightarrow> unique_ids M'"
  unfolding unique_ids_def by (meson multiset_filter_mono order_trans size_mset_mono)

lemma unique_ids_add: "unique_ids (add_mset m M) \<longleftrightarrow> unique_ids M \<and> fst m \<notin> fst ` set_mset M"
proof -
  have empty: "fst m \<notin> fst ` set_mset M \<longleftrightarrow> {#x \<in># M. fst x = fst m#} = {#}"
    by (auto simp: filter_mset_eq_conv image_iff)
  show ?thesis
  proof
    assume unique: "unique_ids (add_mset m M)"
    then have "unique_ids M" by (rule unique_ids_subset [rotated]) simp
    moreover have "size {#x \<in># add_mset m M. fst x = fst m#} \<le> 1"
      using unique unfolding unique_ids_def by blast
    ultimately show "unique_ids M \<and> fst m \<notin> fst ` set_mset M"
      unfolding empty by simp
  next
    assume "unique_ids M \<and> fst m \<notin> fst ` set_mset M"
    then have M: "unique_ids M" "{#x \<in># M. fst x = fst m#} = {#}" unfolding empty by blast+
    have "size {#x \<in># add_mset m M. fst x = i#} \<le> 1" for i
      using M by (cases "i = fst m") (auto simp: unique_ids_def)
    then show "unique_ids (add_mset m M)" unfolding unique_ids_def by blast
  qed
qed

lemma unique_ids_mset: "unique_ids (mset xs) \<longleftrightarrow> distinct (map fst xs)"
proof (induction xs)
  case Nil
  then show ?case by (simp add: unique_ids_def)
next
  case (Cons x xs)
  then show ?case by (simp add: unique_ids_add) auto
qed

section \<open>The invariant\<close>

definition keys_registered :: "(idempotency_key \<rightharpoonup> message_id) \<Rightarrow> 'a msg multiset \<Rightarrow> bool" where
  "keys_registered dedup M \<longleftrightarrow> (\<forall>i k x. (i, Some k, x) \<in># M \<longrightarrow> dedup k = Some i)"

text \<open>A key, if there is one, is registered for the message.\<close>

definition owns :: "(idempotency_key \<rightharpoonup> message_id) \<Rightarrow> message_id \<Rightarrow> idempotency_key option \<Rightarrow> bool" where
  "owns dedup i key = (case key of None \<Rightarrow> True | Some k \<Rightarrow> dedup k = Some i)"

definition cg_inv :: "('a, 'v) group \<Rightarrow> bool" where
  "cg_inv g \<longleftrightarrow>
     unique_ids (cg_msgs g) \<and> keys_registered (g_dedup g) (cg_msgs g) \<and> dlq_wf (dlq_entries (g_dlq g))"

lemma keys_registered_subset: "M' \<subseteq># M \<Longrightarrow> keys_registered d M \<Longrightarrow> keys_registered d M'"
  by (auto simp: keys_registered_def dest: mset_subset_eqD)

lemma cg_inv_leased: "cg_inv g \<Longrightarrow> hm_wf (g_leased g)"
proof -
  assume "cg_inv g"
  moreover have "mset (map (\<lambda>(i, l). (i, l_key l, l_item l)) (g_leased g)) \<subseteq># cg_msgs g"
    by (simp add: cg_msgs_def cg_live_def mset_subset_eq_add_left mset_subset_eq_add_right union_assoc
        subset_mset.add_increasing subset_mset.add_increasing2)
  ultimately have "distinct (map fst (map (\<lambda>(i, l). (i, l_key l, l_item l)) (g_leased g)))"
    unfolding unique_ids_mset [symmetric] by (auto simp: cg_inv_def intro: unique_ids_subset)
  moreover have "map fst (map (\<lambda>(i, l). (i, l_key l, l_item l)) (g_leased g)) = map fst (g_leased g)"
    by (auto simp: case_prod_beta)
  ultimately show ?thesis unfolding hm_wf_def by (simp only:)
qed

lemma update_fresh: "k \<notin> fst ` set m \<Longrightarrow> AList.update k v m = m @ [(k, v)]"
  by (induction m) auto

lemma cg_msgs_simps [simp]:
  "cg_msgs (g \<lparr> g_dedup := d \<rparr>) = cg_msgs g"
  "cg_msgs (g \<lparr> g_wal := w \<rparr>) = cg_msgs g"
  "cg_msgs (g \<lparr> g_changed := c \<rparr>) = cg_msgs g"
  "cg_msgs (g \<lparr> g_next_lease_token := n \<rparr>) = cg_msgs g"
  by (simp_all add: cg_msgs_def cg_live_def cg_dead_def)

lemma cg_msgs_notify [simp]: "cg_msgs (cg_notify n g) = cg_msgs g"
  by (simp add: cg_notify_def)

lemma cg_msgs_log [simp]: "cg_msgs (snd (cg_log r out g)) = cg_msgs g"
  by (simp add: cg_log_def split: prod.splits)

lemma cg_msgs_release [simp]: "cg_msgs (release_key key g) = cg_msgs g"
  by (simp add: release_key_def split: option.splits)

lemma cg_msgs_push: "cg_msgs (push_pending p g) = add_mset (p_id p, p_key p, p_item p) (cg_msgs g)"
  by (simp add: push_pending_def cg_msgs_def cg_live_def cg_dead_def)

lemma leased_ids: "map_of (g_leased g) i = Some l \<Longrightarrow> (i, l_key l, l_item l) \<in># cg_msgs g"
  by (force simp: cg_msgs_def cg_live_def dest: map_of_SomeD)


section \<open>What the parts of the calls do\<close>

text \<open>Fields that no operation on the messages touches.\<close>

lemma g_fields_log [simp]:
  "g_dedup (snd (cg_log r out g)) = g_dedup g" "g_dlq (snd (cg_log r out g)) = g_dlq g"
  "g_leased (snd (cg_log r out g)) = g_leased g" "g_pending (snd (cg_log r out g)) = g_pending g"
  "g_delayed (snd (cg_log r out g)) = g_delayed g" "g_retry_policy (snd (cg_log r out g)) = g_retry_policy g"
  "g_next_lease_token (snd (cg_log r out g)) = g_next_lease_token g"
  by (simp_all add: cg_log_def split: prod.splits)

lemma g_fields_notify [simp]:
  "g_dedup (cg_notify n g) = g_dedup g" "g_dlq (cg_notify n g) = g_dlq g"
  "g_leased (cg_notify n g) = g_leased g" "g_pending (cg_notify n g) = g_pending g"
  "g_delayed (cg_notify n g) = g_delayed g" "g_retry_policy (cg_notify n g) = g_retry_policy g"
  "g_next_lease_token (cg_notify n g) = g_next_lease_token g" "g_wal (cg_notify n g) = g_wal g"
  by (simp_all add: cg_notify_def)

lemma cg_log_cases:
  obtains (ok) "out = Logged" "cg_log r out g = (Inr (), g \<lparr> g_wal := g_wal g @ [r] \<rparr>)"
  | (err) e where "out \<noteq> Logged" "cg_log r out g = (Inl e, g)"
  | (unsynced) e where "out \<noteq> Logged" "cg_log r out g = (Inl e, g \<lparr> g_wal := g_wal g @ [r] \<rparr>)"
  by (cases out) (auto simp: cg_log_def)

lemma cg_inv_cong:
  "cg_msgs g' = cg_msgs g \<Longrightarrow> g_dedup g' = g_dedup g \<Longrightarrow> dlq_entries (g_dlq g') = dlq_entries (g_dlq g) \<Longrightarrow>
   cg_inv g' = cg_inv g"
  by (simp add: cg_inv_def)

lemma cg_inv_key: "cg_inv g \<Longrightarrow> (i, Some k, x) \<in># cg_msgs g \<Longrightarrow> g_dedup g k = Some i"
  by (auto simp: cg_inv_def keys_registered_def)

lemma cg_inv_owns: "cg_inv g \<Longrightarrow> (i, key, x) \<in># cg_msgs g \<Longrightarrow> owns (g_dedup g) i key"
  by (auto simp: owns_def split: option.splits dest: cg_inv_key)

lemma mem_ids: "m \<in># cg_msgs g \<Longrightarrow> fst m \<in> cg_ids g"
  by (simp add: cg_ids_def)

text \<open>Releasing a key that is registered for a message that is no longer there.\<close>

lemma release_key_inv:
  assumes "cg_inv g" and "i \<notin> cg_ids g" and "owns (g_dedup g) i key"
  shows "cg_inv (release_key key g)"
proof (cases key)
  case (Some k)
  have "j \<noteq> i" if "(j, Some k', x) \<in># cg_msgs g" for j k' x
    using assms(2) mem_ids [OF that] by auto
  then show ?thesis
    using assms Some cg_inv_key [OF assms(1)]
    by (auto simp: cg_inv_def release_key_def keys_registered_def owns_def)
qed (use assms in \<open>simp add: release_key_def\<close>)

lemma cg_inv_add:
  assumes "cg_inv g" and "cg_msgs g' = add_mset (i, key, x) (cg_msgs g)" and "i \<notin> cg_ids g"
    and "owns (g_dedup g) i key" and "g_dedup g' = g_dedup g"
    and "dlq_wf (dlq_entries (g_dlq g'))"
  shows "cg_inv g'"
  using assms by (auto simp: cg_inv_def unique_ids_add keys_registered_def cg_ids_def owns_def)

lemma push_pending_inv:
  "cg_inv g \<Longrightarrow> p_id p \<notin> cg_ids g \<Longrightarrow> owns (g_dedup g) (p_id p) (p_key p) \<Longrightarrow>
   cg_inv (push_pending p g)"
  by (rule cg_inv_add [OF _ cg_msgs_push]) (auto simp: push_pending_def cg_inv_def)

lemma cg_inv_irrelevant [simp]:
  "cg_inv (g \<lparr> g_wal := w \<rparr>) = cg_inv g" "cg_inv (cg_notify n g) = cg_inv g"
  "cg_ids (g \<lparr> g_wal := w \<rparr>) = cg_ids g" "cg_ids (cg_notify n g) = cg_ids g"
  by (simp_all add: cg_inv_def cg_notify_def cg_ids_def)

text \<open>Writing an enqueue record for an identifier whose key is already registered for it.\<close>

lemma write_enqueue_cases:
  obtains (ok) "out = Logged" "write_enqueue_record i item key out g =
      (Inr i, cg_notify NotifyOne (push_pending (fresh_pending i item key) (g \<lparr> g_wal := g_wal g @ [CgEnqueue i key item] \<rparr>)))"
  | (err) e g1 where "out \<noteq> Logged" "write_enqueue_record i item key out g = (Inl e, release_key key g1)"
      "g1 = g \<or> g1 = g \<lparr> g_wal := g_wal g @ [CgEnqueue i key item] \<rparr>"
  by (cases rule: cg_log_cases [of out "CgEnqueue i key item" g]) (auto simp: write_enqueue_record_def)

lemma write_enqueue_inv:
  assumes "cg_inv g" and "i \<notin> cg_ids g" and "owns (g_dedup g) i key"
  shows "cg_inv (snd (write_enqueue_record i item key out g))"
proof (cases rule: write_enqueue_cases [of out i item key g])
  case ok
  then show ?thesis using assms by (simp add: push_pending_inv fresh_pending_def)
next
  case (err e g1)
  then have "cg_inv g1" "cg_ids g1 = cg_ids g" "g_dedup g1 = g_dedup g"
    using assms(1) by auto
  with err assms show ?thesis by (simp add: release_key_inv)
qed


text \<open>A fresh enqueue: the key is registered first.\<close>

lemma reserve_key_inv:
  assumes "cg_inv g" and "reserve_key i key g = (None, g')"
  shows "cg_inv g'" and "cg_ids g' = cg_ids g" and "owns (g_dedup g') i key"
    and "cg_msgs g' = cg_msgs g"
proof -
  have g': "g' = (case key of None \<Rightarrow> g | Some k \<Rightarrow> g \<lparr> g_dedup := (g_dedup g)(k \<mapsto> i) \<rparr>)"
    and free: "\<And>k. key = Some k \<Longrightarrow> g_dedup g k = None"
    using assms(2) by (auto simp: reserve_key_def split: option.splits)
  show "cg_inv g'"
    using assms(1) free cg_inv_key [OF assms(1)]
    by (auto simp: g' cg_inv_def keys_registered_def split: option.splits)
  show "cg_ids g' = cg_ids g" "cg_msgs g' = cg_msgs g" "owns (g_dedup g') i key"
    by (auto simp: g' cg_ids_def owns_def split: option.splits)
qed

lemma enqueue_inv:
  assumes "cg_inv g" and "i \<notin> cg_ids g"
  shows "cg_inv (snd (enqueue_with_id_and_key i item key out g))"
proof (cases "reserve_key i key g")
  case (Pair existing g')
  show ?thesis
  proof (cases existing)
    case None
    then show ?thesis
      using assms Pair reserve_key_inv [of g i key g'] write_enqueue_inv [of g' i key item out]
      by (simp add: enqueue_with_id_and_key_def)
  next
    case (Some j)
    then have "g' = g" using Pair by (auto simp: reserve_key_def split: option.splits)
    then show ?thesis using assms Pair Some by (simp add: enqueue_with_id_and_key_def)
  qed
qed

text \<open>Taking out a lease.\<close>

lemma cg_msgs_delete_lease:
  assumes "hm_wf (g_leased g)" and "map_of (g_leased g) i = Some l"
  shows "cg_msgs g = add_mset (i, l_key l, l_item l) (cg_msgs (g \<lparr> g_leased := AList.delete i (g_leased g) \<rparr>))"
  using mset_delete [OF assms] by (simp add: cg_msgs_def cg_live_def cg_dead_def)

lemma take_lease_effect:
  assumes "cg_inv g" and "take_lease i token g = (Some l, g')"
  shows "cg_msgs g = add_mset (i, l_key l, l_item l) (cg_msgs g')" and "cg_inv g'" and "i \<notin> cg_ids g'"
    and "g_dedup g' = g_dedup g" and "g_dlq g' = g_dlq g" and "owns (g_dedup g) i (l_key l)"
    and "g_retry_policy g' = g_retry_policy g"
proof -
  have lookup: "map_of (g_leased g) i = Some l" and g': "g' = g \<lparr> g_leased := AList.delete i (g_leased g) \<rparr>"
    using assms(2) by (auto simp: take_lease_def split: option.splits if_splits)
  show msgs: "cg_msgs g = add_mset (i, l_key l, l_item l) (cg_msgs g')"
    using cg_msgs_delete_lease [OF cg_inv_leased [OF assms(1)] lookup] g' by simp
  have "unique_ids (add_mset (i, l_key l, l_item l) (cg_msgs g'))" using assms(1) msgs by (simp add: cg_inv_def)
  then have u: "unique_ids (cg_msgs g')" "i \<notin> cg_ids g'" by (auto simp: unique_ids_add cg_ids_def)
  then show "i \<notin> cg_ids g'" by simp
  show "cg_inv g'"
    using assms(1) u msgs by (simp add: cg_inv_def keys_registered_def g')
  show "g_dedup g' = g_dedup g" "g_dlq g' = g_dlq g" "g_retry_policy g' = g_retry_policy g" by (simp_all add: g')
  show "owns (g_dedup g) i (l_key l)"
    by (rule cg_inv_owns [OF assms(1), of _ _ "l_item l"]) (simp add: msgs)
qed

lemma ack_inv: "cg_inv g \<Longrightarrow> cg_inv (snd (cg_ack i token out g))"
proof (cases "take_lease i token g")
  case (Pair lease g')
  assume inv: "cg_inv g"
  show ?thesis
  proof (cases lease)
    case None
    then have "g' = g" using Pair by (auto simp: take_lease_def split: option.splits if_splits)
    with None Pair inv show ?thesis by (simp add: cg_ack_def ack_release_def)
  next
    case (Some l)
    note eff = take_lease_effect [OF inv Pair [unfolded Some]]
    have "cg_inv (release_key (l_key l) g')"
      using eff by (intro release_key_inv) simp_all
    then show ?thesis
      using Pair Some
      by (cases rule: cg_log_cases [of out "CgAck i" "release_key (l_key l) g'"])
        (simp_all add: cg_ack_def ack_release_def)
  qed
qed


text \<open>
  A failed delivery of a message that is no longer in the group: it is scheduled again, recorded as
  a dead letter, or, when a log write fails or the task panics, possibly not kept.
\<close>

lemma dlq_record_fresh:
  assumes "dlq_record d out q = (res, q')" and "dl_id d \<notin> fst ` set (dlq_entries q)"
  shows "dlq_entries q' = (if out = Logged then dlq_entries q @ [(dl_id d, d)] else dlq_entries q)"
    and "out = Logged \<longleftrightarrow> res = Inr ()"
  using assms by (cases out; auto simp: dlq_record_def dlq_log_def update_fresh)+

lemma dead_ids: "fst ` set (dlq_entries (g_dlq g)) \<subseteq> cg_ids g"
  by (force simp: cg_ids_def cg_msgs_def cg_dead_def)

lemma dlq_wf_snoc: "dlq_wf es \<Longrightarrow> dl_id d \<notin> fst ` set es \<Longrightarrow> dlq_wf (es @ [(dl_id d, d)])"
  using dlq_wf_update [of es d "dl_id d"] by (simp add: update_fresh)

lemma resolve_effect:
  assumes "cg_inv g" and "i \<notin> cg_ids g" and "owns (g_dedup g) i key"
    and "resolve_failed_delivery env i item dc key cp reason g = (res, g')"
  shows "cg_msgs g' = add_mset (i, key, item) (cg_msgs g) \<or> (cg_msgs g' = cg_msgs g \<and> res \<noteq> Inr ())"
    and "cg_inv g'" and "g_dedup g' = g_dedup g"
proof -
  have "(cg_msgs g' = add_mset (i, key, item) (cg_msgs g) \<or> (cg_msgs g' = cg_msgs g \<and> res \<noteq> Inr ()))
    \<and> cg_inv g' \<and> g_dedup g' = g_dedup g"
  proof (cases "is_exhausted (g_retry_policy g) dc")
    case True
    let ?d = "\<lparr> dl_id = i, dl_idempotency_key = key, dl_item = item, dl_delivery_count = dc,
      dl_last_error = reason, dl_dead_lettered_at = re_timestamp env, dl_checkpoint = cp, dl_triage = None \<rparr>"
    obtain r q where rec: "dlq_record ?d (re_dlq_out env) (g_dlq g) = (r, q)" by fastforce
    have fresh: "dl_id ?d \<notin> fst ` set (dlq_entries (g_dlq g))" using assms(2) dead_ids [of g] by auto
    note dlq = dlq_record_fresh [OF rec fresh]
    show ?thesis
    proof (cases "re_dlq_out env = Logged")
      case logged: True
      then have entries: "dlq_entries q = dlq_entries (g_dlq g) @ [(i, ?d)]" and r: "r = Inr ()"
        using dlq by simp_all
      let ?g1 = "g \<lparr> g_dlq := q \<rparr>"
      have msgs: "cg_msgs ?g1 = add_mset (i, key, item) (cg_msgs g)"
        by (simp add: cg_msgs_def cg_live_def cg_dead_def entries)
      have "dlq_wf (dlq_entries q)"
        using dlq_wf_snoc [of _ ?d] fresh assms(1) by (simp add: entries cg_inv_def)
      then have inv: "cg_inv ?g1"
        using assms(1-3) msgs by (intro cg_inv_add [of g ?g1 i key item]) simp_all
      have "g' = ?g1 \<or> g' = ?g1 \<lparr> g_wal := g_wal g @ [CgDeadLettered i] \<rparr>"
        using assms(4) True rec r
        by (cases rule: cg_log_cases [of "re_wal_out env" "CgDeadLettered i" ?g1])
          (auto simp: resolve_failed_delivery_def)
      then show ?thesis using inv msgs by auto
    next
      case False
      then have "dlq_entries q = dlq_entries (g_dlq g)" and "r \<noteq> Inr ()" using dlq by auto
      moreover then obtain e where "r = Inl e" by (cases r) auto
      ultimately show ?thesis
        using assms(1,4) True rec
        by (auto simp: resolve_failed_delivery_def cg_inv_def cg_msgs_def cg_live_def cg_dead_def)
    qed
  next
    case retry: False
    show ?thesis
    proof (cases "delay_for (re_draw env) (g_retry_policy g) dc")
      case None
      with retry assms(1,4) show ?thesis by (auto simp: resolve_failed_delivery_def)
    next
      case (Some delay)
      then have g': "g' = g \<lparr> g_delayed := g_delayed g @ [\<lparr> d_id = i, d_item = item, d_delivery_count = dc,
          d_available_at = re_now env + delay, d_key = key, d_checkpoint = cp \<rparr>] \<rparr>"
        using retry assms(4) by (auto simp: resolve_failed_delivery_def)
      then have msgs: "cg_msgs g' = add_mset (i, key, item) (cg_msgs g)"
        by (simp add: cg_msgs_def cg_live_def cg_dead_def)
      then have "cg_inv g'"
        using assms(1-3) g' by (intro cg_inv_add [of g g' i key item]) (simp_all add: cg_inv_def)
      then show ?thesis using msgs g' by simp
    qed
  qed
  then show "cg_msgs g' = add_mset (i, key, item) (cg_msgs g) \<or> (cg_msgs g' = cg_msgs g \<and> res \<noteq> Inr ())"
    and "cg_inv g'" and "g_dedup g' = g_dedup g" by blast+
qed

lemma nack_inv: "cg_inv g \<Longrightarrow> cg_inv (snd (cg_nack env i token reason g))"
proof (cases "take_lease i token g")
  case (Pair lease g')
  assume inv: "cg_inv g"
  show ?thesis
  proof (cases lease)
    case None
    then have "g' = g" using Pair by (auto simp: take_lease_def split: option.splits if_splits)
    with None Pair inv show ?thesis by (simp add: cg_nack_def)
  next
    case (Some l)
    note eff = take_lease_effect [OF inv Pair [unfolded Some]]
    obtain res g'' where res: "resolve_failed_delivery env i (l_item l) (l_delivery_count l) (l_key l)
        (l_checkpoint l) reason g' = (res, g'')" by fastforce
    from resolve_effect(2) [OF eff(2,3) _ res] have "cg_inv g''" using eff(4,6) by simp
    then show ?thesis
      using Pair Some res by (auto simp: cg_nack_def split: sum.splits)
  qed
qed


section \<open>The sweep and the claim\<close>

definition lease_msg :: "message_id \<times> ('a, 'v) leased \<Rightarrow> 'a msg" where
  "lease_msg il = (fst il, l_key (snd il), l_item (snd il))"

lemma fold_delete: "fold AList.delete ids m = filter (\<lambda>kv. fst kv \<notin> set ids) m"
proof (induction ids arbitrary: m)
  case (Cons i ids)
  show ?case unfolding fold.simps comp_def Cons by (auto simp: AList.delete_eq case_prod_beta intro!: filter_cong)
qed (simp add: filter_True)

lemma filter_expired:
  assumes "hm_wf m"
  shows "filter (\<lambda>kv. fst kv \<notin> fst ` set (filter P (hm_iter rank m))) m = filter (\<lambda>kv. \<not> P kv) m"
proof (rule filter_cong [OF refl])
  fix kv assume kv: "kv \<in> set m"
  have "fst kv \<in> fst ` set (filter P (hm_iter rank m)) \<longleftrightarrow> P kv"
  proof
    assume "fst kv \<in> fst ` set (filter P (hm_iter rank m))"
    then obtain kv' where "kv' \<in> set m" "P kv'" "fst kv' = fst kv" by auto
    moreover from this kv have "kv' = kv"
      using assms by (auto simp: hm_wf_def distinct_map dest: inj_onD)
    ultimately show "P kv" by simp
  qed (use kv in auto)
  then show "(fst kv \<notin> fst ` set (filter P (hm_iter rank m))) = (\<not> P kv)" by simp
qed

lemma lease_msg_alt: "(\<lambda>(i, l). (i, l_key l, l_item l)) = lease_msg"
  by (auto simp: lease_msg_def)

lemma cg_msgs_remove_leases:
  assumes "hm_wf (g_leased g)" and "expired = expired_leases rank now g"
  shows "cg_msgs g = cg_msgs (remove_leases (map fst expired) g) + mset (map lease_msg expired)"
proof -
  let ?P = "\<lambda>(_, lease). l_expires_at lease \<le> now"
  have "fold AList.delete (map fst expired) (g_leased g) = filter (\<lambda>kv. \<not> ?P kv) (g_leased g)"
    unfolding fold_delete assms(2) expired_leases_def set_map by (rule filter_expired [OF assms(1)])
  moreover have "mset expired = filter_mset ?P (mset (g_leased g))"
    by (simp add: assms(2) expired_leases_def flip: mset_filter) (simp add: mset_filter)
  ultimately have "mset (g_leased g) = mset (g_leased (remove_leases (map fst expired) g)) + mset expired"
    by (simp add: remove_leases_def mset_filter multiset_partition [symmetric] add.commute)
  then have "mset (map lease_msg (g_leased g)) =
      mset (map lease_msg (g_leased (remove_leases (map fst expired) g))) + mset (map lease_msg expired)"
    by (simp flip: image_mset_union)
  then show ?thesis
    by (simp add: cg_msgs_def cg_live_def cg_dead_def lease_msg_alt) (simp add: remove_leases_def)
qed

lemma resolve_all_effect:
  assumes "cg_inv g" and "unique_ids (cg_msgs g + mset (map lease_msg expired))"
    and "\<forall>il\<in>set expired. owns (g_dedup g) (fst il) (l_key (snd il))"
    and "resolve_all env expired g = (res, g')"
  shows "cg_inv g' \<and> g_dedup g' = g_dedup g \<and> cg_msgs g \<subseteq># cg_msgs g' \<and>
    cg_msgs g' \<subseteq># cg_msgs g + mset (map lease_msg expired)"
  using assms
proof (induction expired arbitrary: g)
  case Nil
  then show ?case by simp
next
  case (Cons il expired)
  obtain i l where il: "il = (i, l)" by (cases il)
  let ?m = "(i, l_key l, l_item l)"
  have m: "lease_msg il = ?m" by (simp add: il lease_msg_def)
  obtain r g1 where res: "resolve_failed_delivery (env i) i (l_item l) (l_delivery_count l) (l_key l)
      (l_checkpoint l) (Some ''visibility timeout expired'') g = (r, g1)" by fastforce
  have "unique_ids (add_mset ?m (cg_msgs g))"
    using Cons.prems(2) by (rule unique_ids_subset [rotated]) (simp add: m)
  then have i: "i \<notin> cg_ids g" by (auto simp: unique_ids_add cg_ids_def)
  have own: "owns (g_dedup g) i (l_key l)" using Cons.prems(3) by (simp add: il)
  note eff = resolve_effect [OF Cons.prems(1) i own res]
  have low: "cg_msgs g \<subseteq># cg_msgs g1" and up: "cg_msgs g1 \<subseteq># add_mset ?m (cg_msgs g)"
    using eff(1) by auto
  show ?case
  proof (cases "r = Inl CgPanic")
    case True
    then have "g' = g1" using Cons.prems(4) res il by simp
    moreover have "add_mset ?m (cg_msgs g) \<subseteq># cg_msgs g + mset (map lease_msg (il # expired))"
      by (simp add: m)
    ultimately show ?thesis
      using eff(2,3) low up by (auto intro: subset_mset.order_trans)
  next
    case False
    then have rest: "resolve_all env expired g1 = (res, g')"
      using Cons.prems(4) res il by (auto split: sum.splits cg_error.splits)
    have sub: "cg_msgs g1 + mset (map lease_msg expired) \<subseteq># cg_msgs g + mset (map lease_msg (il # expired))"
      using subset_mset.add_right_mono [OF up, of "mset (map lease_msg expired)"] by (simp add: m)
    have "unique_ids (cg_msgs g1 + mset (map lease_msg expired))"
      by (rule unique_ids_subset [OF sub Cons.prems(2)])
    from Cons.IH [OF eff(2) this _ rest] Cons.prems(3) eff(3)
    have "cg_inv g'" "g_dedup g' = g_dedup g" "cg_msgs g1 \<subseteq># cg_msgs g'"
      "cg_msgs g' \<subseteq># cg_msgs g1 + mset (map lease_msg expired)" by simp_all
    with low sub show ?thesis by (auto intro: subset_mset.order_trans)
  qed
qed

lemma expired_taken_out:
  assumes "cg_inv g" and "expired = expired_leases rank now g" and "g1 = remove_leases (map fst expired) g"
  shows "cg_msgs g = cg_msgs g1 + mset (map lease_msg expired)" and "cg_inv g1"
    and "unique_ids (cg_msgs g1 + mset (map lease_msg expired))"
    and "\<forall>il\<in>set expired. owns (g_dedup g1) (fst il) (l_key (snd il))"
proof -
  show msgs: "cg_msgs g = cg_msgs g1 + mset (map lease_msg expired)"
    unfolding assms(3) by (rule cg_msgs_remove_leases [OF cg_inv_leased [OF assms(1)] assms(2)])
  show "cg_inv g1"
    using assms(1) unique_ids_subset [of "cg_msgs g1" "cg_msgs g"] keys_registered_subset [of "cg_msgs g1" "cg_msgs g"]
    by (simp add: msgs cg_inv_def) (simp add: assms(3) remove_leases_def)
  show "unique_ids (cg_msgs g1 + mset (map lease_msg expired))"
    using assms(1) by (simp add: cg_inv_def msgs)
  show "\<forall>il\<in>set expired. owns (g_dedup g1) (fst il) (l_key (snd il))"
  proof
    fix il assume "il \<in> set expired"
    then have "lease_msg il \<in># cg_msgs g" by (simp add: msgs)
    then show "owns (g_dedup g1) (fst il) (l_key (snd il))"
      using cg_inv_owns [OF assms(1)] by (simp add: lease_msg_def assms(3) remove_leases_def)
  qed
qed

lemma reclaim_effect:
  assumes "cg_inv g" and "reclaim_expired_leases rank now env g = (res, g')"
  shows "cg_inv g'" and "cg_msgs g' \<subseteq># cg_msgs g" and "g_dedup g' = g_dedup g"
proof -
  define expired where "expired = expired_leases rank now g"
  define g1 where "g1 = remove_leases (map fst expired) g"
  note out = expired_taken_out [OF assms(1) expired_def g1_def]
  have "cg_inv g' \<and> cg_msgs g' \<subseteq># cg_msgs g \<and> g_dedup g' = g_dedup g"
  proof (cases "expired = []")
    case True
    then show ?thesis using assms by (simp add: reclaim_expired_leases_def expired_def)
  next
    case False
    obtain r g2 where r: "resolve_all env expired g1 = (r, g2)" by fastforce
    have "g' = g2 \<or> g' = cg_notify NotifyWaiters g2"
      using assms(2) False r
      by (auto simp: reclaim_expired_leases_def Let_def g1_def simp flip: expired_def split: sum.splits)
    with resolve_all_effect [OF out(2-4) r] out(1) show ?thesis
      by (auto simp: g1_def remove_leases_def)
  qed
  then show "cg_inv g'" and "cg_msgs g' \<subseteq># cg_msgs g" and "g_dedup g' = g_dedup g" by blast+
qed

lemma cg_msgs_promote [simp]: "cg_msgs (promote_ready_delayed now g) = cg_msgs g"
proof -
  have "mset (g_delayed g) = mset (filter (\<lambda>d. d_available_at d \<le> now) (g_delayed g))
      + mset (filter (\<lambda>d. \<not> d_available_at d \<le> now) (g_delayed g))"
    by (simp add: mset_filter multiset_partition [symmetric])
  then have "mset (map (\<lambda>d. (d_id d, d_key d, d_item d)) (g_delayed g)) =
      mset (map (\<lambda>d. (d_id d, d_key d, d_item d)) (filter (\<lambda>d. d_available_at d \<le> now) (g_delayed g)))
      + mset (map (\<lambda>d. (d_id d, d_key d, d_item d)) (filter (\<lambda>d. \<not> d_available_at d \<le> now) (g_delayed g)))"
    by (simp flip: image_mset_union)
  then show ?thesis
    by (simp add: cg_msgs_def cg_live_def cg_dead_def promote_ready_delayed_def comp_def)
qed

lemma promote_inv [simp]: "cg_inv (promote_ready_delayed now g) = cg_inv g"
  by (rule cg_inv_cong [OF cg_msgs_promote]) (simp_all add: promote_ready_delayed_def)

lemma pending_not_leased:
  assumes "cg_inv g" and "p \<in> set (g_pending g)"
  shows "p_id p \<notin> fst ` set (g_leased g)"
proof -
  have "unique_ids (mset (map (\<lambda>p. (p_id p, p_key p, p_item p)) (g_pending g)) +
      mset (map lease_msg (g_leased g)))"
    using assms(1) unfolding cg_inv_def
    by (elim conjE, elim unique_ids_subset [rotated])
      (simp add: cg_msgs_def cg_live_def lease_msg_alt subset_mset.add_increasing2)
  moreover have "{#(p_id p, p_key p, p_item p)#} \<subseteq># mset (map (\<lambda>p. (p_id p, p_key p, p_item p)) (g_pending g))"
    using assms(2) by (force simp: single_subset_iff)
  then have "add_mset (p_id p, p_key p, p_item p) (mset (map lease_msg (g_leased g))) \<subseteq>#
      mset (map (\<lambda>p. (p_id p, p_key p, p_item p)) (g_pending g)) + mset (map lease_msg (g_leased g))"
    using subset_mset.add_right_mono [of "{#(p_id p, p_key p, p_item p)#}"] by fastforce
  ultimately have "unique_ids (add_mset (p_id p, p_key p, p_item p) (mset (map lease_msg (g_leased g))))"
    by (rule unique_ids_subset [rotated])
  then show ?thesis by (force simp: unique_ids_add lease_msg_def)
qed

lemma grant_lease_effect:
  assumes "cg_inv g" and "g_pending g = p # rest"
  shows "cg_msgs (grant_lease now p rest g) = cg_msgs g" and "cg_inv (grant_lease now p rest g)"
proof -
  have "p_id p \<notin> fst ` set (g_leased g)"
    using pending_not_leased [OF assms(1)] assms(2) by simp
  then show msgs: "cg_msgs (grant_lease now p rest g) = cg_msgs g"
    by (simp add: grant_lease_def cg_msgs_def cg_live_def cg_dead_def assms(2) update_fresh)
  show "cg_inv (grant_lease now p rest g)"
    using assms(1) cg_inv_cong [OF msgs] by (simp add: grant_lease_def)
qed

lemma claim_effect:
  assumes "cg_inv g" and "claim_pass display env g = (res, g')"
  shows "cg_inv g'" and "cg_msgs g' \<subseteq># cg_msgs g"
proof -
  obtain r g1 where r: "reclaim_expired_leases (ce_rank env) (ce_reclaim_now env) (ce_resolve env) g = (r, g1)"
    by fastforce
  note eff = reclaim_effect [OF assms(1) r]
  let ?g2 = "promote_ready_delayed (ce_promote_now env) g1"
  have inv2: "cg_inv ?g2" and msgs2: "cg_msgs ?g2 \<subseteq># cg_msgs g" using eff by simp_all
  have "g' = g1 \<or> g' = ?g2 \<or> (\<exists>p rest. g_pending ?g2 = p # rest \<and>
      g' = cg_notify NotifyOne (grant_lease (ce_lease_now env) p rest ?g2))"
    using assms(2) r by (auto simp: claim_pass_def Let_def split: sum.splits list.splits option.splits)
  then show "cg_inv g'" and "cg_msgs g' \<subseteq># cg_msgs g"
    using eff inv2 msgs2 grant_lease_effect [OF inv2] by auto
qed


section \<open>The other calls\<close>

lemma map_update_same:
  "map_of m i = Some x \<Longrightarrow> f (i, y) = f (i, x) \<Longrightarrow> map f (AList.update i y m) = map f m"
  by (induction m) auto

lemma cg_msgs_update_lease:
  assumes "map_of (g_leased g) i = Some l" and "l_key l' = l_key l" and "l_item l' = l_item l"
  shows "cg_msgs (g \<lparr> g_leased := AList.update i l' (g_leased g) \<rparr>) = cg_msgs g"
proof -
  have "map lease_msg (AList.update i l' (g_leased g)) = map lease_msg (g_leased g)"
    using assms by (intro map_update_same [OF assms(1)]) (simp add: lease_msg_def)
  then show ?thesis by (simp add: cg_msgs_def cg_live_def cg_dead_def lease_msg_alt)
qed

lemma checkpoint_inv: "cg_inv g \<Longrightarrow> cg_inv (snd (cg_checkpoint i token v out g))"
proof (cases "map_of (g_leased g) i")
  case (Some l)
  assume inv: "cg_inv g"
  have "cg_inv (g \<lparr> g_wal := w, g_leased := AList.update i (l \<lparr> l_checkpoint := Some v \<rparr>) (g_leased g) \<rparr>)" for w
    using inv cg_msgs_update_lease [of "g \<lparr> g_wal := w \<rparr>" i l "l \<lparr> l_checkpoint := Some v \<rparr>"] Some
    by (subst cg_inv_cong [of _ g]) simp_all
  then show ?thesis
    using inv Some
    by (cases rule: cg_log_cases [of out "CgCheckpoint i v" g])
      (simp_all add: cg_checkpoint_def checkpoint_lease_def update_lease_def holds_lease_def)
qed (simp add: cg_checkpoint_def holds_lease_def)

lemma publish_inv: "cg_inv g \<Longrightarrow> cg_inv (snd (publish_partial_result i token v final g))"
proof (cases "map_of (g_leased g) i")
  case (Some l)
  assume inv: "cg_inv g"
  have "cg_inv (g \<lparr> g_leased := AList.update i (l \<lparr> l_stream := st \<rparr>) (g_leased g) \<rparr>)" for st
    using inv cg_msgs_update_lease [of g i l "l \<lparr> l_stream := st \<rparr>"] Some
    by (subst cg_inv_cong [of _ g]) simp_all
  then show ?thesis
    using inv Some by (simp add: publish_partial_result_def Let_def)
qed (simp add: publish_partial_result_def)

text \<open>The dead-letter queue of the group.\<close>

definition letter_msg :: "message_id \<times> ('a, 'v) dead_letter \<Rightarrow> 'a msg" where
  "letter_msg kd = (fst kd, dl_idempotency_key (snd kd), dl_item (snd kd))"

lemma letter_msg_alt: "(\<lambda>(i, d). (i, dl_idempotency_key d, dl_item d)) = letter_msg"
  by (auto simp: letter_msg_def)

lemma annotate_inv: "cg_inv g \<Longrightarrow> cg_inv (snd (annotate_dead_letter i v out g))"
proof (cases "map_of (dlq_entries (g_dlq g)) i")
  case (Some d)
  assume inv: "cg_inv g"
  let ?es = "AList.update i (d \<lparr> dl_triage := Some v \<rparr>) (dlq_entries (g_dlq g))"
  obtain res q where q: "dlq_annotate i v out (g_dlq g) = (res, q)" by fastforce
  then have es: "dlq_entries q = dlq_entries (g_dlq g) \<or> dlq_entries q = ?es"
    using Some by (cases out) (auto simp: dlq_annotate_def dlq_log_def dlq_annotate_entry_def)
  have "map letter_msg ?es = map letter_msg (dlq_entries (g_dlq g))"
    by (rule map_update_same [OF Some]) (simp add: letter_msg_def)
  then have "map letter_msg (dlq_entries q) = map letter_msg (dlq_entries (g_dlq g))"
    using es by auto
  then have "cg_msgs (g \<lparr> g_dlq := q \<rparr>) = cg_msgs g"
    by (simp add: cg_msgs_def cg_live_def cg_dead_def letter_msg_alt del: mset_map)
  moreover have "dlq_wf (dlq_entries q)"
  proof -
    have wf: "dlq_wf (dlq_entries (g_dlq g))" using inv by (simp add: cg_inv_def)
    then have "dl_id d = i" using Some by (simp add: dlq_wf_def)
    then have "dlq_wf ?es" using wf by (intro dlq_wf_update) simp_all
    with wf es show ?thesis by metis
  qed
  ultimately show ?thesis
    using inv q by (simp add: annotate_dead_letter_def cg_inv_def)
qed (simp add: annotate_dead_letter_def dlq_annotate_def)

lemma dlq_take_effect:
  assumes "cg_inv g" and "dlq_take i out (g_dlq g) = (res, q)"
  obtains (absent) "res = Inr None" "q = g_dlq g" "map_of (dlq_entries (g_dlq g)) i = None"
  | (taken) d where "res = Inr (Some d) \<or> (\<exists>e. res = Inl e)" "dl_id d = i" "out = Logged \<longleftrightarrow> res = Inr (Some d)"
      "map_of (dlq_entries (g_dlq g)) i = Some d"
      "cg_msgs g = add_mset (i, dl_idempotency_key d, dl_item d) (cg_msgs (g \<lparr> g_dlq := q \<rparr>))"
      "cg_inv (g \<lparr> g_dlq := q \<rparr>)" "i \<notin> cg_ids (g \<lparr> g_dlq := q \<rparr>)" "owns (g_dedup g) i (dl_idempotency_key d)"
proof (cases "map_of (dlq_entries (g_dlq g)) i")
  case None
  with assms(2) absent show thesis by (simp add: dlq_take_def)
next
  case (Some d)
  have wf: "hm_wf (dlq_entries (g_dlq g))" and idd: "dl_id d = i"
    using assms(1) Some by (auto simp: cg_inv_def dlq_wf_def)
  have q: "dlq_entries q = AList.delete i (dlq_entries (g_dlq g))"
    and res: "res = Inr (Some d) \<or> (\<exists>e. res = Inl e)" "out = Logged \<longleftrightarrow> res = Inr (Some d)"
    using assms(2) Some by (cases out; auto simp: dlq_take_def dlq_log_def)+
  have msgs: "cg_msgs g = add_mset (i, dl_idempotency_key d, dl_item d) (cg_msgs (g \<lparr> g_dlq := q \<rparr>))"
    using mset_delete [OF wf Some] by (simp add: cg_msgs_def cg_live_def cg_dead_def q)
  have "unique_ids (add_mset (i, dl_idempotency_key d, dl_item d) (cg_msgs (g \<lparr> g_dlq := q \<rparr>)))"
    using assms(1) msgs by (simp add: cg_inv_def)
  then have u: "unique_ids (cg_msgs (g \<lparr> g_dlq := q \<rparr>))" "i \<notin> cg_ids (g \<lparr> g_dlq := q \<rparr>)"
    by (auto simp: unique_ids_add cg_ids_def)
  have "cg_inv (g \<lparr> g_dlq := q \<rparr>)"
    using assms(1) u msgs by (simp add: cg_inv_def keys_registered_def q dlq_wf_delete)
  moreover have "owns (g_dedup g) i (dl_idempotency_key d)"
    by (rule cg_inv_owns [OF assms(1), of _ _ "dl_item d"]) (simp add: msgs)
  ultimately show thesis using taken res idd Some msgs u(2) by blast
qed

lemma reprocess_inv: "cg_inv g \<Longrightarrow> cg_inv (snd (reprocess_dead_letter i dlq_out out g))"
proof -
  assume inv: "cg_inv g"
  obtain res q where q: "dlq_take i dlq_out (g_dlq g) = (res, q)" by fastforce
  from inv q show ?thesis
  proof (cases rule: dlq_take_effect)
    case absent
    then show ?thesis using inv q by (simp add: reprocess_dead_letter_def)
  next
    case (taken d)
    have "cg_inv (snd (write_enqueue_record i (dl_item d) (dl_idempotency_key d) out (g \<lparr> g_dlq := q \<rparr>)))"
      using taken by (intro write_enqueue_inv) simp_all
    then show ?thesis
      using taken q by (auto simp: reprocess_dead_letter_def split: prod.splits sum.splits)
  qed
qed

lemma purge_inv: "cg_inv g \<Longrightarrow> cg_inv (snd (purge_dead_letter i dlq_out g))"
proof -
  assume inv: "cg_inv g"
  obtain res q where q: "dlq_take i dlq_out (g_dlq g) = (res, q)" by fastforce
  from inv q show ?thesis
  proof (cases rule: dlq_take_effect)
    case absent
    then show ?thesis using inv q by (simp add: purge_dead_letter_def)
  next
    case (taken d)
    have "cg_inv (release_key (dl_idempotency_key d) (g \<lparr> g_dlq := q \<rparr>))"
      using taken by (intro release_key_inv [of _ i]) simp_all
    then show ?thesis using taken q by (auto simp: purge_dead_letter_def)
  qed
qed

section \<open>Calls\<close>

datatype ('a, 'v) cg_call =
  GEnqueue message_id 'a "idempotency_key option" log_outcome
| GClaim claim_env
| GAck message_id lease_token log_outcome
| GNack resolve_env message_id lease_token "string option"
| GCheckpoint message_id lease_token 'v log_outcome
| GPublish message_id lease_token 'v bool
| GAnnotate message_id triage_verdict log_outcome
| GReprocess message_id log_outcome log_outcome
| GPurge message_id log_outcome

fun cg_step :: "(128 word \<Rightarrow> string) \<Rightarrow> ('a, 'v) cg_call \<Rightarrow> ('a, 'v) group \<Rightarrow> ('a, 'v) group" where
  "cg_step display (GEnqueue i item key out) g = snd (enqueue_with_id_and_key i item key out g)"
| "cg_step display (GClaim env) g = snd (claim_pass display env g)"
| "cg_step display (GAck i token out) g = snd (cg_ack i token out g)"
| "cg_step display (GNack env i token reason) g = snd (cg_nack env i token reason g)"
| "cg_step display (GCheckpoint i token v out) g = snd (cg_checkpoint i token v out g)"
| "cg_step display (GPublish i token v final) g = snd (publish_partial_result i token v final g)"
| "cg_step display (GAnnotate i v out) g = snd (annotate_dead_letter i v out g)"
| "cg_step display (GReprocess i dlq_out out) g = snd (reprocess_dead_letter i dlq_out out g)"
| "cg_step display (GPurge i dlq_out) g = snd (purge_dead_letter i dlq_out g)"

text \<open>An enqueue uses a fresh identifier.\<close>

fun fresh_call :: "('a, 'v) cg_call \<Rightarrow> ('a, 'v) group \<Rightarrow> bool" where
  "fresh_call (GEnqueue i item key out) g \<longleftrightarrow> i \<notin> cg_ids g"
| "fresh_call _ g \<longleftrightarrow> True"

inductive cg_reach ::
  "(128 word \<Rightarrow> string) \<Rightarrow> ('a, 'v) group \<Rightarrow> ('a, 'v) group \<Rightarrow> bool" for display g0 where
  start: "cg_reach display g0 g0"
| call: "cg_reach display g0 g \<Longrightarrow> fresh_call c g \<Longrightarrow> cg_reach display g0 (cg_step display c g)"

lemma cg_step_inv: "cg_inv g \<Longrightarrow> fresh_call c g \<Longrightarrow> cg_inv (cg_step display c g)"
proof (cases c)
  case (GClaim env)
  assume "cg_inv g"
  then show ?thesis using GClaim claim_effect(1) [of g display env] by (metis cg_step.simps(2) prod.collapse)
qed (simp_all add: enqueue_inv ack_inv nack_inv checkpoint_inv publish_inv annotate_inv reprocess_inv purge_inv)

lemma cg_reach_inv: "cg_reach display g0 g \<Longrightarrow> cg_inv g0 \<Longrightarrow> cg_inv g"
  by (induction rule: cg_reach.induct) (auto intro: cg_step_inv)

section \<open>A small run\<close>

text \<open>A group that dead-letters at the first failure, one message, and the message leased.\<close>

definition sample_policy :: retry_policy where
  "sample_policy = retry_DEFAULT \<lparr> max_attempts := Some 1 \<rparr>"

definition sample_group :: "(string, string) group" where
  "sample_group =
     \<lparr> g_pending = [], g_leased = [], g_delayed = [], g_dedup = Map.empty, g_wal = [],
       g_dlq = \<lparr> dlq_entries = [], dlq_wal = [] \<rparr>, g_visibility_timeout = from_secs 30,
       g_retry_policy = sample_policy, g_next_lease_token = 0, g_changed = [] \<rparr>"

definition sample_display :: "128 word \<Rightarrow> string" where
  "sample_display u = ''id''"

definition sample_resolve :: resolve_env where
  "sample_resolve =
     \<lparr> re_draw = Fin 0, re_now = 0, re_timestamp = Timestamp 7, re_dlq_out = Logged, re_wal_out = Logged \<rparr>"

definition sample_claim :: "instant \<Rightarrow> claim_env" where
  "sample_claim now =
     \<lparr> ce_rank = (\<lambda>_. 0), ce_reclaim_now = now, ce_resolve = (\<lambda>_. sample_resolve), ce_promote_now = now,
       ce_lease_now = now \<rparr>"

definition sample_enqueued :: "(string, string) group" where
  "sample_enqueued =
     cg_step sample_display (GEnqueue (MessageId 1) ''job'' (Some (IdempotencyKey ''k'')) Logged) sample_group"

definition sample_leased :: "(string, string) group" where
  "sample_leased = cg_step sample_display (GClaim (sample_claim 0)) sample_enqueued"

lemma sample_open: "cg_open (from_secs 30) sample_policy (\<lambda>_. 0) (Inr []) (Inr []) = Inr sample_group"
  by (simp add: sample_group_def cg_open_def cg_replay_def dlq_open_def dlq_replay_def dlq_ids_and_keys_def
      hm_iter_def seed_dedup_def)

lemma sample_enqueued_eq:
  "sample_enqueued = sample_group
     \<lparr> g_pending := [fresh_pending (MessageId 1) ''job'' (Some (IdempotencyKey ''k''))],
       g_dedup := [IdempotencyKey ''k'' \<mapsto> MessageId 1],
       g_wal := [CgEnqueue (MessageId 1) (Some (IdempotencyKey ''k'')) ''job''], g_changed := [NotifyOne] \<rparr>"
  by (simp add: sample_enqueued_def sample_group_def enqueue_with_id_and_key_def reserve_key_def
      write_enqueue_record_def cg_log_def push_pending_def cg_notify_def)

definition sample_lease :: "(string, string) leased" where
  "sample_lease =
     \<lparr> l_item = ''job'', l_token = LeaseToken 0, l_expires_at = from_secs 30, l_delivery_count = 1,
       l_key = Some (IdempotencyKey ''k''), l_checkpoint = None, l_stream = [] \<rparr>"

lemma sample_leased_eq:
  "sample_leased = sample_enqueued
     \<lparr> g_pending := [], g_leased := [(MessageId 1, sample_lease)], g_next_lease_token := 1,
       g_changed := [NotifyOne, NotifyOne] \<rparr>"
  by (simp add: sample_leased_def sample_enqueued_eq sample_group_def sample_claim_def sample_lease_def
      claim_pass_def reclaim_expired_leases_def expired_leases_def hm_iter_def promote_ready_delayed_def
      grant_lease_def effective_idempotency_key_def fresh_pending_def cg_notify_def)

lemma sample_reach_enqueued: "cg_reach sample_display sample_group sample_enqueued"
  unfolding sample_enqueued_def
  by (rule cg_reach.call [OF cg_reach.start])
    (simp add: sample_group_def cg_ids_def cg_msgs_def cg_live_def cg_dead_def)

lemma sample_reach_leased: "cg_reach sample_display sample_group sample_leased"
  unfolding sample_leased_def by (rule cg_reach.call [OF sample_reach_enqueued]) simp

lemma sample_live:
  "cg_live sample_leased = [(MessageId 1, Some (IdempotencyKey ''k''), ''job'')]" "cg_dead sample_leased = []"
  by (simp_all add: sample_leased_eq sample_enqueued_eq sample_group_def sample_lease_def cg_live_def cg_dead_def)

end
