(* ===== verification/Group_Properties.thy ===== *)
theory Group_Properties
  imports Group_Invariants
begin

text \<open>
  The properties of the consumer group while a process runs: uniqueness of identifiers and keys,
  deduplication and conservation of messages.
\<close>

section \<open>Identifiers and keys\<close>

lemma cg_open_empty:
  "cg_open vt rp rank (Inr []) (Inr []) = Inr g0 \<Longrightarrow> cg_inv g0"
  by (auto simp: cg_open_def cg_replay_def dlq_open_def dlq_replay_def cg_inv_def cg_msgs_def cg_live_def
      cg_dead_def unique_ids_def keys_registered_def)

text \<open>
  In every state a group reaches from empty logs by calls with fresh identifiers, whatever the
  log writes do, every message is in one place: no identifier occurs twice among the pending,
  leased, delayed and dead-lettered messages, and no two of them have the same idempotency key.
\<close>

lemma group_messages_unique:
  assumes "cg_open vt rp rank (Inr []) (Inr []) = Inr g0" and "cg_reach display g0 g"
  shows "distinct (map fst (cg_live g @ cg_dead g)) \<and>
    (\<forall>i j k x y. (i, Some k, x) \<in> set (cg_live g @ cg_dead g) \<and> (j, Some k, y) \<in> set (cg_live g @ cg_dead g) \<longrightarrow> i = j)"
proof -
  have inv: "cg_inv g" using cg_reach_inv [OF assms(2) cg_open_empty [OF assms(1)]] .
  have msgs: "mset (cg_live g @ cg_dead g) = cg_msgs g" by (simp add: cg_msgs_def)
  have "distinct (map fst (cg_live g @ cg_dead g))"
    using inv by (simp only: cg_inv_def msgs flip: unique_ids_mset)
  moreover have "i = j" if "(i, Some k, x) \<in> set (cg_live g @ cg_dead g)" "(j, Some k, y) \<in> set (cg_live g @ cg_dead g)"
    for i j k x y
    using cg_inv_key [OF inv, of i k x] cg_inv_key [OF inv, of j k y] that
    by (simp only: set_mset_mset [symmetric] msgs) simp
  ultimately show ?thesis by blast
qed

lemma group_messages_unique_witness:
  "cg_reach sample_display sample_group sample_leased \<and> cg_live sample_leased \<noteq> [] \<and>
   distinct (map fst (cg_live sample_leased @ cg_dead sample_leased))"
  using group_messages_unique [OF sample_open sample_reach_leased] sample_reach_leased by (simp add: sample_live)

text \<open>
  Enqueuing with the key of a message that is anywhere in the group, pending, leased, delayed
  or dead-lettered, returns that message's identifier and changes nothing.
\<close>

lemma enqueue_deduplicates:
  assumes "cg_open vt rp rank (Inr []) (Inr []) = Inr g0" and "cg_reach display g0 g"
    and "(i, Some k, x) \<in> set (cg_live g @ cg_dead g)"
  shows "cg_enqueue_with_key fresh_id item k out g = (Inr i, g)"
proof -
  have "cg_inv g" using cg_reach_inv [OF assms(2) cg_open_empty [OF assms(1)]] .
  moreover have "(i, Some k, x) \<in># cg_msgs g" using assms(3) by (auto simp: cg_msgs_def)
  ultimately have "g_dedup g k = Some i" by (rule cg_inv_key)
  then show ?thesis by (simp add: cg_enqueue_with_key_def enqueue_with_id_and_key_def reserve_key_def)
qed

lemma enqueue_deduplicates_witness:
  "cg_enqueue_with_key (MessageId 9) ''again'' (IdempotencyKey ''k'') Logged sample_leased = (Inr (MessageId 1), sample_leased)"
  using enqueue_deduplicates [OF sample_open sample_reach_leased] by (simp add: sample_live)

section \<open>Conservation\<close>

text \<open>Calls whose log writes all succeed and whose random numbers are in the unit interval.\<close>

definition good_resolve :: "resolve_env \<Rightarrow> bool" where
  "good_resolve env \<longleftrightarrow> unit_draw (re_draw env) \<and> re_dlq_out env = Logged \<and> re_wal_out env = Logged"

fun good_call :: "('a, 'v) cg_call \<Rightarrow> bool" where
  "good_call (GEnqueue i item key out) \<longleftrightarrow> out = Logged"
| "good_call (GClaim env) \<longleftrightarrow> (\<forall>i. good_resolve (ce_resolve env i))"
| "good_call (GAck i token out) \<longleftrightarrow> out = Logged"
| "good_call (GNack env i token reason) \<longleftrightarrow> good_resolve env"
| "good_call (GCheckpoint i token v out) \<longleftrightarrow> out = Logged"
| "good_call (GPublish i token v final) \<longleftrightarrow> True"
| "good_call (GAnnotate i v out) \<longleftrightarrow> out = Logged"
| "good_call (GReprocess i dlq_out out) \<longleftrightarrow> dlq_out = Logged \<and> out = Logged"
| "good_call (GPurge i dlq_out) \<longleftrightarrow> dlq_out = Logged"

definition good_policy :: "('a, 'v) group \<Rightarrow> bool" where
  "good_policy g \<longleftrightarrow> max_delay (g_retry_policy g) < from_secs (2 ^ 22)"

lemma sample_good_policy: "good_policy sample_leased"
  by (simp add: good_policy_def sample_leased_eq sample_enqueued_eq sample_group_def sample_policy_def
      retry_DEFAULT_def from_secs_def nanos_per_sec_def)

text \<open>The messages a call adds to the group and takes out of it for good.\<close>

definition added :: "('a, 'v) cg_call \<Rightarrow> ('a, 'v) group \<Rightarrow> 'a msg multiset" where
  "added c g =
     (case c of
        GEnqueue i item key out \<Rightarrow>
          (case key of
             None \<Rightarrow> {#(i, key, item)#}
           | Some k \<Rightarrow> if g_dedup g k = None then {#(i, key, item)#} else {#})
      | _ \<Rightarrow> {#})"

definition removed :: "('a, 'v) cg_call \<Rightarrow> ('a, 'v) group \<Rightarrow> 'a msg multiset" where
  "removed c g =
     (case c of
        GAck i token out \<Rightarrow>
          (case map_of (g_leased g) i of
             None \<Rightarrow> {#}
           | Some l \<Rightarrow> if l_token l = token then {#(i, l_key l, l_item l)#} else {#})
      | GPurge i out \<Rightarrow>
          (case map_of (dlq_entries (g_dlq g)) i of
             None \<Rightarrow> {#}
           | Some d \<Rightarrow> {#(i, dl_idempotency_key d, dl_item d)#})
      | _ \<Rightarrow> {#})"

lemma resolve_policy [simp]:
  "g_retry_policy (snd (resolve_failed_delivery env i item dc key cp reason g)) = g_retry_policy g"
  by (simp add: resolve_failed_delivery_def cg_log_def split: prod.splits sum.splits option.splits)

lemma resolve_good:
  assumes "good_resolve env" and "good_policy g"
  shows "fst (resolve_failed_delivery env i item dc key cp reason g) = Inr ()"
proof -
  have "\<exists>delay. delay_for (re_draw env) (g_retry_policy g) dc = Some delay"
    using delay_for_bounded [of "re_draw env" "g_retry_policy g" dc] assms
    by (auto simp: good_resolve_def good_policy_def)
  then show ?thesis
    using assms(1)
    by (auto simp: resolve_failed_delivery_def good_resolve_def dlq_record_def dlq_log_def cg_log_def)
qed


lemma resolve_all_good:
  assumes "\<forall>i. good_resolve (env i)" and "good_policy g" and "cg_inv g"
    and "unique_ids (cg_msgs g + mset (map lease_msg expired))"
    and "\<forall>il\<in>set expired. owns (g_dedup g) (fst il) (l_key (snd il))"
  shows "fst (resolve_all env expired g) = Inr () \<and>
    cg_msgs (snd (resolve_all env expired g)) = cg_msgs g + mset (map lease_msg expired)"
  using assms(2-5)
proof (induction expired arbitrary: g)
  case Nil
  then show ?case by simp
next
  case (Cons il expired)
  obtain i l where il: "il = (i, l)" by (cases il)
  define res where "res = resolve_failed_delivery (env i) i (l_item l) (l_delivery_count l) (l_key l)
      (l_checkpoint l) (Some ''visibility timeout expired'') g"
  have ok: "res = (Inr (), snd res)"
    using resolve_good [OF assms(1) [rule_format] Cons.prems(1)] by (simp add: res_def prod_eq_iff)
  have "unique_ids (add_mset (i, l_key l, l_item l) (cg_msgs g))"
    using Cons.prems(3) by (rule unique_ids_subset [rotated]) (simp add: il lease_msg_def)
  then have i: "i \<notin> cg_ids g" by (auto simp: unique_ids_add cg_ids_def)
  have own: "owns (g_dedup g) i (l_key l)" using Cons.prems(4) by (simp add: il)
  note eff = resolve_effect [OF Cons.prems(2) i own ok [unfolded res_def]]
  have msgs: "cg_msgs (snd res) = add_mset (lease_msg il) (cg_msgs g)"
    using eff(1) by (simp add: res_def il lease_msg_def)
  have "good_policy (snd res)" using Cons.prems(1) by (simp add: res_def good_policy_def)
  moreover have "unique_ids (cg_msgs (snd res) + mset (map lease_msg expired))"
    using Cons.prems(3) msgs by simp
  ultimately have "fst (resolve_all env expired (snd res)) = Inr () \<and>
      cg_msgs (snd (resolve_all env expired (snd res))) = cg_msgs (snd res) + mset (map lease_msg expired)"
    using eff(2,3) Cons.prems(4) by (intro Cons.IH) (simp_all add: res_def)
  moreover have "resolve_all env (il # expired) g = resolve_all env expired (snd res)"
    using ok by (simp add: il res_def [symmetric]) (metis (no_types, lifting) case_prod_conv old.sum.simps(6))
  ultimately show ?case using msgs by simp
qed


lemma reclaim_good:
  assumes "\<forall>i. good_resolve (env i)" and "good_policy g" and "cg_inv g"
  shows "fst (reclaim_expired_leases rank now env g) = Inr () \<and>
    cg_msgs (snd (reclaim_expired_leases rank now env g)) = cg_msgs g"
proof -
  define expired where "expired = expired_leases rank now g"
  define g1 where "g1 = remove_leases (map fst expired) g"
  note out = expired_taken_out [OF assms(3) expired_def g1_def]
  have "good_policy g1" using assms(2) by (simp add: good_policy_def g1_def remove_leases_def)
  from resolve_all_good [OF assms(1) this out(2-4)] obtain g2 where
    g2: "resolve_all env expired g1 = (Inr (), g2)" "cg_msgs g2 = cg_msgs g1 + mset (map lease_msg expired)"
    by (cases "resolve_all env expired g1") auto
  then show ?thesis
    using out(1) by (simp add: reclaim_expired_leases_def Let_def g1_def flip: expired_def)
qed

lemma claim_good:
  assumes "\<forall>i. good_resolve (ce_resolve env i)" and "good_policy g" and "cg_inv g"
  shows "cg_msgs (snd (claim_pass display env g)) = cg_msgs g"
proof -
  obtain g1 where g1: "reclaim_expired_leases (ce_rank env) (ce_reclaim_now env) (ce_resolve env) g = (Inr (), g1)"
      "cg_msgs g1 = cg_msgs g"
    using reclaim_good [OF assms, of "ce_rank env" "ce_reclaim_now env"]
    by (cases "reclaim_expired_leases (ce_rank env) (ce_reclaim_now env) (ce_resolve env) g") auto
  let ?g2 = "promote_ready_delayed (ce_promote_now env) g1"
  have inv2: "cg_inv ?g2" using reclaim_effect(1) [OF assms(3) g1(1)] by simp
  show ?thesis
    using g1 grant_lease_effect(1) [OF inv2]
    by (auto simp: claim_pass_def Let_def split: list.splits option.splits)
qed

lemma nack_good:
  assumes "good_resolve env" and "good_policy g" and "cg_inv g"
  shows "cg_msgs (snd (cg_nack env i token reason g)) = cg_msgs g"
proof (cases "take_lease i token g")
  case (Pair lease g1)
  show ?thesis
  proof (cases lease)
    case None
    then have "g1 = g" using Pair by (auto simp: take_lease_def split: option.splits if_splits)
    with None Pair show ?thesis by (simp add: cg_nack_def)
  next
    case (Some l)
    note eff = take_lease_effect [OF assms(3) Pair [unfolded Some]]
    define res where "res = resolve_failed_delivery env i (l_item l) (l_delivery_count l) (l_key l)
        (l_checkpoint l) reason g1"
    have "good_policy g1" using assms(2) eff(7) by (simp add: good_policy_def)
    then have ok: "res = (Inr (), snd res)"
      using resolve_good [OF assms(1)] by (simp add: res_def prod_eq_iff)
    have "cg_msgs (snd res) = cg_msgs g"
      using resolve_effect(1) [OF eff(2,3) _ ok [unfolded res_def]] eff(1,4,6) by (simp add: res_def)
    moreover have "cg_nack env i token reason g = (Inr True, cg_notify NotifyOne (snd res))"
      using Pair Some ok by (simp add: cg_nack_def flip: res_def) (metis (no_types, lifting) case_prod_conv old.sum.simps(6))
    ultimately show ?thesis by simp
  qed
qed

lemma ack_good:
  assumes "cg_inv g"
  shows "cg_msgs (snd (cg_ack i token Logged g)) + removed (GAck i token Logged) g = cg_msgs g"
proof (cases "take_lease i token g")
  case (Pair lease g1)
  show ?thesis
  proof (cases lease)
    case None
    then have "g1 = g" "removed (GAck i token Logged) g = {#}"
      using Pair by (auto simp: take_lease_def removed_def split: option.splits if_splits)
    with None Pair show ?thesis by (simp add: cg_ack_def ack_release_def)
  next
    case (Some l)
    then have "removed (GAck i token Logged) g = {#(i, l_key l, l_item l)#}"
      using Pair by (auto simp: take_lease_def removed_def split: option.splits if_splits)
    then show ?thesis
      using take_lease_effect(1) [OF assms Pair [unfolded Some]] Pair Some
      by (simp add: cg_ack_def ack_release_def cg_log_def)
  qed
qed

lemma reprocess_good:
  assumes "cg_inv g"
  shows "cg_msgs (snd (reprocess_dead_letter i Logged Logged g)) = cg_msgs g"
proof -
  obtain res q where q: "dlq_take i Logged (g_dlq g) = (res, q)" by fastforce
  from assms q show ?thesis
  proof (cases rule: dlq_take_effect)
    case absent
    then show ?thesis using q by (simp add: reprocess_dead_letter_def)
  next
    case (taken d)
    then show ?thesis
      using q by (simp add: reprocess_dead_letter_def write_enqueue_record_def cg_log_def cg_msgs_push fresh_pending_def)
  qed
qed

lemma purge_good:
  assumes "cg_inv g"
  shows "cg_msgs (snd (purge_dead_letter i Logged g)) + removed (GPurge i Logged) g = cg_msgs g"
proof -
  obtain res q where q: "dlq_take i Logged (g_dlq g) = (res, q)" by fastforce
  from assms q show ?thesis
  proof (cases rule: dlq_take_effect)
    case absent
    then show ?thesis using q by (simp add: purge_dead_letter_def removed_def)
  next
    case (taken d)
    then show ?thesis using q by (simp add: purge_dead_letter_def removed_def)
  qed
qed

lemma enqueue_good:
  "cg_msgs (snd (enqueue_with_id_and_key i item key Logged g)) = cg_msgs g + added (GEnqueue i item key Logged) g"
  by (auto simp: enqueue_with_id_and_key_def reserve_key_def write_enqueue_record_def cg_log_def added_def
      cg_msgs_push fresh_pending_def split: option.splits)

lemma checkpoint_msgs: "cg_msgs (snd (cg_checkpoint i token v out g)) = cg_msgs g"
proof (cases "map_of (g_leased g) i")
  case (Some l)
  then show ?thesis
    using cg_msgs_update_lease [of "g \<lparr> g_wal := w \<rparr>" i l "l \<lparr> l_checkpoint := Some v \<rparr>" for w]
    by (cases rule: cg_log_cases [of out "CgCheckpoint i v" g])
      (simp_all add: cg_checkpoint_def checkpoint_lease_def update_lease_def holds_lease_def)
qed (simp add: cg_checkpoint_def holds_lease_def)

lemma publish_msgs: "cg_msgs (snd (publish_partial_result i token v final g)) = cg_msgs g"
  using cg_msgs_update_lease [of g i]
  by (auto simp: publish_partial_result_def Let_def split: option.splits)

lemma annotate_msgs: "cg_msgs (snd (annotate_dead_letter i v out g)) = cg_msgs g"
proof (cases "map_of (dlq_entries (g_dlq g)) i")
  case (Some d)
  have "map letter_msg (AList.update i (d \<lparr> dl_triage := Some v \<rparr>) (dlq_entries (g_dlq g))) = map letter_msg (dlq_entries (g_dlq g))"
    by (rule map_update_same [OF Some]) (simp add: letter_msg_def)
  then have "map letter_msg (dlq_entries (snd (dlq_annotate i v out (g_dlq g)))) = map letter_msg (dlq_entries (g_dlq g))"
    using Some by (cases out) (auto simp: dlq_annotate_def dlq_log_def dlq_annotate_entry_def)
  then show ?thesis
    by (simp add: annotate_dead_letter_def cg_msgs_def cg_live_def cg_dead_def letter_msg_alt case_prod_beta del: mset_map)
qed (simp add: annotate_dead_letter_def dlq_annotate_def)

text \<open>
  No message disappears or appears by itself. When the log writes of a call succeed, the
  messages of the group, wherever they are, are afterwards those before, with the one message an
  \<^verbatim>\<open>enqueue\<close> added (none if its key was registered) and without the one a matching \<^verbatim>\<open>ack\<close> or a
  \<^verbatim>\<open>purge_dead_letter\<close> removed; claims, expired leases, retries, dead-lettering, checkpoints,
  annotations and reprocessing keep every message.
\<close>

lemma group_conserves_messages:
  assumes "cg_open vt rp rank (Inr []) (Inr []) = Inr g0" and "cg_reach display g0 g"
    and "good_call c" and "good_policy g"
  shows "cg_msgs (cg_step display c g) + removed c g = cg_msgs g + added c g"
proof -
  have inv: "cg_inv g" using cg_reach_inv [OF assms(2) cg_open_empty [OF assms(1)]] .
  show ?thesis
  proof (cases c)
    case (GEnqueue i item key out)
    then show ?thesis using assms(3) enqueue_good by (simp add: removed_def)
  next
    case (GClaim env)
    then show ?thesis using assms(3,4) claim_good [OF _ _ inv] by (simp add: removed_def added_def)
  next
    case (GAck i token out)
    then show ?thesis using assms(3) ack_good [OF inv] by (simp add: added_def)
  next
    case (GNack env i token reason)
    then show ?thesis using assms(3,4) nack_good [OF _ _ inv] by (simp add: removed_def added_def)
  next
    case (GReprocess i dlq_out out)
    then show ?thesis using assms(3) reprocess_good [OF inv] by (simp add: removed_def added_def)
  next
    case (GPurge i dlq_out)
    then show ?thesis using assms(3) purge_good [OF inv] by (simp add: added_def)
  qed (simp_all add: removed_def added_def checkpoint_msgs publish_msgs annotate_msgs)
qed

lemma group_conserves_messages_witness:
  "cg_msgs (cg_step sample_display (GAck (MessageId 1) (LeaseToken 0) Logged) sample_leased) +
     {#(MessageId 1, Some (IdempotencyKey ''k''), ''job'')#} = cg_msgs sample_leased"
proof -
  let ?c = "GAck (MessageId 1) (LeaseToken 0) Logged"
  have "removed ?c sample_leased = {#(MessageId 1, Some (IdempotencyKey ''k''), ''job'')#}"
    "added ?c sample_leased = {#}"
    by (simp_all add: removed_def added_def sample_leased_eq sample_lease_def)
  with group_conserves_messages [OF sample_open sample_reach_leased, of ?c] sample_good_policy
  show ?thesis by simp
qed

end
