(* ===== verification/Group_Leases.thy ===== *)
theory Group_Leases
  imports Group_Properties
begin

text \<open>
  Leases of the consumer group: a token is worth nothing once its lease is gone, a leased message is
  not delivered to anyone else, a message is not delivered more often than the retry policy allows,
  and a waiting \<^verbatim>\<open>claim\<close> wakes up when, and not before, something can become claimable.
\<close>

section \<open>What the calls do to the leases\<close>

lemma resolve_leased [simp]:
  "g_leased (snd (resolve_failed_delivery env i item dc key cp reason g)) = g_leased g"
  "g_next_lease_token (snd (resolve_failed_delivery env i item dc key cp reason g)) = g_next_lease_token g"
  "g_pending (snd (resolve_failed_delivery env i item dc key cp reason g)) = g_pending g"
  by (simp_all add: resolve_failed_delivery_def cg_log_def split: prod.splits sum.splits option.splits)

lemma resolve_all_frame:
  "g_leased (snd (resolve_all env expired g)) = g_leased g \<and>
   g_next_lease_token (snd (resolve_all env expired g)) = g_next_lease_token g \<and>
   g_pending (snd (resolve_all env expired g)) = g_pending g \<and>
   g_retry_policy (snd (resolve_all env expired g)) = g_retry_policy g"
proof (induction expired arbitrary: g)
  case (Cons il expired)
  obtain i l where il: "il = (i, l)" by (cases il)
  obtain r g1 where res: "resolve_failed_delivery (env i) i (l_item l) (l_delivery_count l) (l_key l)
      (l_checkpoint l) (Some ''visibility timeout expired'') g = (r, g1)" by fastforce
  have g1: "g1 = snd (resolve_failed_delivery (env i) i (l_item l) (l_delivery_count l) (l_key l)
      (l_checkpoint l) (Some ''visibility timeout expired'') g)" using res by simp
  have "snd (resolve_all env (il # expired) g) \<in> {g1, snd (resolve_all env expired g1)}"
    using res by (auto simp: il split: sum.splits cg_error.splits)
  then show ?case using Cons [of g1] by (auto simp: g1)
qed simp

lemmas resolve_all_leased [simp] =
  resolve_all_frame [THEN conjunct1]
  resolve_all_frame [THEN conjunct2, THEN conjunct1]
  resolve_all_frame [THEN conjunct2, THEN conjunct2, THEN conjunct1]
  resolve_all_frame [THEN conjunct2, THEN conjunct2, THEN conjunct2]

lemma reclaim_leased:
  assumes "reclaim_expired_leases rank now env g = (res, g')"
  shows "g_leased g' = filter (\<lambda>kv. fst kv \<notin> fst ` set (expired_leases rank now g)) (g_leased g)"
    and "g_next_lease_token g' = g_next_lease_token g" and "g_pending g' = g_pending g"
    and "g_retry_policy g' = g_retry_policy g"
proof -
  let ?ex = "expired_leases rank now g"
  let ?g1 = "remove_leases (map fst ?ex) g"
  have "?ex = [] \<Longrightarrow> g' = g"
    using assms by (simp add: reclaim_expired_leases_def)
  moreover have "?ex \<noteq> [] \<Longrightarrow> g' \<in> {snd (resolve_all env ?ex ?g1), cg_notify NotifyWaiters (snd (resolve_all env ?ex ?g1))}"
    using assms by (auto simp: reclaim_expired_leases_def Let_def split: prod.splits sum.splits)
  ultimately have "g_leased g' = filter (\<lambda>kv. fst kv \<notin> fst ` set ?ex) (g_leased g) \<and>
      g_next_lease_token g' = g_next_lease_token g \<and> g_pending g' = g_pending g \<and> g_retry_policy g' = g_retry_policy g"
    by (cases "?ex = []") (auto simp: remove_leases_def fold_delete)
  then show "g_leased g' = filter (\<lambda>kv. fst kv \<notin> fst ` set ?ex) (g_leased g)"
    and "g_next_lease_token g' = g_next_lease_token g" and "g_pending g' = g_pending g"
    and "g_retry_policy g' = g_retry_policy g" by blast+
qed

lemma map_of_filter_notin: "map_of (filter (\<lambda>kv. fst kv \<notin> A) m) i = (if i \<in> A then None else map_of m i)"
  by (induction m) auto

definition tokens :: "('a, 'v) group \<Rightarrow> lease_token set" where
  "tokens g = {t. \<exists>i. holds_lease i t g}"

lemma tokens_alt: "tokens g = {l_token l | l i. map_of (g_leased g) i = Some l}"
  by (auto simp: tokens_def holds_lease_def split: option.splits)

lemma tokens_cong: "g_leased g' = g_leased g \<Longrightarrow> tokens g' = tokens g"
  by (simp add: tokens_alt)

lemma claim_tokens:
  assumes "claim_pass display env g = (res, g')"
  shows "tokens g' \<subseteq> insert (LeaseToken (g_next_lease_token g)) (tokens g)"
    and "g_next_lease_token g' \<in> {g_next_lease_token g, g_next_lease_token g + 1}"
proof -
  obtain r g1 where r: "reclaim_expired_leases (ce_rank env) (ce_reclaim_now env) (ce_resolve env) g = (r, g1)"
    by fastforce
  note rec = reclaim_leased [OF r]
  have sub: "tokens g1 \<subseteq> tokens g"
    by (auto simp: tokens_alt rec(1) map_of_filter_notin split: if_splits)
  let ?g2 = "promote_ready_delayed (ce_promote_now env) g1"
  have g2: "g_leased ?g2 = g_leased g1" "g_next_lease_token ?g2 = g_next_lease_token g1"
    by (simp_all add: promote_ready_delayed_def)
  have "g' = g1 \<or> g' = ?g2 \<or> (\<exists>p rest. g' = cg_notify NotifyOne (grant_lease (ce_lease_now env) p rest ?g2))"
    using assms r by (auto simp: claim_pass_def Let_def split: sum.splits list.splits option.splits)
  then have "tokens g' \<subseteq> insert (LeaseToken (g_next_lease_token g)) (tokens g) \<and>
      g_next_lease_token g' \<in> {g_next_lease_token g, g_next_lease_token g + 1}"
  proof (elim disjE exE)
    fix p rest assume g': "g' = cg_notify NotifyOne (grant_lease (ce_lease_now env) p rest ?g2)"
    then have "tokens g' \<subseteq> insert (LeaseToken (g_next_lease_token g)) (tokens g1)"
      using g2 rec(2) by (auto simp: tokens_alt grant_lease_def split: if_splits)
    with sub g' g2 rec(2) show ?thesis by (auto simp: grant_lease_def)
  qed (use sub g2 rec(2) in \<open>auto simp: tokens_cong [of ?g2 g1]\<close>)
  then show "tokens g' \<subseteq> insert (LeaseToken (g_next_lease_token g)) (tokens g)"
    and "g_next_lease_token g' \<in> {g_next_lease_token g, g_next_lease_token g + 1}" by blast+
qed

lemma release_key_leased [simp]:
  "g_leased (release_key key g) = g_leased g" "g_next_lease_token (release_key key g) = g_next_lease_token g"
  "g_pending (release_key key g) = g_pending g" "g_delayed (release_key key g) = g_delayed g"
  "g_dlq (release_key key g) = g_dlq g" "g_retry_policy (release_key key g) = g_retry_policy g"
  "g_wal (release_key key g) = g_wal g"
  by (simp_all add: release_key_def split: option.splits)

lemma write_enqueue_leased [simp]:
  "g_leased (snd (write_enqueue_record i item key out g)) = g_leased g"
  "g_next_lease_token (snd (write_enqueue_record i item key out g)) = g_next_lease_token g"
  by (cases rule: write_enqueue_cases [of out i item key g]; auto simp: push_pending_def)+

lemma take_lease_leased:
  "take_lease i token g = (r, g') \<Longrightarrow> g_leased g' = (if r = None then g_leased g else AList.delete i (g_leased g)) \<and>
   g_next_lease_token g' = g_next_lease_token g"
  by (auto simp: take_lease_def split: option.splits if_splits)

lemma reprocess_result:
  "dlq_take i dlq_out (g_dlq g) = (res, q) \<Longrightarrow>
   snd (reprocess_dead_letter i dlq_out out g) =
     (case res of
        Inr (Some d) \<Rightarrow>
          snd (write_enqueue_record (dl_id d) (dl_item d) (dl_idempotency_key d) out (g \<lparr> g_dlq := q \<rparr>))
      | _ \<Rightarrow> g \<lparr> g_dlq := q \<rparr>)"
  by (auto simp: reprocess_dead_letter_def split: prod.splits sum.splits option.splits)

lemma step_tokens:
  "tokens (cg_step display c g) \<subseteq> insert (LeaseToken (g_next_lease_token g)) (tokens g) \<and>
   g_next_lease_token (cg_step display c g) \<in> {g_next_lease_token g, g_next_lease_token g + 1}"
proof (cases c)
  case (GEnqueue i item key out)
  obtain r g1 where "reserve_key i key g = (r, g1)" by fastforce
  moreover from this have "g_leased g1 = g_leased g \<and> g_next_lease_token g1 = g_next_lease_token g"
    by (auto simp: reserve_key_def split: option.splits)
  ultimately have "g_leased (cg_step display c g) = g_leased g \<and> g_next_lease_token (cg_step display c g) = g_next_lease_token g"
    by (simp add: GEnqueue enqueue_with_id_and_key_def split: option.splits)
  then show ?thesis using tokens_cong [of "cg_step display c g" g] by auto
next
  case (GClaim env)
  then show ?thesis using claim_tokens [of display env g] by (metis cg_step.simps(2) prod.collapse)
next
  case (GAck i token out)
  obtain r g1 where g1: "take_lease i token g = (r, g1)" by fastforce
  have "g_leased (cg_step display c g) = g_leased g1 \<and> g_next_lease_token (cg_step display c g) = g_next_lease_token g1"
    using g1 by (cases r) (auto simp: GAck cg_ack_def ack_release_def cg_log_def split: prod.splits sum.splits)
  then show ?thesis
    using take_lease_leased [OF g1] by (auto simp: tokens_alt split: if_splits)
next
  case (GNack env i token reason)
  obtain r g1 where g1: "take_lease i token g = (r, g1)" by fastforce
  have "g_leased (cg_step display c g) = g_leased g1 \<and> g_next_lease_token (cg_step display c g) = g_next_lease_token g1"
  proof (cases r)
    case (Some l)
    obtain r' g2 where "resolve_failed_delivery env i (l_item l) (l_delivery_count l) (l_key l) (l_checkpoint l) reason g1 = (r', g2)"
      by fastforce
    moreover from this have "g_leased g2 = g_leased g1" "g_next_lease_token g2 = g_next_lease_token g1"
      using resolve_leased [of env i "l_item l" "l_delivery_count l" "l_key l" "l_checkpoint l" reason g1] by simp_all
    ultimately show ?thesis using g1 Some by (cases r') (auto simp: GNack cg_nack_def)
  qed (use g1 in \<open>simp add: GNack cg_nack_def\<close>)
  then show ?thesis
    using take_lease_leased [OF g1] by (auto simp: tokens_alt split: if_splits)
next
  case (GCheckpoint i token v out)
  then show ?thesis
    by (cases rule: cg_log_cases [of out "CgCheckpoint i v" g])
      (auto simp: cg_checkpoint_def checkpoint_lease_def update_lease_def holds_lease_def tokens_alt
        split: option.splits if_splits)
next
  case (GPublish i token v final)
  then show ?thesis
    by (auto simp: publish_partial_result_def Let_def tokens_alt split: option.splits if_splits)
next
  case (GAnnotate i v out)
  then show ?thesis by (auto simp: annotate_dead_letter_def tokens_alt split: prod.splits)
next
  case (GReprocess i dlq_out out)
  obtain res q where q: "dlq_take i dlq_out (g_dlq g) = (res, q)" by fastforce
  have "g_leased (cg_step display c g) = g_leased g \<and> g_next_lease_token (cg_step display c g) = g_next_lease_token g"
    by (simp add: GReprocess reprocess_result [OF q] split: sum.splits option.splits)
  then show ?thesis using tokens_cong [of "cg_step display c g" g] by auto
next
  case (GPurge i dlq_out)
  then show ?thesis by (auto simp: purge_dead_letter_def tokens_alt split: prod.splits sum.splits option.splits)
qed


section \<open>Stale tokens\<close>

definition cg_run :: "(128 word \<Rightarrow> string) \<Rightarrow> ('a, 'v) cg_call list \<Rightarrow> ('a, 'v) group \<Rightarrow> ('a, 'v) group" where
  "cg_run display cs g = fold (cg_step display) cs g"

lemma run_tokens:
  assumes "unat n < unat (g_next_lease_token g)" and "LeaseToken n \<notin> tokens g"
    and "unat (g_next_lease_token g) + length cs < 2 ^ 64"
  shows "LeaseToken n \<notin> tokens (cg_run display cs g)"
  using assms
proof (induction cs arbitrary: g)
  case Nil
  then show ?case by (simp add: cg_run_def)
next
  case (Cons c cs)
  let ?g = "cg_step display c g"
  have step: "tokens ?g \<subseteq> insert (LeaseToken (g_next_lease_token g)) (tokens g)"
    "g_next_lease_token ?g \<in> {g_next_lease_token g, g_next_lease_token g + 1}"
    using step_tokens [of display c g] by blast+
  have "unat (g_next_lease_token g + 1) = Suc (unat (g_next_lease_token g))"
    using Cons.prems(3) by (simp add: unat_word_ariths)
  then have "unat n < unat (g_next_lease_token ?g)" "unat (g_next_lease_token ?g) + length cs < 2 ^ 64"
    using step(2) Cons.prems(1,3) by auto
  moreover have "LeaseToken n \<notin> tokens ?g"
    using step(1) Cons.prems(1,2) by auto
  ultimately show ?case using Cons.IH by (simp add: cg_run_def)
qed

text \<open>
  C7: a token is worthless once its lease is gone. If a token was issued and no lease has it, because
  the lease expired or was resolved, then after any further calls (fewer than the \<open>2 ^ 64\<close> after which
  tokens repeat) \<^verbatim>\<open>ack\<close>, \<^verbatim>\<open>nack\<close>, \<^verbatim>\<open>checkpoint\<close> and \<^verbatim>\<open>publish_partial_result\<close> with it report failure and
  change nothing, even when the message has been delivered again under another lease.
\<close>

theorem stale_token_rejected:
  assumes "unat (token_as_u64 t) < unat (g_next_lease_token g)" and "\<forall>j. \<not> holds_lease j t g"
    and "unat (g_next_lease_token g) + length cs < 2 ^ 64" and "g' = cg_run display cs g"
  shows "cg_ack i t out g' = (Inr False, g') \<and> cg_nack env i t reason g' = (Inr False, g') \<and>
    cg_checkpoint i t v out g' = (Inr False, g') \<and> publish_partial_result i t v final g' = (None, g')"
proof -
  obtain n where t: "t = LeaseToken n" by (cases t)
  have "t \<notin> tokens g'"
    using run_tokens [of n g cs display] assms by (simp add: t tokens_def)
  then have no: "\<not> holds_lease i t g'" by (simp add: tokens_def)
  then have "take_lease i t g' = (None, g')"
    by (auto simp: take_lease_def holds_lease_def split: option.splits)
  with no show ?thesis
    by (auto simp: cg_ack_def ack_release_def cg_nack_def cg_checkpoint_def publish_partial_result_def
        holds_lease_def split: option.splits)
qed

theorem stale_token_rejected_witness:
  "let g = cg_step sample_display (GAck (MessageId 1) (LeaseToken 0) Logged) sample_leased;
       g' = cg_run sample_display [GEnqueue (MessageId 2) ''next'' None Logged] g
   in cg_ack (MessageId 1) (LeaseToken 0) Logged g' = (Inr False, g') \<and>
      publish_partial_result (MessageId 1) (LeaseToken 0) ''v'' True g' = (None, g')"
proof -
  let ?g = "cg_step sample_display (GAck (MessageId 1) (LeaseToken 0) Logged) sample_leased"
  have "unat (token_as_u64 (LeaseToken 0)) < unat (g_next_lease_token ?g)" "\<forall>j. \<not> holds_lease j (LeaseToken 0) ?g"
    "unat (g_next_lease_token ?g) + length [GEnqueue (MessageId 2) ''next'' None Logged] < 2 ^ 64"
    by (simp_all add: sample_leased_eq sample_lease_def cg_ack_def ack_release_def take_lease_def release_key_def
        cg_log_def holds_lease_def)
  from stale_token_rejected [OF this refl] show ?thesis by (simp add: Let_def)
qed

section \<open>Exclusive delivery\<close>

text \<open>
  A leased message is not delivered to anyone else. While a lease has not expired at the time a
  \<^verbatim>\<open>claim\<close> sweeps, the claim leaves the lease as it is and returns another message.
\<close>

lemma lease_is_exclusive:
  assumes "cg_open vt rp rank (Inr []) (Inr []) = Inr g0" and "cg_reach display g0 g"
    and "map_of (g_leased g) i = Some l" and "ce_reclaim_now env < l_expires_at l"
    and "claim_pass display env g = (Claimed cl, g')"
  shows "c_id cl \<noteq> i \<and> map_of (g_leased g') i = Some l"
proof -
  have inv: "cg_inv g" using cg_reach_inv [OF assms(2) cg_open_empty [OF assms(1)]] .
  obtain r g1 where r: "reclaim_expired_leases (ce_rank env) (ce_reclaim_now env) (ce_resolve env) g = (r, g1)"
    by fastforce
  let ?ex = "expired_leases (ce_rank env) (ce_reclaim_now env) g"
  have "i \<notin> fst ` set ?ex"
  proof
    assume "i \<in> fst ` set ?ex"
    then obtain l' where l': "(i, l') \<in> set (g_leased g)" "l_expires_at l' \<le> ce_reclaim_now env"
      by (auto simp: expired_leases_def)
    then have "map_of (g_leased g) i = Some l'"
      using cg_inv_leased [OF inv] by (simp add: hm_lookup_iff)
    with l'(2) assms(3,4) show False by simp
  qed
  then have keep: "map_of (g_leased g1) i = Some l"
    using reclaim_leased(1) [OF r] assms(3) by (simp add: map_of_filter_notin)
  let ?g2 = "promote_ready_delayed (ce_promote_now env) g1"
  have g2: "cg_inv ?g2" "map_of (g_leased ?g2) i = Some l"
    using reclaim_effect(1) [OF inv r] by simp (simp add: promote_ready_delayed_def keep)
  obtain p rest where p: "g_pending ?g2 = p # rest" "c_id cl = p_id p"
      "g' = cg_notify NotifyOne (grant_lease (ce_lease_now env) p rest ?g2)"
    using assms(5) r by (auto simp: claim_pass_def Let_def split: sum.splits list.splits option.splits)
  have "p_id p \<noteq> i"
    using pending_not_leased [OF g2(1), of p] p(1) map_of_SomeD [OF g2(2)] by force
  with p g2(2) show ?thesis by (simp add: grant_lease_def)
qed

lemma lease_is_exclusive_witness:
  "\<exists>g cl g'. cg_reach sample_display sample_group g \<and> claim_pass sample_display (sample_claim 1) g = (Claimed cl, g') \<and>
     c_id cl \<noteq> MessageId 1 \<and> map_of (g_leased g') (MessageId 1) = Some sample_lease"
proof -
  define g where "g = cg_step sample_display (GEnqueue (MessageId 2) ''next'' None Logged) sample_leased"
  have reach: "cg_reach sample_display sample_group g"
    unfolding g_def
    by (rule cg_reach.call [OF sample_reach_leased]) (simp add: cg_ids_def cg_msgs_def sample_live)
  have g: "g = sample_leased \<lparr> g_pending := [fresh_pending (MessageId 2) ''next'' None],
      g_wal := g_wal sample_leased @ [CgEnqueue (MessageId 2) None ''next''],
      g_changed := g_changed sample_leased @ [NotifyOne] \<rparr>"
    by (simp add: g_def sample_leased_eq enqueue_with_id_and_key_def reserve_key_def write_enqueue_record_def
        cg_log_def push_pending_def cg_notify_def)
  have lease: "map_of (g_leased g) (MessageId 1) = Some sample_lease"
    "ce_reclaim_now (sample_claim 1) < l_expires_at sample_lease"
    by (simp_all add: g sample_leased_eq sample_claim_def sample_lease_def from_secs_def nanos_per_sec_def)
  have "\<exists>cl g'. claim_pass sample_display (sample_claim 1) g = (Claimed cl, g')"
    by (simp add: g sample_leased_eq sample_enqueued_eq sample_group_def sample_claim_def sample_lease_def
        from_secs_def nanos_per_sec_def claim_pass_def reclaim_expired_leases_def expired_leases_def hm_iter_def
        promote_ready_delayed_def effective_idempotency_key_def fresh_pending_def sample_display_def
        idempotency_key_new_def)
  then obtain cl g' where c: "claim_pass sample_display (sample_claim 1) g = (Claimed cl, g')" by blast
  from lease_is_exclusive [OF sample_open reach lease c] reach c show ?thesis by blast
qed


section \<open>Delivery attempts\<close>

text \<open>
  With \<open>max_attempts = Some m\<close> a message is delivered at most \<open>max 1 m\<close> times: the first delivery takes
  place even when \<open>m\<close> is zero.
\<close>

definition attempts_ok :: "nat \<Rightarrow> ('a, 'v) group \<Rightarrow> bool" where
  "attempts_ok b g \<longleftrightarrow>
     (\<forall>p\<in>set (g_pending g). unat (p_delivery_count p) < b) \<and>
     (\<forall>(i, l)\<in>set (g_leased g). unat (l_delivery_count l) \<in> {1..b}) \<and>
     (\<forall>d\<in>set (g_delayed g). unat (d_delivery_count d) < b) \<and>
     (\<forall>(i, d)\<in>set (dlq_entries (g_dlq g)). unat (dl_delivery_count d) = b)"

lemma attempts_irrelevant [simp]:
  "attempts_ok b (cg_notify n g) = attempts_ok b g" "attempts_ok b (g \<lparr> g_wal := w \<rparr>) = attempts_ok b g"
  "attempts_ok b (release_key key g) = attempts_ok b g"
  by (simp_all add: attempts_ok_def)

lemma attempts_dlq:
  "attempts_ok b g \<Longrightarrow> \<forall>kd\<in>set (dlq_entries q). unat (dl_delivery_count (snd kd)) = b \<Longrightarrow>
   attempts_ok b (g \<lparr> g_dlq := q \<rparr>)"
  by (auto simp: attempts_ok_def)

lemma attempts_letters:
  "attempts_ok b g \<Longrightarrow> \<forall>kd\<in>set (dlq_entries (g_dlq g)). unat (dl_delivery_count (snd kd)) = b"
  by (auto simp: attempts_ok_def)

lemma attempts_leased:
  "attempts_ok b g \<Longrightarrow> \<forall>kl\<in>set ls. unat (l_delivery_count (snd kl)) \<in> {1..b} \<Longrightarrow>
   attempts_ok b (g \<lparr> g_leased := ls \<rparr>)"
  by (auto simp: attempts_ok_def)

lemma attempts_leases:
  "attempts_ok b g \<Longrightarrow> \<forall>kl\<in>set (g_leased g). unat (l_delivery_count (snd kl)) \<in> {1..b}"
  by (auto simp: attempts_ok_def)

lemma set_update_subset: "set (AList.update k v m) \<subseteq> insert (k, v) (set m)"
  by (induction m) auto

lemma dlq_record_entries:
  "dlq_record d out q = (res, q') \<Longrightarrow> set (dlq_entries q') \<subseteq> insert (dl_id d, d) (set (dlq_entries q))"
  using set_update_subset [of "dl_id d" d "dlq_entries q"]
  by (cases out) (auto simp: dlq_record_def dlq_log_def)

lemma resolve_attempts:
  assumes "attempts_ok b g" and "max_attempts (g_retry_policy g) = Some m" and "b = max 1 (unat m)"
    and "unat dc \<in> {1..b}" and "resolve_failed_delivery env i item dc key cp reason g = (res, g')"
  shows "attempts_ok b g'"
proof (cases "is_exhausted (g_retry_policy g) dc")
  case True
  obtain r q where q: "dlq_record \<lparr> dl_id = i, dl_idempotency_key = key, dl_item = item, dl_delivery_count = dc,
      dl_last_error = reason, dl_dead_lettered_at = re_timestamp env, dl_checkpoint = cp, dl_triage = None \<rparr>
      (re_dlq_out env) (g_dlq g) = (r, q)" by fastforce
  have "unat dc = b"
    using True assms(2-4) by (auto simp: is_exhausted_def word_le_nat_alt)
  then have "attempts_ok b (g \<lparr> g_dlq := q \<rparr>)"
    using dlq_record_entries [OF q] assms(1) by (fastforce simp: attempts_ok_def)
  moreover have "g' \<in> {g \<lparr> g_dlq := q \<rparr>, g \<lparr> g_dlq := q, g_wal := g_wal g @ [CgDeadLettered i] \<rparr>}"
    using assms(5) True q
    by (cases rule: cg_log_cases [of "re_wal_out env" "CgDeadLettered i" "g \<lparr> g_dlq := q \<rparr>"])
      (auto simp: resolve_failed_delivery_def split: sum.splits)
  ultimately show ?thesis by (auto simp: attempts_ok_def)
next
  case False
  then have "unat dc < b"
    using assms(2,3) by (auto simp: is_exhausted_def not_le word_less_nat_alt)
  with False assms(1,5) show ?thesis
    by (auto simp: resolve_failed_delivery_def attempts_ok_def split: option.splits)
qed

lemma resolve_all_attempts:
  assumes "attempts_ok b g" and "max_attempts (g_retry_policy g) = Some m" and "b = max 1 (unat m)"
    and "\<forall>(i, l)\<in>set expired. unat (l_delivery_count l) \<in> {1..b}"
  shows "attempts_ok b (snd (resolve_all env expired g))"
  using assms(1,2,4)
proof (induction expired arbitrary: g)
  case (Cons il expired)
  obtain i l where il: "il = (i, l)" by (cases il)
  obtain r g1 where res: "resolve_failed_delivery (env i) i (l_item l) (l_delivery_count l) (l_key l)
      (l_checkpoint l) (Some ''visibility timeout expired'') g = (r, g1)" by fastforce
  have "attempts_ok b g1"
    using resolve_attempts [OF Cons.prems(1,2) assms(3) _ res] Cons.prems(3) by (simp add: il)
  moreover have "g_retry_policy g1 = g_retry_policy g"
    using resolve_policy [of "env i" i "l_item l" "l_delivery_count l" "l_key l" "l_checkpoint l" _ g] res by (metis snd_conv)
  ultimately have "attempts_ok b (snd (resolve_all env expired g1))"
    using Cons by simp
  moreover have "snd (resolve_all env (il # expired) g) \<in> {g1, snd (resolve_all env expired g1)}"
    using res by (auto simp: il split: sum.splits cg_error.splits)
  ultimately show ?case using \<open>attempts_ok b g1\<close> by auto
qed simp

lemma reclaim_attempts:
  assumes "attempts_ok b g" and "max_attempts (g_retry_policy g) = Some m" and "b = max 1 (unat m)"
    and "reclaim_expired_leases rank now env g = (res, g')"
  shows "attempts_ok b g'"
proof -
  let ?ex = "expired_leases rank now g"
  let ?g1 = "remove_leases (map fst ?ex) g"
  have "attempts_ok b ?g1"
    using assms(1) by (auto simp: attempts_ok_def remove_leases_def fold_delete)
  moreover have "\<forall>(i, l)\<in>set ?ex. unat (l_delivery_count l) \<in> {1..b}"
    using assms(1) by (auto simp: attempts_ok_def expired_leases_def)
  ultimately have "attempts_ok b (snd (resolve_all env ?ex ?g1))"
    using assms(2,3) by (intro resolve_all_attempts) (auto simp: remove_leases_def)
  moreover have "g' \<in> {g, snd (resolve_all env ?ex ?g1), cg_notify NotifyWaiters (snd (resolve_all env ?ex ?g1))}"
    using assms(4) by (auto simp: reclaim_expired_leases_def Let_def split: prod.splits sum.splits if_splits)
  ultimately show ?thesis using assms(1) by auto
qed

lemma claim_attempts:
  assumes "attempts_ok b g" and "max_attempts (g_retry_policy g) = Some m" and "b = max 1 (unat m)"
    and "claim_pass display env g = (res, g')"
  shows "attempts_ok b g'" and "res = Claimed cl \<Longrightarrow> unat (c_delivery_count cl) \<in> {1..b}"
proof -
  obtain r g1 where r: "reclaim_expired_leases (ce_rank env) (ce_reclaim_now env) (ce_resolve env) g = (r, g1)"
    by fastforce
  have g1: "attempts_ok b g1" by (rule reclaim_attempts [OF assms(1-3) r])
  let ?g2 = "promote_ready_delayed (ce_promote_now env) g1"
  have g2: "attempts_ok b ?g2"
    using g1 by (auto simp: attempts_ok_def promote_ready_delayed_def)
  have inc: "unat (dc + 1) \<in> {1..b}" if "unat dc < b" for dc :: u32
  proof -
    have "unat m < 2 ^ 32" using unsigned_less [of m] by simp
    then have "Suc (unat dc) < 2 ^ 32" using that assms(3) by (simp split: if_splits)
    then have "unat (dc + 1) = Suc (unat dc)" by (simp add: unat_word_ariths)
    with that show ?thesis by simp
  qed
  have "g' = g1 \<and> res = ClaimPanic \<or> g' = ?g2 \<and> (\<exists>w. res = WaitUntil w) \<or>
      (\<exists>p rest. g_pending ?g2 = p # rest \<and> g' = cg_notify NotifyOne (grant_lease (ce_lease_now env) p rest ?g2) \<and>
        (\<forall>cl. res = Claimed cl \<longrightarrow> c_delivery_count cl = p_delivery_count p + 1))"
    using assms(4) r by (auto simp: claim_pass_def Let_def split: sum.splits list.splits option.splits)
  then have "attempts_ok b g' \<and> (\<forall>cl. res = Claimed cl \<longrightarrow> unat (c_delivery_count cl) \<in> {1..b})"
  proof (elim disjE exE conjE)
    fix p rest
    assume p: "g_pending ?g2 = p # rest" "g' = cg_notify NotifyOne (grant_lease (ce_lease_now env) p rest ?g2)"
      "\<forall>cl. res = Claimed cl \<longrightarrow> c_delivery_count cl = p_delivery_count p + 1"
    have dc: "unat (p_delivery_count p + 1) \<in> {1..b}"
      using g2 p(1) by (intro inc) (simp add: attempts_ok_def)
    with g2 p show ?thesis
      using set_update_subset [of "p_id p" _ "g_leased ?g2"]
      by (fastforce simp: attempts_ok_def grant_lease_def cg_notify_def)
  qed (use g1 g2 in auto)
  then show "attempts_ok b g'" and "res = Claimed cl \<Longrightarrow> unat (c_delivery_count cl) \<in> {1..b}" by blast+
qed


lemma nack_cases:
  obtains (stale) "snd (cg_nack env i token reason g) = g"
  | (resolved) l g1 where "take_lease i token g = (Some l, g1)" "(i, l) \<in> set (g_leased g)"
      "g1 = g \<lparr> g_leased := AList.delete i (g_leased g) \<rparr>"
      "snd (cg_nack env i token reason g) \<in>
        (let g2 = snd (resolve_failed_delivery env i (l_item l) (l_delivery_count l) (l_key l) (l_checkpoint l) reason g1)
         in {g2, cg_notify NotifyOne g2})"
proof (cases "take_lease i token g")
  case (Pair r g1)
  show thesis
  proof (cases r)
    case None
    then show thesis using Pair stale by (auto simp: cg_nack_def take_lease_def split: option.splits if_splits)
  next
    case (Some l)
    then have "(i, l) \<in> set (g_leased g)" "g1 = g \<lparr> g_leased := AList.delete i (g_leased g) \<rparr>"
      using Pair by (auto simp: take_lease_def dest: map_of_SomeD split: option.splits if_splits)
    then show thesis
      using Pair Some by (intro resolved [of l g1]) (auto simp: cg_nack_def Let_def split: prod.splits sum.splits)
  qed
qed

lemma step_policy: "g_retry_policy (cg_step display c g) = g_retry_policy g"
proof (cases c)
  case (GClaim env)
  obtain r g1 where r: "reclaim_expired_leases (ce_rank env) (ce_reclaim_now env) (ce_resolve env) g = (r, g1)"
    by fastforce
  from reclaim_leased(4) [OF r] r show ?thesis
    by (auto simp: GClaim claim_pass_def Let_def promote_ready_delayed_def grant_lease_def
        split: sum.splits list.splits option.splits)
next
  case (GNack env i token reason)
  then show ?thesis
    by (cases rule: nack_cases [of env i token reason g]) (auto simp: Let_def)
qed (auto simp: enqueue_with_id_and_key_def reserve_key_def write_enqueue_record_def push_pending_def
    cg_ack_def ack_release_def take_lease_def cg_log_def cg_checkpoint_def checkpoint_lease_def update_lease_def
    publish_partial_result_def annotate_dead_letter_def reprocess_dead_letter_def purge_dead_letter_def Let_def
    split: prod.splits sum.splits option.splits if_splits)


lemma attempts_weaken:
  "attempts_ok b g \<Longrightarrow> set (g_pending g') \<subseteq> set (g_pending g) \<Longrightarrow> set (g_leased g') \<subseteq> set (g_leased g) \<Longrightarrow>
   set (g_delayed g') \<subseteq> set (g_delayed g) \<Longrightarrow> set (dlq_entries (g_dlq g')) \<subseteq> set (dlq_entries (g_dlq g)) \<Longrightarrow>
   attempts_ok b g'"
  by (fastforce simp: attempts_ok_def)

lemma write_enqueue_attempts:
  "attempts_ok b g \<Longrightarrow> 0 < b \<Longrightarrow> attempts_ok b (snd (write_enqueue_record i item key out g))"
  by (cases rule: write_enqueue_cases [of out i item key g])
    (auto simp: attempts_ok_def push_pending_def fresh_pending_def)

lemma update_lease_attempts:
  assumes "attempts_ok b g" and "map_of (g_leased g) i = Some l" and "l_delivery_count l' = l_delivery_count l"
  shows "attempts_ok b (g \<lparr> g_leased := AList.update i l' (g_leased g) \<rparr>)"
proof (rule attempts_leased [OF assms(1)], rule ballI)
  fix kl assume "kl \<in> set (AList.update i l' (g_leased g))"
  then have "kl = (i, l') \<or> kl \<in> set (g_leased g)"
    using set_update_subset [of i l' "g_leased g"] by blast
  then show "unat (l_delivery_count (snd kl)) \<in> {1..b}"
    using attempts_leases [OF assms(1)] map_of_SomeD [OF assms(2)] assms(3) by fastforce
qed

lemma annotate_attempts:
  assumes "attempts_ok b g"
  shows "attempts_ok b (snd (annotate_dead_letter i v out g))"
proof (cases "map_of (dlq_entries (g_dlq g)) i")
  case (Some d)
  have "set (dlq_entries (snd (dlq_annotate i v out (g_dlq g)))) \<subseteq>
      insert (i, d \<lparr> dl_triage := Some v \<rparr>) (set (dlq_entries (g_dlq g)))"
    using Some set_update_subset [of i "d \<lparr> dl_triage := Some v \<rparr>" "dlq_entries (g_dlq g)"]
    by (cases out) (auto simp: dlq_annotate_def dlq_log_def dlq_annotate_entry_def)
  moreover have "unat (dl_delivery_count d) = b"
    using attempts_letters [OF assms] map_of_SomeD [OF Some] by force
  ultimately have "\<forall>kd\<in>set (dlq_entries (snd (dlq_annotate i v out (g_dlq g)))). unat (dl_delivery_count (snd kd)) = b"
    using attempts_letters [OF assms] by auto
  from attempts_dlq [OF assms this] show ?thesis
    by (simp add: annotate_dead_letter_def case_prod_beta)
qed (use assms in \<open>simp add: annotate_dead_letter_def dlq_annotate_def\<close>)

lemma dlq_take_entries: "dlq_take i out q = (res, q') \<Longrightarrow> set (dlq_entries q') \<subseteq> set (dlq_entries q)"
  by (cases out) (auto simp: dlq_take_def dlq_log_def split: option.splits)

lemma step_attempts:
  assumes "attempts_ok b g" and "max_attempts (g_retry_policy g) = Some m" and "b = max 1 (unat m)"
  shows "attempts_ok b (cg_step display c g)"
proof (cases c)
  case (GEnqueue i item key out)
  obtain r g1 where "reserve_key i key g = (r, g1)" by fastforce
  moreover from this have "attempts_ok b g1"
    using assms(1) by (auto simp: reserve_key_def attempts_ok_def split: option.splits)
  ultimately show ?thesis
    using assms(3) write_enqueue_attempts [of b g1]
    by (auto simp: GEnqueue enqueue_with_id_and_key_def split: option.splits)
next
  case (GClaim env)
  then show ?thesis using claim_attempts(1) [OF assms] by (metis cg_step.simps(2) prod.collapse)
next
  case (GAck i token out)
  then show ?thesis
    using assms(1)
    by (auto simp: cg_ack_def ack_release_def take_lease_def cg_log_def elim!: attempts_weaken
        split: prod.splits sum.splits option.splits if_splits)
next
  case (GNack env i token reason)
  show ?thesis
  proof (cases rule: nack_cases [of env i token reason g])
    case stale
    then show ?thesis using assms(1) GNack by simp
  next
    case (resolved l g1)
    have g1: "attempts_ok b g1" "g_retry_policy g1 = g_retry_policy g"
      using assms(1) by (auto simp: resolved(3) attempts_ok_def)
    have "unat (l_delivery_count l) \<in> {1..b}" using assms(1) resolved(2) by (auto simp: attempts_ok_def)
    with g1 assms(2,3) have "attempts_ok b
        (snd (resolve_failed_delivery env i (l_item l) (l_delivery_count l) (l_key l) (l_checkpoint l) reason g1))"
      by (intro resolve_attempts [OF g1(1) _ assms(3)]) (auto simp: prod_eq_iff)
    then show ?thesis
      using resolved(4) GNack by (auto simp: Let_def)
  qed
next
  case (GCheckpoint i token v out)
  show ?thesis
  proof (cases "map_of (g_leased g) i")
    case None
    then show ?thesis using assms(1) GCheckpoint by (simp add: cg_checkpoint_def holds_lease_def)
  next
    case (Some l)
    have "attempts_ok b (g \<lparr> g_wal := w, g_leased := AList.update i (l \<lparr> l_checkpoint := Some v \<rparr>) (g_leased g) \<rparr>)" for w
      using update_lease_attempts [of b "g \<lparr> g_wal := w \<rparr>" i l "l \<lparr> l_checkpoint := Some v \<rparr>"] assms(1) Some
      by simp
    then show ?thesis
      using assms(1) Some GCheckpoint
      by (cases rule: cg_log_cases [of out "CgCheckpoint i v" g])
        (auto simp: cg_checkpoint_def checkpoint_lease_def update_lease_def holds_lease_def)
  qed
next
  case (GPublish i token v final)
  show ?thesis
  proof (cases "map_of (g_leased g) i")
    case None
    then show ?thesis using assms(1) GPublish by (simp add: publish_partial_result_def)
  next
    case (Some l)
    then show ?thesis
      using update_lease_attempts [OF assms(1) Some] assms(1) GPublish
      by (simp add: publish_partial_result_def Let_def)
  qed
next
  case (GAnnotate i v out)
  then show ?thesis using annotate_attempts [OF assms(1)] by simp
next
  case (GReprocess i dlq_out out)
  obtain res q where q: "dlq_take i dlq_out (g_dlq g) = (res, q)" by fastforce
  have "attempts_ok b (g \<lparr> g_dlq := q \<rparr>)"
    using attempts_letters [OF assms(1)] dlq_take_entries [OF q] by (intro attempts_dlq [OF assms(1)]) auto
  then show ?thesis
    using write_enqueue_attempts [of b "g \<lparr> g_dlq := q \<rparr>"] assms(3)
    by (simp add: GReprocess reprocess_result [OF q] split: sum.splits option.splits)
next
  case (GPurge i dlq_out)
  obtain res q where q: "dlq_take i dlq_out (g_dlq g) = (res, q)" by fastforce
  have "attempts_ok b (g \<lparr> g_dlq := q \<rparr>)"
    using attempts_letters [OF assms(1)] dlq_take_entries [OF q] by (intro attempts_dlq [OF assms(1)]) auto
  then show ?thesis
    using q by (auto simp: GPurge purge_dead_letter_def split: sum.splits option.splits)
qed


lemma reach_attempts:
  assumes "cg_reach display g0 g" and "max_attempts (g_retry_policy g0) = Some m" and "b = max 1 (unat m)"
    and "attempts_ok b g0"
  shows "attempts_ok b g \<and> g_retry_policy g = g_retry_policy g0"
  using assms(1)
proof (induction rule: cg_reach.induct)
  case start
  then show ?case using assms(4) by simp
next
  case (call g c)
  then show ?case using step_attempts [of b g m display c] step_policy [of display c g] assms(2,3) by simp
qed




section \<open>Waiting in claim\<close>

definition wake_instants :: "('a, 'v) group \<Rightarrow> instant set" where
  "wake_instants g = (\<lambda>(i, l). l_expires_at l) ` set (g_leased g) \<union> d_available_at ` set (g_delayed g)"

lemma earliest_wake_alt:
  "earliest_wake g = (if wake_instants g = {} then None else Some (Min (wake_instants g)))"
  by (auto simp: earliest_wake_def wake_instants_def Let_def)

lemma finite_wake [simp]: "finite (wake_instants g)"
  by (simp add: wake_instants_def)

lemma quiet_pass:
  assumes "g_pending g = []" and "\<forall>t\<in>wake_instants g. ce_reclaim_now env < t \<and> ce_promote_now env < t"
  shows "claim_pass display env g = (WaitUntil (earliest_wake g), g)"
proof -
  have leases: "\<forall>(i, l)\<in>set (g_leased g). \<not> l_expires_at l \<le> ce_reclaim_now env"
    and delayed: "\<forall>d\<in>set (g_delayed g). \<not> d_available_at d \<le> ce_promote_now env"
    using assms(2) by (auto simp: wake_instants_def ball_Un not_le)
  have "expired_leases (ce_rank env) (ce_reclaim_now env) g = []"
    using leases by (auto simp: expired_leases_def filter_empty_conv)
  moreover have "promote_ready_delayed (ce_promote_now env) g = g"
  proof -
    have none: "filter (\<lambda>d. d_available_at d \<le> ce_promote_now env) (g_delayed g) = []"
      "filter (\<lambda>d. \<not> d_available_at d \<le> ce_promote_now env) (g_delayed g) = g_delayed g"
      using delayed by (simp_all add: filter_empty_conv filter_id_conv)
    show ?thesis unfolding promote_ready_delayed_def none by simp
  qed
  ultimately show ?thesis
    using assms(1) by (simp add: claim_pass_def reclaim_expired_leases_def)
qed

lemma resolve_all_no_panic:
  assumes "\<forall>i. unit_draw (re_draw (env i))" and "good_policy g"
  shows "fst (resolve_all env expired g) = Inr ()"
  using assms(2)
proof (induction expired arbitrary: g)
  case (Cons il expired)
  obtain i l where il: "il = (i, l)" by (cases il)
  obtain r g1 where res: "resolve_failed_delivery (env i) i (l_item l) (l_delivery_count l) (l_key l)
      (l_checkpoint l) (Some ''visibility timeout expired'') g = (r, g1)" by fastforce
  have "\<exists>delay. delay_for (re_draw (env i)) (g_retry_policy g) (l_delivery_count l) = Some delay"
    using delay_for_bounded [of "re_draw (env i)" "g_retry_policy g"] assms(1) Cons.prems
    by (auto simp: good_policy_def)
  then have "r \<noteq> Inl CgPanic"
    using res by (auto simp: resolve_failed_delivery_def split: if_splits prod.splits sum.splits option.splits)
  moreover have "good_policy g1"
    using resolve_policy [of "env i" i "l_item l" "l_delivery_count l" "l_key l" "l_checkpoint l"
        "Some ''visibility timeout expired''" g] res Cons.prems by (simp add: good_policy_def)
  ultimately show ?case using Cons.IH [of g1] res by (simp add: il split: sum.splits cg_error.splits)
qed simp

lemma reclaim_no_panic:
  assumes "\<forall>i. unit_draw (re_draw (env i))" and "good_policy g"
  shows "fst (reclaim_expired_leases rank now env g) = Inr ()"
proof -
  let ?ex = "expired_leases rank now g"
  have "good_policy (remove_leases (map fst ?ex) g)"
    using assms(2) by (simp add: good_policy_def remove_leases_def)
  then have "fst (resolve_all env ?ex (remove_leases (map fst ?ex) g)) = Inr ()"
    by (rule resolve_all_no_panic [OF assms(1)])
  then show ?thesis
    by (auto simp: reclaim_expired_leases_def Let_def split: prod.splits sum.splits)
qed

lemma resolve_delayed:
  assumes "resolve_failed_delivery env i item dc key cp reason g = (res, g')"
  shows "\<exists>more. g_delayed g' = g_delayed g @ more"
  using assms by (auto simp: resolve_failed_delivery_def cg_log_def split: if_splits prod.splits sum.splits option.splits)

lemma resolve_all_delayed: "\<exists>more. g_delayed (snd (resolve_all env expired g)) = g_delayed g @ more"
proof (induction expired arbitrary: g)
  case (Cons il expired)
  obtain i l where il: "il = (i, l)" by (cases il)
  obtain r g1 where res: "resolve_failed_delivery (env i) i (l_item l) (l_delivery_count l) (l_key l)
      (l_checkpoint l) (Some ''visibility timeout expired'') g = (r, g1)" by fastforce
  have "snd (resolve_all env (il # expired) g) \<in> {g1, snd (resolve_all env expired g1)}"
    using res by (auto simp: il split: sum.splits cg_error.splits)
  moreover obtain more where "g_delayed g1 = g_delayed g @ more" using resolve_delayed [OF res] by blast
  moreover obtain more' where "g_delayed (snd (resolve_all env expired g1)) = g_delayed g1 @ more'"
    using Cons.IH by blast
  ultimately show ?case by auto
qed simp

lemma reclaim_delayed:
  assumes "reclaim_expired_leases rank now env g = (res, g')"
  shows "\<exists>more. g_delayed g' = g_delayed g @ more"
proof -
  let ?ex = "expired_leases rank now g"
  let ?g1 = "remove_leases (map fst ?ex) g"
  have "g' \<in> {g, snd (resolve_all env ?ex ?g1), cg_notify NotifyWaiters (snd (resolve_all env ?ex ?g1))}"
    using assms by (auto simp: reclaim_expired_leases_def Let_def split: prod.splits sum.splits if_splits)
  then show ?thesis
    using resolve_all_delayed [of env ?ex ?g1] by (auto simp: remove_leases_def)
qed

lemma due_pass:
  assumes "t \<in> wake_instants g" and "t \<le> ce_reclaim_now env" and "t \<le> ce_promote_now env"
    and "\<forall>i. unit_draw (re_draw (ce_resolve env i))" and "good_policy g" and "\<forall>u. display u \<noteq> []"
    and "claim_pass display env g = (res, g')"
  shows "(\<exists>cl. res = Claimed cl) \<or> length (g_leased g') < length (g_leased g)"
proof -
  obtain g1 where r: "reclaim_expired_leases (ce_rank env) (ce_reclaim_now env) (ce_resolve env) g = (Inr (), g1)"
    using reclaim_no_panic [OF assms(4,5), of "ce_rank env" "ce_reclaim_now env"]
    by (cases "reclaim_expired_leases (ce_rank env) (ce_reclaim_now env) (ce_resolve env) g") auto
  let ?g2 = "promote_ready_delayed (ce_promote_now env) g1"
  have key: "\<exists>k. effective_idempotency_key display i key = Some k" for i key
    using assms(6) by (auto simp: effective_idempotency_key_def idempotency_key_new_def split: option.splits message_id.splits)
  have g': "(\<exists>cl. res = Claimed cl) \<or> g_pending ?g2 = [] \<and> g_leased g' = g_leased g1"
  proof (cases "g_pending ?g2")
    case Nil
    then have "g' = ?g2" using assms(7) r by (simp add: claim_pass_def Let_def)
    with Nil show ?thesis by (simp add: promote_ready_delayed_def)
  next
    case (Cons p rest)
    obtain k where "effective_idempotency_key display (p_id p) (p_key p) = Some k" using key by blast
    with Cons show ?thesis using assms(7) r by (auto simp: claim_pass_def Let_def)
  qed
  have len: "g_leased g1 = filter (\<lambda>kv. fst kv \<notin> fst ` set (expired_leases (ce_rank env) (ce_reclaim_now env) g)) (g_leased g)"
    by (rule reclaim_leased(1) [OF r])
  from assms(1) show ?thesis
  proof (unfold wake_instants_def, elim UnE imageE)
    fix il assume il: "t = (\<lambda>(i, l). l_expires_at l) il" "il \<in> set (g_leased g)"
    then have "fst il \<in> fst ` set (expired_leases (ce_rank env) (ce_reclaim_now env) g)"
      using assms(2) by (force simp: expired_leases_def)
    then have "length (g_leased g1) < length (g_leased g)"
      unfolding len using il(2) by (intro length_filter_less [of il]) auto
    with g' show ?thesis by auto
  next
    fix d assume d: "t = d_available_at d" "d \<in> set (g_delayed g)"
    have "\<exists>more. g_delayed g1 = g_delayed g @ more" using reclaim_delayed [OF r] .
    then have "g_pending ?g2 \<noteq> []"
      using d assms(3) by (auto simp: promote_ready_delayed_def filter_empty_conv)
    with g' show ?thesis by auto
  qed
qed

text \<open>
  C28: a \<^verbatim>\<open>claim\<close> that finds nothing waits for the right instant. It sleeps without a limit exactly when
  the group is empty; otherwise until the instant \<open>w\<close> at which a lease expires or a delayed message
  becomes available. Passes before \<open>w\<close> (after a spurious wake-up) find nothing and change nothing, and
  a pass at \<open>w\<close> or later delivers a message or has resolved an expired lease.
\<close>

theorem claim_waits_for_next_event:
  assumes "claim_pass display env g = (WaitUntil w, g')"
    and "good_policy g" and "\<forall>u. display u \<noteq> []" and "\<forall>i. unit_draw (re_draw (ce_resolve env' i))"
  shows "(w = None \<longleftrightarrow> cg_is_empty g') \<and>
    (\<forall>t. w = Some t \<longrightarrow> t \<in> wake_instants g') \<and>
    ((\<forall>t. w = Some t \<longrightarrow> ce_reclaim_now env' < t \<and> ce_promote_now env' < t) \<longrightarrow>
      claim_pass display env' g' = (WaitUntil w, g')) \<and>
    (\<forall>t. w = Some t \<and> t \<le> ce_reclaim_now env' \<and> t \<le> ce_promote_now env' \<longrightarrow>
      (\<exists>cl. fst (claim_pass display env' g') = Claimed cl) \<or>
      length (g_leased (snd (claim_pass display env' g'))) < length (g_leased g'))"
proof -
  obtain r g1 where r: "reclaim_expired_leases (ce_rank env) (ce_reclaim_now env) (ce_resolve env) g = (r, g1)"
    by fastforce
  have g': "g' = promote_ready_delayed (ce_promote_now env) g1" "g_pending g' = []" "w = earliest_wake g'"
    using assms(1) r by (auto simp: claim_pass_def Let_def split: sum.splits list.splits option.splits)
  have policy: "good_policy g'"
    using assms(2) reclaim_leased(4) [OF r] by (simp add: g'(1) good_policy_def promote_ready_delayed_def)
  have "w = None \<longleftrightarrow> wake_instants g' = {}" by (simp add: g'(3) earliest_wake_alt)
  also have "\<dots> \<longleftrightarrow> cg_is_empty g'"
    using g'(2) by (auto simp: wake_instants_def cg_is_empty_def cg_len_def)
  finally have empty: "w = None \<longleftrightarrow> cg_is_empty g'" .
  have wake: "t \<in> wake_instants g' \<and> (\<forall>u\<in>wake_instants g'. t \<le> u)" if "w = Some t" for t
  proof -
    have "wake_instants g' \<noteq> {}" "t = Min (wake_instants g')"
      using that by (auto simp: g'(3) earliest_wake_alt split: if_splits)
    then show ?thesis by (simp add: Min_in)
  qed
  have quiet: "claim_pass display env' g' = (WaitUntil w, g')"
    if "\<forall>t. w = Some t \<longrightarrow> ce_reclaim_now env' < t \<and> ce_promote_now env' < t"
  proof -
    have "ce_reclaim_now env' < u \<and> ce_promote_now env' < u" if u: "u \<in> wake_instants g'" for u
    proof -
      have "\<exists>t. w = Some t" using u by (auto simp: g'(3) earliest_wake_alt)
      then show ?thesis using wake u \<open>\<forall>t. w = Some t \<longrightarrow> _ t\<close> by fastforce
    qed
    then show ?thesis using quiet_pass [OF g'(2)] g'(3) by simp
  qed
  have due: "(\<exists>cl. fst (claim_pass display env' g') = Claimed cl) \<or>
      length (g_leased (snd (claim_pass display env' g'))) < length (g_leased g')"
    if "w = Some t \<and> t \<le> ce_reclaim_now env' \<and> t \<le> ce_promote_now env'" for t
    using due_pass [of t g' env' display "fst (claim_pass display env' g')" "snd (claim_pass display env' g')"]
      that wake policy assms(3,4) by simp
  show ?thesis using empty wake quiet due by blast
qed

theorem claim_waits_for_next_event_witness:
  "claim_pass sample_display (sample_claim 1) sample_leased = (WaitUntil (Some (from_secs 30)), sample_leased) \<and>
   claim_pass sample_display (sample_claim 2) sample_leased = (WaitUntil (Some (from_secs 30)), sample_leased) \<and>
   ((\<exists>cl. fst (claim_pass sample_display (sample_claim (from_secs 30)) sample_leased) = Claimed cl) \<or>
    length (g_leased (snd (claim_pass sample_display (sample_claim (from_secs 30)) sample_leased))) < length (g_leased sample_leased))"
proof -
  have first: "claim_pass sample_display (sample_claim 1) sample_leased = (WaitUntil (Some (from_secs 30)), sample_leased)"
    by (subst quiet_pass) (simp_all add: earliest_wake_alt wake_instants_def sample_leased_eq sample_enqueued_eq
        sample_group_def sample_lease_def sample_claim_def from_secs_def nanos_per_sec_def)
  have draw: "\<forall>i. unit_draw (re_draw (ce_resolve (sample_claim now) i))" for now
    by (simp add: sample_claim_def sample_resolve_def unit_draw_def representable_def)
  have display: "\<forall>u. sample_display u \<noteq> []" by (simp add: sample_display_def)
  note wait = claim_waits_for_next_event [OF first sample_good_policy display draw]
  from wait [of 2] wait [of "from_secs 30"] first show ?thesis
    by (simp add: sample_claim_def from_secs_def nanos_per_sec_def)
qed

end
