(* ===== verification/Group_Recovery.thy ===== *)
theory Group_Recovery
  imports Group_Leases
begin

text \<open>
  Restarts of the consumer group: what \<^verbatim>\<open>ConsumerGroup::open\<close> rebuilds from the two logs after any
  calls, with and without failed log writes. Nothing that a running group holds is missing after a
  restart; with acknowledged writes the rebuilt group holds exactly the same messages.
\<close>

section \<open>What the log holds\<close>

definition wal_msgs :: "('a, 'v) cg_record list \<Rightarrow> 'a msg set" where
  "wal_msgs w = (\<lambda>p. (p_id p, p_key p, p_item p)) ` set (fst (cg_replay w))"

lemma cg_replay_snoc: "cg_replay (w @ [r]) = cg_apply r (cg_replay w)"
  by (simp add: cg_replay_def)

lemma wal_msgs_enqueue [simp]: "wal_msgs (w @ [CgEnqueue i key x]) = insert (i, key, x) (wal_msgs w)"
  by (cases "cg_replay w") (auto simp: wal_msgs_def cg_replay_snoc fresh_pending_def)

lemma wal_msgs_checkpoint [simp]: "wal_msgs (w @ [CgCheckpoint i v]) = wal_msgs w"
  by (cases "cg_replay w") (simp add: wal_msgs_def cg_replay_snoc)

lemma set_remove_first_superset: "{x \<in> set xs. \<not> p x} \<subseteq> set (remove_first p xs)"
  by (induction xs) auto

lemma fst_replay_removal:
  "fst (cg_replay (w @ [CgAck i])) = remove_first (\<lambda>p. p_id p = i) (fst (cg_replay w))"
  "fst (cg_replay (w @ [CgDeadLettered i])) = remove_first (\<lambda>p. p_id p = i) (fst (cg_replay w))"
  by (cases "cg_replay w"; auto simp: cg_replay_snoc find_None_iff split: option.splits)+

lemma wal_msgs_removal:
  assumes "r = CgAck i \<or> r = CgDeadLettered i"
  shows "{m \<in> wal_msgs w. fst m \<noteq> i} \<subseteq> wal_msgs (w @ [r])"
  using assms set_remove_first_superset [of "fst (cg_replay w)" "\<lambda>p. p_id p = i"]
  by (auto simp: wal_msgs_def fst_replay_removal)

section \<open>No message is lost\<close>

text \<open>
  The live messages of the group, and the messages \<open>M\<close> a call has taken out and not yet put back, are
  in the log; the dead letters are in their log.
\<close>

definition dlq_covered :: "('a, 'v) dlq \<Rightarrow> bool" where
  "dlq_covered q \<longleftrightarrow> dom (map_of (dlq_entries q)) \<subseteq> dom (map_of (dlq_replay (dlq_wal q)))"

definition covered :: "'a msg set \<Rightarrow> ('a, 'v) group \<Rightarrow> bool" where
  "covered M g \<longleftrightarrow> set (cg_live g) \<union> M \<subseteq> wal_msgs (g_wal g) \<and> dlq_covered (g_dlq g)"

lemma covered_mono: "covered M g \<Longrightarrow> M' \<subseteq> M \<Longrightarrow> covered M' g"
  by (auto simp: covered_def)

lemma covered_shrink:
  "covered M g \<Longrightarrow> set (cg_live g') \<subseteq> set (cg_live g) \<union> M \<Longrightarrow> g_wal g' = g_wal g \<Longrightarrow> g_dlq g' = g_dlq g \<Longrightarrow> covered {} g'"
  by (auto simp: covered_def)

lemma cg_live_notify [simp]: "cg_live (cg_notify n g) = cg_live g"
  by (simp add: cg_live_def cg_notify_def)

lemma cg_live_release [simp]: "cg_live (release_key key g) = cg_live g"
  by (simp add: cg_live_def)

lemma cg_live_simps [simp]:
  "cg_live (g \<lparr> g_wal := w \<rparr>) = cg_live g" "cg_live (g \<lparr> g_dlq := q \<rparr>) = cg_live g"
  "cg_live (g \<lparr> g_dedup := d \<rparr>) = cg_live g"
  by (simp_all add: cg_live_def)

lemma live_delayed:
  "set (cg_live (g \<lparr> g_delayed := g_delayed g @ [d] \<rparr>)) = insert (d_id d, d_key d, d_item d) (set (cg_live g))"
  by (simp add: cg_live_def)

lemma covered_irrelevant [simp]:
  "covered M (cg_notify n g) = covered M g" "covered M (release_key key g) = covered M g"
  "covered M (g \<lparr> g_dedup := d \<rparr>) = covered M g"
  by (simp_all add: covered_def)

lemma covered_dlq: "covered M g \<Longrightarrow> dlq_covered q \<Longrightarrow> covered M (g \<lparr> g_dlq := q \<rparr>)"
  by (simp add: covered_def)

lemma covered_removal:
  assumes "covered M g" and "r = CgAck i \<or> r = CgDeadLettered i"
    and "i \<notin> fst ` set (cg_live g)" and "i \<notin> fst ` M"
  shows "covered M (g \<lparr> g_wal := g_wal g @ [r] \<rparr>)"
  using assms wal_msgs_removal [OF assms(2), of "g_wal g"] by (force simp: covered_def)

lemma dlq_calls_covered:
  "dlq_covered q \<Longrightarrow> dlq_covered (snd (dlq_record d out q))"
  "dlq_covered q \<Longrightarrow> dlq_covered (snd (dlq_take i out q))"
  "dlq_covered q \<Longrightarrow> dlq_covered (snd (dlq_annotate i v out q))"
  using dlq_call_covered [of q "CallRecord d out"] dlq_call_covered [of q "CallTake i out"]
    dlq_call_covered [of q "CallAnnotate i v out"] by (simp_all add: dlq_covered_def)

lemma resolve_covered:
  assumes "covered (insert (i, key, item) M) g" and "i \<notin> fst ` set (cg_live g)" and "i \<notin> fst ` M"
    and "resolve_failed_delivery env i item dc key cp reason g = (res, g')"
  shows "covered M g'" and "set (cg_live g') \<subseteq> insert (i, key, item) (set (cg_live g))"
proof -
  have "covered M g' \<and> set (cg_live g') \<subseteq> insert (i, key, item) (set (cg_live g))"
  proof (cases "is_exhausted (g_retry_policy g) dc")
    case True
    let ?d = "\<lparr> dl_id = i, dl_idempotency_key = key, dl_item = item, dl_delivery_count = dc,
      dl_last_error = reason, dl_dead_lettered_at = re_timestamp env, dl_checkpoint = cp, dl_triage = None \<rparr>"
    obtain r q where rec: "dlq_record ?d (re_dlq_out env) (g_dlq g) = (r, q)" by fastforce
    have "dlq_covered q"
      using dlq_calls_covered(1) [of "g_dlq g" ?d "re_dlq_out env"] rec assms(1) by (simp add: covered_def)
    then have cov: "covered M (g \<lparr> g_dlq := q \<rparr>)"
      using assms(1) by (auto simp: covered_def)
    then have "covered M (g \<lparr> g_dlq := q, g_wal := g_wal g @ [CgDeadLettered i] \<rparr>)"
      using covered_removal [OF cov, of "CgDeadLettered i" i] assms(2,3) by simp
    moreover have "g' \<in> {g \<lparr> g_dlq := q \<rparr>, g \<lparr> g_dlq := q, g_wal := g_wal g @ [CgDeadLettered i] \<rparr>}"
      using assms(4) True rec
      by (cases rule: cg_log_cases [of "re_wal_out env" "CgDeadLettered i" "g \<lparr> g_dlq := q \<rparr>"])
        (auto simp: resolve_failed_delivery_def split: sum.splits)
    ultimately show ?thesis using cov by auto
  next
    case False
    then have "g' = g \<or> (\<exists>t. g' = g \<lparr> g_delayed := g_delayed g @ [\<lparr> d_id = i, d_item = item, d_delivery_count = dc,
        d_available_at = t, d_key = key, d_checkpoint = cp \<rparr>] \<rparr>)"
      using assms(4) by (auto simp: resolve_failed_delivery_def split: option.splits)
    then show ?thesis using assms(1) by (auto simp: covered_def live_delayed)
  qed
  then show "covered M g'" and "set (cg_live g') \<subseteq> insert (i, key, item) (set (cg_live g))" by blast+
qed

lemma resolve_all_covered:
  assumes "covered (lease_msg ` set expired) g" and "distinct (map fst expired)"
    and "fst ` set expired \<inter> fst ` set (cg_live g) = {}"
  shows "covered {} (snd (resolve_all env expired g))"
  using assms
proof (induction expired arbitrary: g)
  case (Cons il expired)
  obtain i l where il: "il = (i, l)" by (cases il)
  obtain r g1 where res: "resolve_failed_delivery (env i) i (l_item l) (l_delivery_count l) (l_key l)
      (l_checkpoint l) (Some ''visibility timeout expired'') g = (r, g1)" by fastforce
  have "covered (insert (i, l_key l, l_item l) (lease_msg ` set expired)) g"
    using Cons.prems(1) by (simp add: il lease_msg_def)
  moreover have "i \<notin> fst ` lease_msg ` set expired"
    using Cons.prems(2) by (auto simp: il lease_msg_def image_iff)
  moreover have "i \<notin> fst ` set (cg_live g)" using Cons.prems(3) by (auto simp: il)
  ultimately have g1: "covered (lease_msg ` set expired) g1"
    "set (cg_live g1) \<subseteq> insert (i, l_key l, l_item l) (set (cg_live g))"
    using resolve_covered [OF _ _ _ res] by blast+
  have "fst ` set expired \<inter> fst ` set (cg_live g1) = {}"
  proof -
    have "fst ` set (cg_live g1) \<subseteq> insert i (fst ` set (cg_live g))" using g1(2) by fastforce
    moreover have "i \<notin> fst ` set expired" using Cons.prems(2) by (simp add: il)
    moreover have "fst ` set expired \<inter> fst ` set (cg_live g) = {}" using Cons.prems(3) by auto
    ultimately show ?thesis by blast
  qed
  then have "covered {} (snd (resolve_all env expired g1))"
    using Cons.IH [OF g1(1)] Cons.prems(2) by simp
  moreover have "snd (resolve_all env (il # expired) g) \<in> {g1, snd (resolve_all env expired g1)}"
    using res by (auto simp: il split: sum.splits cg_error.splits)
  ultimately show ?case using g1(1) covered_mono [of _ g1 "{}"] by auto
qed simp

lemma live_msgs_ids: "fst ` set (cg_live g) \<subseteq> cg_ids g"
  by (auto simp: cg_ids_def cg_msgs_def)

lemma remove_leases_live: "set (cg_live (remove_leases ids g)) \<subseteq> set (cg_live g)"
  by (auto simp: cg_live_def remove_leases_def fold_delete)

lemma expired_not_live:
  assumes "cg_inv g" and "expired = expired_leases rank now g"
  shows "fst ` set expired \<inter> fst ` set (cg_live (remove_leases (map fst expired) g)) = {}"
    and "distinct (map fst expired)" and "lease_msg ` set expired \<subseteq> set (cg_live g)"
proof -
  let ?g1 = "remove_leases (map fst expired) g"
  have "unique_ids (cg_msgs ?g1 + mset (map lease_msg expired))"
    using expired_taken_out(3) [OF assms(1,2) refl] .
  then have "unique_ids (mset (cg_live ?g1 @ map lease_msg expired))"
    by (rule unique_ids_subset [rotated]) (simp add: cg_msgs_def)
  then have dist: "distinct (map fst (cg_live ?g1 @ map lease_msg expired))"
    by (simp only: unique_ids_mset)
  have ids: "map fst (map lease_msg expired) = map fst expired"
    by (simp add: lease_msg_def comp_def split_def)
  show "distinct (map fst expired)" using dist by (simp add: ids flip: map_map)
  have "set (map fst (map lease_msg expired)) \<inter> fst ` set (cg_live ?g1) = {}" using dist by auto
  then show "fst ` set expired \<inter> fst ` set (cg_live ?g1) = {}" by (simp only: ids set_map)
  show "lease_msg ` set expired \<subseteq> set (cg_live g)"
    by (auto simp: assms(2) expired_leases_def cg_live_def lease_msg_def)
qed

lemma reclaim_covered:
  assumes "cg_inv g" and "covered {} g" and "reclaim_expired_leases rank now env g = (res, g')"
  shows "covered {} g'"
proof -
  define expired where "expired = expired_leases rank now g"
  let ?g1 = "remove_leases (map fst expired) g"
  note ex = expired_not_live [OF assms(1) expired_def]
  have "covered (lease_msg ` set expired) ?g1"
    using assms(2) ex(3) remove_leases_live [of "map fst expired" g]
    by (auto simp: covered_def remove_leases_def)
  then have "covered {} (snd (resolve_all env expired ?g1))"
    by (rule resolve_all_covered [OF _ ex(2,1)])
  moreover have "g' \<in> {g, snd (resolve_all env expired ?g1), cg_notify NotifyWaiters (snd (resolve_all env expired ?g1))}"
    using assms(3) by (auto simp: reclaim_expired_leases_def Let_def expired_def split: prod.splits sum.splits if_splits)
  ultimately show ?thesis using assms(2) by auto
qed

lemma promote_live: "set (cg_live (promote_ready_delayed now g)) = set (cg_live g)"
  by (auto simp: cg_live_def promote_ready_delayed_def)

lemma grant_live:
  "g_pending g = p # rest \<Longrightarrow> set (cg_live (grant_lease now p rest g)) \<subseteq> set (cg_live g)"
  using set_update_subset [of "p_id p" _ "g_leased g"] by (fastforce simp: cg_live_def grant_lease_def)

lemma claim_covered:
  assumes "cg_inv g" and "covered {} g"
  shows "covered {} (snd (claim_pass display env g))"
proof -
  obtain r g1 where r: "reclaim_expired_leases (ce_rank env) (ce_reclaim_now env) (ce_resolve env) g = (r, g1)"
    by fastforce
  have g1: "covered {} g1" by (rule reclaim_covered [OF assms r])
  let ?g2 = "promote_ready_delayed (ce_promote_now env) g1"
  have g2: "covered {} ?g2"
    by (rule covered_shrink [OF g1]) (simp_all add: promote_live, simp_all add: promote_ready_delayed_def)
  have grant: "covered {} (grant_lease now p rest ?g2)" if "g_pending ?g2 = p # rest" for now p rest
    by (rule covered_shrink [OF g2]) (use grant_live [OF that] in auto, simp_all add: grant_lease_def)
  have "snd (claim_pass display env g) \<in> {g1, ?g2} \<union>
      {cg_notify NotifyOne (grant_lease (ce_lease_now env) p rest ?g2) |p rest. g_pending ?g2 = p # rest}"
    using r by (auto simp: claim_pass_def Let_def split: sum.splits list.splits option.splits)
  then show ?thesis using g1 g2 grant by auto
qed

lemma live_update_lease:
  assumes "map_of (g_leased g) i = Some l" and "l_key l' = l_key l" and "l_item l' = l_item l"
  shows "set (cg_live (g \<lparr> g_leased := AList.update i l' (g_leased g) \<rparr>)) \<subseteq> set (cg_live g)"
  using set_update_subset [of i l' "g_leased g"] map_of_SomeD [OF assms(1)] assms(2,3)
  by (fastforce simp: cg_live_def)

lemma take_lease_covered:
  assumes "cg_inv g" and "covered {} g" and "take_lease i token g = (Some l, g')"
  shows "covered {(i, l_key l, l_item l)} g'" and "i \<notin> fst ` set (cg_live g')"
proof -
  have "map_of (g_leased g) i = Some l" and g': "g' = g \<lparr> g_leased := AList.delete i (g_leased g) \<rparr>"
    using assms(3) by (auto simp: take_lease_def split: option.splits if_splits)
  then have "(i, l_key l, l_item l) \<in> set (cg_live g)" "set (cg_live g') \<subseteq> set (cg_live g)"
    using map_of_SomeD [of "g_leased g" i l] by (force simp: cg_live_def, auto simp: cg_live_def AList.delete_eq)
  then show "covered {(i, l_key l, l_item l)} g'"
    using assms(2) by (auto simp: covered_def g')
  show "i \<notin> fst ` set (cg_live g')"
    using take_lease_effect(3) [OF assms(1,3)] live_msgs_ids [of g'] by blast
qed

lemma ack_covered:
  assumes "cg_inv g" and "covered {} g"
  shows "covered {} (snd (cg_ack i token out g))"
proof (cases "take_lease i token g")
  case (Pair lease g1)
  show ?thesis
  proof (cases lease)
    case None
    then have "g1 = g" using Pair by (auto simp: take_lease_def split: option.splits if_splits)
    with None Pair assms(2) show ?thesis by (simp add: cg_ack_def ack_release_def)
  next
    case (Some l)
    note cov = take_lease_covered [OF assms Pair [unfolded Some]]
    let ?g = "release_key (l_key l) g1"
    have g: "covered {} ?g" "i \<notin> fst ` set (cg_live ?g)"
      using covered_mono [OF cov(1), of "{}"] cov(2) by simp_all
    then have "covered {} (?g \<lparr> g_wal := g_wal ?g @ [CgAck i] \<rparr>)"
      by (intro covered_removal) auto
    then show ?thesis
      using Pair Some g(1)
      by (cases rule: cg_log_cases [of out "CgAck i" ?g]) (simp_all add: cg_ack_def ack_release_def)
  qed
qed

lemma nack_covered:
  assumes "cg_inv g" and "covered {} g"
  shows "covered {} (snd (cg_nack env i token reason g))"
proof (cases "take_lease i token g")
  case (Pair lease g1)
  show ?thesis
  proof (cases lease)
    case None
    then have "g1 = g" using Pair by (auto simp: take_lease_def split: option.splits if_splits)
    with None Pair assms(2) show ?thesis by (simp add: cg_nack_def)
  next
    case (Some l)
    note cov = take_lease_covered [OF assms Pair [unfolded Some]]
    obtain r g2 where res: "resolve_failed_delivery env i (l_item l) (l_delivery_count l) (l_key l) (l_checkpoint l) reason g1 = (r, g2)"
      by fastforce
    have "covered {} g2" using resolve_covered(1) [OF cov _ res] by simp
    then show ?thesis using Pair Some res by (cases r) (simp_all add: cg_nack_def)
  qed
qed

lemma write_enqueue_covered:
  assumes "covered {} g"
  shows "covered {} (snd (write_enqueue_record i item key out g))"
proof (cases rule: write_enqueue_cases [of out i item key g])
  case ok
  then show ?thesis
    using assms by (auto simp: covered_def push_pending_def cg_live_def fresh_pending_def)
next
  case (err e g1)
  then show ?thesis using assms by (auto simp: covered_def)
qed

lemma enqueue_covered:
  assumes "covered {} g"
  shows "covered {} (snd (enqueue_with_id_and_key i item key out g))"
proof -
  obtain r g1 where g1: "reserve_key i key g = (r, g1)" by fastforce
  then have "covered {} g1" using assms by (auto simp: reserve_key_def split: option.splits)
  then show ?thesis
    using g1 write_enqueue_covered [of g1] by (simp add: enqueue_with_id_and_key_def split: option.splits)
qed

lemma checkpoint_covered:
  assumes "covered {} g"
  shows "covered {} (snd (cg_checkpoint i token v out g))"
proof (cases "map_of (g_leased g) i")
  case None
  then show ?thesis using assms by (simp add: cg_checkpoint_def holds_lease_def)
next
  case (Some l)
  have wal: "covered {} (g \<lparr> g_wal := g_wal g @ [CgCheckpoint i v] \<rparr>)" using assms by (simp add: covered_def)
  have "covered {} (g \<lparr> g_wal := g_wal g @ [CgCheckpoint i v], g_leased := AList.update i (l \<lparr> l_checkpoint := Some v \<rparr>) (g_leased g) \<rparr>)"
    by (rule covered_shrink [OF wal])
      (use live_update_lease [of "g \<lparr> g_wal := g_wal g @ [CgCheckpoint i v] \<rparr>" i l] Some in auto)
  then show ?thesis
    using assms Some wal
    by (cases rule: cg_log_cases [of out "CgCheckpoint i v" g])
      (auto simp: cg_checkpoint_def checkpoint_lease_def update_lease_def holds_lease_def)
qed

lemma publish_covered:
  assumes "covered {} g"
  shows "covered {} (snd (publish_partial_result i token v final g))"
proof (cases "map_of (g_leased g) i")
  case None
  then show ?thesis using assms by (simp add: publish_partial_result_def)
next
  case (Some l)
  have "covered {} (g \<lparr> g_leased := AList.update i (l \<lparr> l_stream := s \<rparr>) (g_leased g) \<rparr>)" for s
    by (rule covered_shrink [OF assms]) (use live_update_lease [OF Some] in auto)
  then show ?thesis using assms Some by (simp add: publish_partial_result_def Let_def)
qed

lemma dlq_take_covered:
  "covered {} g \<Longrightarrow> dlq_take i out (g_dlq g) = (res, q) \<Longrightarrow> covered {} (g \<lparr> g_dlq := q \<rparr>)"
  using dlq_calls_covered(2) [of "g_dlq g" i out] by (simp add: covered_def)

lemma step_covered:
  assumes "cg_inv g" and "covered {} g"
  shows "covered {} (cg_step display c g)"
proof (cases c)
  case (GAnnotate i v out)
  then show ?thesis
    using assms(2) dlq_calls_covered(3) [of "g_dlq g" i v out]
    by (auto simp: annotate_dead_letter_def covered_def split: prod.splits)
next
  case (GReprocess i dlq_out out)
  obtain res q where q: "dlq_take i dlq_out (g_dlq g) = (res, q)" by fastforce
  then show ?thesis
    using dlq_take_covered [OF assms(2) q] write_enqueue_covered [of "g \<lparr> g_dlq := q \<rparr>"]
    by (simp add: GReprocess reprocess_result [OF q] split: sum.splits option.splits)
next
  case (GPurge i dlq_out)
  obtain res q where q: "dlq_take i dlq_out (g_dlq g) = (res, q)" by fastforce
  then show ?thesis
    using dlq_take_covered [OF assms(2) q]
    by (auto simp: GPurge purge_dead_letter_def split: sum.splits option.splits)
qed (use assms in \<open>simp_all add: enqueue_covered claim_covered ack_covered nack_covered checkpoint_covered publish_covered\<close>)

lemma reach_covered:
  assumes "cg_reach display g0 g" and "cg_inv g0" and "covered {} g0"
  shows "covered {} g"
  using assms(1)
proof (induction rule: cg_reach.induct)
  case start
  show ?case by (rule assms(3))
next
  case (call g c)
  then show ?case using step_covered cg_reach_inv assms(2) by blast
qed

section \<open>Restart\<close>

lemma open_pending:
  assumes "cg_open vt rp rank (Inr w) (Inr dw) = Inr g"
  shows "set (cg_live g) = wal_msgs w" and "dlq_entries (g_dlq g) = dlq_replay dw"
    and "\<forall>p\<in>set (g_pending g). p_delivery_count p = 0" and "g_leased g = []" and "g_delayed g = []"
proof -
  obtain pend dedup cps where r: "cg_replay w = (pend, dedup, cps)" by (cases "cg_replay w")
  have g: "g_pending g = attach_checkpoints pend cps" "g_leased g = []" "g_delayed g = []"
    "g_dlq g = \<lparr> dlq_entries = dlq_replay dw, dlq_wal = dw \<rparr>"
    using assms r by (auto simp: cg_open_def dlq_open_def)
  have att: "map (\<lambda>p. (p_id p, p_key p, p_item p)) (attach_checkpoints pend cps) =
      map (\<lambda>p. (p_id p, p_key p, p_item p)) pend \<and>
      map p_delivery_count (attach_checkpoints pend cps) = map p_delivery_count pend" for pend :: "('a, 'b) pending list" and cps
    by (induction pend arbitrary: cps) auto
  have "set (cg_live g) = (\<lambda>p. (p_id p, p_key p, p_item p)) ` set (attach_checkpoints pend cps)"
    by (simp add: cg_live_def g)
  also have "\<dots> = wal_msgs w" using arg_cong [OF att [THEN conjunct1], of set] by (simp add: wal_msgs_def r)
  finally show "set (cg_live g) = wal_msgs w" .
  have zero: "\<forall>p\<in>set (fst (fold cg_apply w s)). p_delivery_count p = 0"
    if "\<forall>p\<in>set (fst s). p_delivery_count p = 0" for s :: "('a, 'b) cg_replay_state"
    using that
  proof (induction w arbitrary: s)
    case (Cons x w)
    have "\<forall>p\<in>set (fst (cg_apply x s)). p_delivery_count p = 0"
    proof -
      obtain pend dedup cps where s: "s = (pend, dedup, cps)" by (cases s)
      have "set (fst (cg_apply x s)) \<subseteq> set pend \<union> {p. p_delivery_count p = 0}"
        using set_remove_first_subset [of _ pend]
        by (cases x) (auto simp: s fresh_pending_def split: option.splits)
      then show ?thesis using Cons.prems by (auto simp: s)
    qed
    then show ?case using Cons.IH by simp
  qed simp
  have "\<forall>p\<in>set pend. p_delivery_count p = 0"
    using zero [of "([], Map.empty, Map.empty)"] r by (simp add: cg_replay_def)
  then show "\<forall>p\<in>set (g_pending g). p_delivery_count p = 0"
  proof -
    have "p_delivery_count ` set (g_pending g) = p_delivery_count ` set pend"
      using arg_cong [OF att [THEN conjunct2], of set] by (simp add: g)
    then show ?thesis using \<open>\<forall>p\<in>set pend. p_delivery_count p = 0\<close> by (auto dest: equalityD1)
  qed
qed (use assms in \<open>auto simp: cg_open_def dlq_open_def split: prod.splits\<close>)

text \<open>
  At-least-once across a restart. Take any calls, whatever their log writes did (failed, or
  reported as failed after the record reached the file, in any combination), then a restart at any
  point: every message the group held, pending, leased or waiting for a retry, is pending again with
  its key and its item and with its delivery count reset, and every dead letter is a dead letter.
\<close>

lemma restart_keeps_every_message:
  assumes "cg_open vt rp rank (Inr []) (Inr []) = Inr g0" and "cg_reach display g0 g"
    and "cg_open vt rp rank' (Inr (g_wal g)) (Inr (dlq_wal (g_dlq g))) = Inr g1"
  shows "set (cg_live g) \<subseteq> (\<lambda>p. (p_id p, p_key p, p_item p)) ` set (g_pending g1) \<and>
    (\<forall>p\<in>set (g_pending g1). p_delivery_count p = 0) \<and>
    fst ` set (cg_dead g) \<subseteq> fst ` set (cg_dead g1)"
proof -
  have "covered {} g0"
    using assms(1) by (auto simp: covered_def dlq_covered_def cg_open_def cg_replay_def dlq_open_def dlq_replay_def cg_live_def)
  then have cov: "covered {} g" using reach_covered [OF assms(2) cg_open_empty [OF assms(1)]] by simp
  note g1 = open_pending [OF assms(3)]
  have "set (cg_live g1) = (\<lambda>p. (p_id p, p_key p, p_item p)) ` set (g_pending g1)"
    by (simp add: cg_live_def g1)
  moreover have "fst ` set (cg_dead h) = dom (map_of (dlq_entries (g_dlq h)))" for h :: "('a, 'b) group"
    by (force simp: cg_dead_def dom_map_of_conv_image_fst)
  ultimately show ?thesis
    using cov g1(1-3) by (simp add: covered_def dlq_covered_def)
qed

section \<open>Exact recovery\<close>

text \<open>
  With acknowledged log writes nothing comes back that should not: the identifiers in the log are
  those of the live messages and of the messages \<open>F\<close> a call has taken out.
\<close>

definition wal_ids :: "('a, 'v) cg_record list \<Rightarrow> message_id set" where
  "wal_ids w = p_id ` set (fst (cg_replay w))"

definition live_ids :: "('a, 'v) group \<Rightarrow> message_id set" where
  "live_ids g = fst ` set (cg_live g)"

definition tight :: "message_id set \<Rightarrow> ('a, 'v) group \<Rightarrow> bool" where
  "tight F g \<longleftrightarrow> wal_ids (g_wal g) \<subseteq> live_ids g \<union> F \<and> distinct (map p_id (fst (cg_replay (g_wal g)))) \<and>
     dlq_entries (g_dlq g) = dlq_replay (dlq_wal (g_dlq g))"

lemma live_ids_alt:
  "live_ids g = p_id ` set (g_pending g) \<union> fst ` set (g_leased g) \<union> d_id ` set (g_delayed g)"
  by (simp add: live_ids_def cg_live_def image_Un image_image split_def Un_assoc)

lemma wal_ids_alt: "wal_ids w = fst ` wal_msgs w"
  by (force simp: wal_ids_def wal_msgs_def)

lemma wal_ids_enqueue [simp]: "wal_ids (w @ [CgEnqueue i key x]) = insert i (wal_ids w)"
  by (simp add: wal_ids_alt)

lemma wal_ids_checkpoint [simp]: "wal_ids (w @ [CgCheckpoint i v]) = wal_ids w"
  by (simp add: wal_ids_alt)

lemma replay_checkpoint_pending [simp]: "fst (cg_replay (w @ [CgCheckpoint i v])) = fst (cg_replay w)"
  by (cases "cg_replay w") (simp add: cg_replay_snoc)

lemma replay_enqueue_pending: "fst (cg_replay (w @ [CgEnqueue i key x])) = fst (cg_replay w) @ [fresh_pending i x key]"
  by (cases "cg_replay w") (simp add: cg_replay_snoc)

lemma tight_removal:
  assumes "tight (insert i F) g" and "r = CgAck i \<or> r = CgDeadLettered i"
  shows "tight F (g \<lparr> g_wal := g_wal g @ [r] \<rparr>)"
proof -
  let ?ps = "fst (cg_replay (g_wal g))"
  have dist: "distinct (map p_id ?ps)" using assms(1) by (simp add: tight_def)
  have "fst (cg_replay (g_wal g @ [r])) = filter (\<lambda>p. p_id p \<noteq> i) ?ps"
    using assms(2) remove_first_eq_filter [OF dist, of i] by (auto simp: fst_replay_removal)
  then show ?thesis
    using assms(1) distinct_map_filter [OF dist] by (auto simp: tight_def wal_ids_def live_ids_def)
qed

lemma tight_grow:
  "tight F g \<Longrightarrow> live_ids g \<union> F \<subseteq> live_ids g' \<union> F' \<Longrightarrow> g_wal g' = g_wal g \<Longrightarrow> g_dlq g' = g_dlq g \<Longrightarrow> tight F' g'"
  by (auto simp: tight_def)

lemma live_ids_irrelevant [simp]:
  "live_ids (cg_notify n g) = live_ids g" "live_ids (release_key key g) = live_ids g"
  "live_ids (g \<lparr> g_wal := w \<rparr>) = live_ids g" "live_ids (g \<lparr> g_dlq := q \<rparr>) = live_ids g"
  "live_ids (g \<lparr> g_dedup := d \<rparr>) = live_ids g"
  by (simp_all add: live_ids_def)

lemma tight_irrelevant [simp]:
  "tight F (cg_notify n g) = tight F g" "tight F (release_key key g) = tight F g"
  "tight F (g \<lparr> g_dedup := d \<rparr>) = tight F g"
  by (simp_all add: tight_def)

definition dlq_exact :: "('a, 'v) dlq \<Rightarrow> bool" where
  "dlq_exact q \<longleftrightarrow> dlq_entries q = dlq_replay (dlq_wal q)"

lemma dlq_calls_exact:
  assumes "dlq_exact q"
  shows "dlq_exact (snd (dlq_record d Logged q))" "dlq_exact (snd (dlq_take i Logged q))"
    "dlq_exact (snd (dlq_annotate i v Logged q))"
proof -
  have "dlq_exact (dlq_call_step c q)" if "dlq_faithful c" for c
    using ds.faithful_call [OF that, of q] assms by (auto simp: dlq_exact_def dlq_replay_def)
  from this [of "CallRecord d Logged"] this [of "CallTake i Logged"] this [of "CallAnnotate i v Logged"]
  show "dlq_exact (snd (dlq_record d Logged q))" "dlq_exact (snd (dlq_take i Logged q))"
    "dlq_exact (snd (dlq_annotate i v Logged q))" by simp_all
qed

lemma tight_dlq: "tight F g \<Longrightarrow> dlq_exact q \<Longrightarrow> tight F (g \<lparr> g_dlq := q \<rparr>)"
  by (simp add: tight_def dlq_exact_def)

lemma resolve_tight:
  assumes "tight (insert i F) g" and "good_resolve env" and "good_policy g"
    and "resolve_failed_delivery env i item dc key cp reason g = (res, g')"
  shows "tight F g'" and "res = Inr ()" and "good_policy g'"
proof -
  have outs: "re_dlq_out env = Logged" "re_wal_out env = Logged" using assms(2) by (simp_all add: good_resolve_def)
  show "res = Inr ()" using resolve_good [OF assms(2,3)] assms(4) by (metis fst_conv)
  show "good_policy g'"
    using resolve_policy [of env i item dc key cp reason g] assms(3,4) by (simp add: good_policy_def)
  show "tight F g'"
  proof (cases "is_exhausted (g_retry_policy g) dc")
    case True
    let ?d = "\<lparr> dl_id = i, dl_idempotency_key = key, dl_item = item, dl_delivery_count = dc,
      dl_last_error = reason, dl_dead_lettered_at = re_timestamp env, dl_checkpoint = cp, dl_triage = None \<rparr>"
    let ?q = "snd (dlq_record ?d Logged (g_dlq g))"
    have "dlq_exact ?q" using dlq_calls_exact(1) [of "g_dlq g"] assms(1) by (simp add: tight_def dlq_exact_def)
    then have "tight (insert i F) (g \<lparr> g_dlq := ?q \<rparr>)" by (rule tight_dlq [OF assms(1)])
    from tight_removal [OF this, of "CgDeadLettered i"]
    have "tight F (g \<lparr> g_dlq := ?q, g_wal := g_wal g @ [CgDeadLettered i] \<rparr>)" by simp
    moreover have "g' = g \<lparr> g_dlq := ?q, g_wal := g_wal g @ [CgDeadLettered i] \<rparr>"
      using assms(4) True outs by (auto simp: resolve_failed_delivery_def cg_log_def dlq_record_def dlq_log_def)
    ultimately show ?thesis by simp
  next
    case False
    obtain delay where "delay_for (re_draw env) (g_retry_policy g) dc = Some delay"
      using delay_for_bounded [of "re_draw env" "g_retry_policy g" dc] assms(2,3)
      by (auto simp: good_resolve_def good_policy_def)
    then have "\<exists>t. g' = g \<lparr> g_delayed := g_delayed g @ [\<lparr> d_id = i, d_item = item, d_delivery_count = dc,
        d_available_at = t, d_key = key, d_checkpoint = cp \<rparr>] \<rparr>"
      using assms(4) False by (auto simp: resolve_failed_delivery_def)
    then show ?thesis
      by (auto intro!: tight_grow [OF assms(1)] simp: live_ids_def live_delayed)
  qed
qed

lemma resolve_all_tight:
  assumes "tight (fst ` set expired) g" and "\<forall>i. good_resolve (env i)" and "good_policy g"
  shows "tight {} (snd (resolve_all env expired g))"
  using assms(1,3)
proof (induction expired arbitrary: g)
  case (Cons il expired)
  obtain i l where il: "il = (i, l)" by (cases il)
  obtain r g1 where res: "resolve_failed_delivery (env i) i (l_item l) (l_delivery_count l) (l_key l)
      (l_checkpoint l) (Some ''visibility timeout expired'') g = (r, g1)" by fastforce
  have "tight (insert i (fst ` set expired)) g" using Cons.prems(1) by (simp add: il)
  note t = resolve_tight [OF this assms(2) [rule_format] Cons.prems(2) res]
  then show ?case using Cons.IH [OF t(1,3)] res by (simp add: il)
qed simp

lemma reclaim_tight:
  assumes "tight {} g" and "\<forall>i. good_resolve (env i)" and "good_policy g"
    and "reclaim_expired_leases rank now env g = (res, g')"
  shows "tight {} g'"
proof -
  define expired where "expired = expired_leases rank now g"
  let ?g1 = "remove_leases (map fst expired) g"
  have "tight (fst ` set expired) ?g1"
  proof (rule tight_grow [OF assms(1)])
    show "live_ids g \<union> {} \<subseteq> live_ids ?g1 \<union> fst ` set expired"
      by (auto simp: live_ids_alt remove_leases_def fold_delete)
  qed (simp_all add: remove_leases_def)
  then have "tight {} (snd (resolve_all env expired ?g1))"
    using assms(2,3) by (intro resolve_all_tight) (simp_all add: good_policy_def remove_leases_def)
  moreover have "g' \<in> {g, snd (resolve_all env expired ?g1), cg_notify NotifyWaiters (snd (resolve_all env expired ?g1))}"
    using assms(4) by (auto simp: reclaim_expired_leases_def Let_def expired_def split: prod.splits sum.splits if_splits)
  ultimately show ?thesis using assms(1) by auto
qed

lemma grant_live_ids:
  "g_pending g = p # rest \<Longrightarrow> live_ids g \<subseteq> live_ids (grant_lease now p rest g)"
  by (auto simp: live_ids_alt grant_lease_def AList.dom_update)

lemma promote_live_ids: "live_ids (promote_ready_delayed now g) = live_ids g"
  by (simp add: live_ids_def promote_live)

lemma claim_tight:
  assumes "tight {} g" and "\<forall>i. good_resolve (ce_resolve env i)" and "good_policy g"
  shows "tight {} (snd (claim_pass display env g))"
proof -
  obtain r g1 where r: "reclaim_expired_leases (ce_rank env) (ce_reclaim_now env) (ce_resolve env) g = (r, g1)"
    by fastforce
  have g1: "tight {} g1" by (rule reclaim_tight [OF assms r])
  let ?g2 = "promote_ready_delayed (ce_promote_now env) g1"
  have g2: "tight {} ?g2"
    by (rule tight_grow [OF g1]) (simp_all add: promote_live_ids, simp_all add: promote_ready_delayed_def)
  have grant: "tight {} (grant_lease now p rest ?g2)" if "g_pending ?g2 = p # rest" for now p rest
    by (rule tight_grow [OF g2]) (use grant_live_ids [OF that] in auto, simp_all add: grant_lease_def)
  have "snd (claim_pass display env g) \<in> {g1, ?g2} \<union>
      {cg_notify NotifyOne (grant_lease (ce_lease_now env) p rest ?g2) |p rest. g_pending ?g2 = p # rest}"
    using r by (auto simp: claim_pass_def Let_def split: sum.splits list.splits option.splits)
  then show ?thesis using g1 g2 grant by auto
qed

lemma take_lease_tight:
  assumes "tight {} g" and "take_lease i token g = (Some l, g')"
  shows "tight {i} g'"
proof (rule tight_grow [OF assms(1)])
  show "live_ids g \<union> {} \<subseteq> live_ids g' \<union> {i}"
    using assms(2) by (auto simp: take_lease_def live_ids_alt AList.delete_eq split: option.splits if_splits)
qed (use assms(2) in \<open>auto simp: take_lease_def split: option.splits if_splits\<close>)

lemma ack_tight: "tight {} g \<Longrightarrow> tight {} (snd (cg_ack i token Logged g))"
proof (cases "take_lease i token g")
  case (Pair lease g1)
  assume tight: "tight {} g"
  show ?thesis
  proof (cases lease)
    case None
    then have "g1 = g" using Pair by (auto simp: take_lease_def split: option.splits if_splits)
    with None Pair tight show ?thesis by (simp add: cg_ack_def ack_release_def)
  next
    case (Some l)
    then have "tight {i} (release_key (l_key l) g1)" using take_lease_tight [OF tight] Pair by simp
    from tight_removal [OF this, of "CgAck i"] Some Pair show ?thesis
      by (simp add: cg_ack_def ack_release_def cg_log_def)
  qed
qed

lemma nack_tight:
  assumes "tight {} g" and "good_resolve env" and "good_policy g"
  shows "tight {} (snd (cg_nack env i token reason g))"
proof (cases "take_lease i token g")
  case (Pair lease g1)
  show ?thesis
  proof (cases lease)
    case None
    then have "g1 = g" using Pair by (auto simp: take_lease_def split: option.splits if_splits)
    with None Pair assms show ?thesis by (simp add: cg_nack_def)
  next
    case (Some l)
    obtain r g2 where res: "resolve_failed_delivery env i (l_item l) (l_delivery_count l) (l_key l) (l_checkpoint l) reason g1 = (r, g2)"
      by fastforce
    have "good_policy g1"
      using assms(3) Pair by (auto simp: good_policy_def take_lease_def split: option.splits if_splits)
    then show ?thesis
      using resolve_tight [OF take_lease_tight [OF assms(1) Pair [unfolded Some]] assms(2) _ res] Pair Some res
      by (simp add: cg_nack_def)
  qed
qed

lemma write_enqueue_tight:
  assumes "tight {} g" and "i \<notin> live_ids g"
  shows "tight {} (snd (write_enqueue_record i item key Logged g))"
proof -
  have "i \<notin> wal_ids (g_wal g)" using assms by (auto simp: tight_def)
  then show ?thesis
    using assms
    by (auto simp: tight_def write_enqueue_record_def cg_log_def push_pending_def live_ids_alt replay_enqueue_pending
        fresh_pending_def wal_ids_def)
qed

lemma live_ids_subset: "live_ids g \<subseteq> cg_ids g"
  by (auto simp: live_ids_def cg_ids_def cg_msgs_def)

lemma step_tight:
  assumes "cg_inv g" and "tight {} g" and "good_policy g" and "fresh_call c g" and "good_call c"
  shows "tight {} (cg_step display c g)"
proof (cases c)
  case (GEnqueue i item key out)
  obtain r g1 where g1: "reserve_key i key g = (r, g1)" by fastforce
  then have "tight {} g1" "live_ids g1 = live_ids g"
    using assms(2) by (auto simp: reserve_key_def split: option.splits)
  moreover have "i \<notin> live_ids g" using assms(4) live_ids_subset [of g] by (auto simp: GEnqueue)
  ultimately show ?thesis
    using g1 assms(5) write_enqueue_tight [of g1 i] by (simp add: GEnqueue enqueue_with_id_and_key_def split: option.splits)
next
  case (GCheckpoint i token v out)
  then show ?thesis
    using assms(2,5)
    by (auto simp: tight_def cg_checkpoint_def cg_log_def checkpoint_lease_def update_lease_def holds_lease_def
        live_ids_alt AList.dom_update split: option.splits)
next
  case (GPublish i token v final)
  then show ?thesis
    using assms(2) by (auto simp: tight_def publish_partial_result_def Let_def live_ids_alt AList.dom_update split: option.splits)
next
  case (GAnnotate i v out)
  have "dlq_exact (snd (dlq_annotate i v Logged (g_dlq g)))"
    using dlq_calls_exact(3) [of "g_dlq g" i v] assms(2) by (simp add: tight_def dlq_exact_def)
  then show ?thesis
    using tight_dlq [OF assms(2)] assms(5) by (auto simp: GAnnotate annotate_dead_letter_def split: prod.splits)
next
  case (GReprocess i dlq_out out)
  obtain res q where q: "dlq_take i Logged (g_dlq g) = (res, q)" by fastforce
  have t: "tight {} (g \<lparr> g_dlq := q \<rparr>)"
    using tight_dlq [OF assms(2)] dlq_calls_exact(2) [of "g_dlq g" i] assms(2) q by (simp add: tight_def dlq_exact_def)
  show ?thesis
    using assms(1) q
  proof (cases rule: dlq_take_effect)
    case absent
    then show ?thesis using q t assms(5) by (simp add: GReprocess reprocess_result)
  next
    case (taken d)
    then have "i \<notin> live_ids (g \<lparr> g_dlq := q \<rparr>)" using live_ids_subset by blast
    with taken t show ?thesis
      using write_enqueue_tight [OF t, of i "dl_item d" "dl_idempotency_key d"] q assms(5)
      by (auto simp: GReprocess reprocess_result)
  qed
next
  case (GPurge i dlq_out)
  obtain res q where q: "dlq_take i Logged (g_dlq g) = (res, q)" by fastforce
  have t: "tight {} (g \<lparr> g_dlq := q \<rparr>)"
    using tight_dlq [OF assms(2)] dlq_calls_exact(2) [of "g_dlq g" i] assms(2) q by (simp add: tight_def dlq_exact_def)
  then show ?thesis
    using q assms(5) by (auto simp: GPurge purge_dead_letter_def split: sum.splits option.splits)
qed (use assms in \<open>simp_all add: claim_tight ack_tight nack_tight\<close>)

subsection \<open>Keys\<close>

definition wal_keys :: "('a, 'v) cg_record list \<Rightarrow> idempotency_key \<rightharpoonup> message_id" where
  "wal_keys w = fst (snd (cg_replay w))"

definition keyed :: "('a, 'v) group \<Rightarrow> bool" where
  "keyed g \<longleftrightarrow> (\<forall>i k x. (i, Some k, x) \<in># cg_msgs g \<longrightarrow> wal_keys (g_wal g) k = Some i)"

lemma keyedD: "keyed g \<Longrightarrow> (i, Some k, x) \<in># cg_msgs g \<Longrightarrow> wal_keys (g_wal g) k = Some i"
  unfolding keyed_def by blast

lemma wal_keys_snoc [simp]:
  "wal_keys (w @ [CgEnqueue i key x]) = (case key of None \<Rightarrow> wal_keys w | Some k \<Rightarrow> (wal_keys w)(k \<mapsto> i))"
  "wal_keys (w @ [CgDeadLettered i]) = wal_keys w" "wal_keys (w @ [CgCheckpoint i v]) = wal_keys w"
  by (cases "cg_replay w"; simp add: wal_keys_def cg_replay_snoc split: option.splits)+

lemma wal_keys_ack:
  "wal_keys (w @ [CgAck i]) k = wal_keys w k \<or> (\<exists>x. (i, Some k, x) \<in> wal_msgs w)"
  by (cases "cg_replay w")
    (force simp: wal_keys_def wal_msgs_def cg_replay_snoc find_Some_iff image_iff split: option.splits dest: nth_mem)

lemma keyed_mono:
  "keyed g \<Longrightarrow> set_mset (cg_msgs g') \<subseteq> set_mset (cg_msgs g) \<Longrightarrow> wal_keys (g_wal g') = wal_keys (g_wal g) \<Longrightarrow> keyed g'"
  by (auto simp: keyed_def)

lemma resolve_keys:
  "wal_keys (g_wal (snd (resolve_failed_delivery env i item dc key cp reason g))) = wal_keys (g_wal g)"
  by (cases "re_wal_out env")
    (auto simp: resolve_failed_delivery_def cg_log_def split: prod.splits sum.splits option.splits)

lemma resolve_all_keys: "wal_keys (g_wal (snd (resolve_all env expired g))) = wal_keys (g_wal g)"
proof (induction expired arbitrary: g)
  case (Cons il expired)
  obtain i l where il: "il = (i, l)" by (cases il)
  obtain r g1 where res: "resolve_failed_delivery (env i) i (l_item l) (l_delivery_count l) (l_key l)
      (l_checkpoint l) (Some ''visibility timeout expired'') g = (r, g1)" by fastforce
  have "wal_keys (g_wal g1) = wal_keys (g_wal g)"
    using resolve_keys [of "env i" i "l_item l" "l_delivery_count l" "l_key l" "l_checkpoint l" _ g] res by (metis snd_conv)
  moreover have "snd (resolve_all env (il # expired) g) \<in> {g1, snd (resolve_all env expired g1)}"
    using res by (auto simp: il split: sum.splits cg_error.splits)
  ultimately show ?case using Cons.IH [of g1] by auto
qed simp

lemma claim_keys: "wal_keys (g_wal (snd (claim_pass display env g))) = wal_keys (g_wal g)"
proof -
  obtain r g1 where r: "reclaim_expired_leases (ce_rank env) (ce_reclaim_now env) (ce_resolve env) g = (r, g1)"
    by fastforce
  let ?ex = "expired_leases (ce_rank env) (ce_reclaim_now env) g"
  let ?g0 = "snd (resolve_all (ce_resolve env) ?ex (remove_leases (map fst ?ex) g))"
  have "g1 \<in> {g, ?g0, cg_notify NotifyWaiters ?g0}"
    using r by (auto simp: reclaim_expired_leases_def Let_def split: prod.splits sum.splits if_splits)
  then have "wal_keys (g_wal g1) = wal_keys (g_wal g)"
    using resolve_all_keys [of "ce_resolve env" ?ex "remove_leases (map fst ?ex) g"] by (auto simp: remove_leases_def)
  moreover have "g_wal (snd (claim_pass display env g)) = g_wal g1"
    using r by (auto simp: claim_pass_def Let_def promote_ready_delayed_def grant_lease_def
        split: sum.splits list.splits option.splits)
  ultimately show ?thesis by simp
qed

lemma nack_keys: "wal_keys (g_wal (snd (cg_nack env i token reason g))) = wal_keys (g_wal g)"
proof (cases rule: nack_cases [of env i token reason g])
  case (resolved l g1)
  have "wal_keys (g_wal (snd (resolve_failed_delivery env i (l_item l) (l_delivery_count l) (l_key l) (l_checkpoint l) reason g1))) = wal_keys (g_wal g)"
    by (simp add: resolve_keys resolved(3))
  with resolved(4) show ?thesis by (auto simp: Let_def)
qed simp

lemma ack_wal:
  "g_wal (snd (cg_ack i token Logged g)) = (if holds_lease i token g then g_wal g @ [CgAck i] else g_wal g)"
  by (auto simp: cg_ack_def ack_release_def take_lease_def holds_lease_def cg_log_def split: option.splits)

lemma exact_log:
  assumes "cg_inv g" and "covered {} g" and "tight {} g"
  shows "wal_msgs (g_wal g) = set (cg_live g)"
proof -
  have dist: "inj_on fst (wal_msgs (g_wal g))"
  proof -
    have "inj_on p_id (set (fst (cg_replay (g_wal g))))" using assms(3) by (simp add: tight_def distinct_map)
    then show ?thesis by (auto simp: wal_msgs_def inj_on_def)
  qed
  show ?thesis
  proof
    show "set (cg_live g) \<subseteq> wal_msgs (g_wal g)" using assms(2) by (simp add: covered_def)
    show "wal_msgs (g_wal g) \<subseteq> set (cg_live g)"
    proof
      fix m assume m: "m \<in> wal_msgs (g_wal g)"
      then have "fst m \<in> live_ids g" using assms(3) by (auto simp: tight_def wal_ids_alt)
      then obtain m' where m': "m' \<in> set (cg_live g)" "fst m' = fst m" by (auto simp: live_ids_def)
      then have "m' \<in> wal_msgs (g_wal g)" using assms(2) by (auto simp: covered_def)
      then have "m' = m" using inj_onD [OF dist m'(2)] m by blast
      with m' show "m \<in> set (cg_live g)" by simp
    qed
  qed
qed

lemma ack_keyed:
  assumes "cg_inv g" and "covered {} g" and "tight {} g" and "keyed g"
  shows "keyed (snd (cg_ack i token Logged g))"
proof (unfold keyed_def, intro allI impI)
  fix j k x
  let ?g = "snd (cg_ack i token Logged g)"
  assume "(j, Some k, x) \<in># cg_msgs ?g"
  then have m: "(j, Some k, x) \<in># cg_msgs g"
    unfolding ack_good [OF assms(1), of i token, symmetric] by simp
  show "wal_keys (g_wal ?g) k = Some j"
  proof (cases "holds_lease i token g")
    case False
    then show ?thesis using keyedD [OF assms(4) m] by (simp add: ack_wal)
  next
    case True
    have no: False if "(i, Some k, y) \<in> wal_msgs (g_wal g)" for y
    proof -
      have "(i, Some k, y) \<in># cg_msgs g"
        using that exact_log [OF assms(1-3)] by (simp add: cg_msgs_def)
      then have "i = j" using cg_inv_key [OF assms(1), of i k] cg_inv_key [OF assms(1) m] by simp
      moreover have "j \<noteq> i"
      proof -
        obtain l where l: "take_lease i token g = (Some l, g \<lparr> g_leased := AList.delete i (g_leased g) \<rparr>)"
          using True by (auto simp: take_lease_def holds_lease_def split: option.splits)
        have "cg_msgs ?g = cg_msgs (g \<lparr> g_leased := AList.delete i (g_leased g) \<rparr>)"
          using l by (simp add: cg_ack_def ack_release_def cg_log_def)
        then show ?thesis
          using take_lease_effect(3) [OF assms(1) l] \<open>(j, Some k, x) \<in># cg_msgs ?g\<close> mem_ids by fastforce
      qed
      ultimately show False by simp
    qed
    then show ?thesis
      using True wal_keys_ack [of "g_wal g" i k] keyedD [OF assms(4) m] by (auto simp: ack_wal)
  qed
qed

lemma write_enqueue_keyed:
  assumes "cg_inv g" and "keyed g" and "i \<notin> cg_ids g" and "owns (g_dedup g) i key"
  shows "keyed (snd (write_enqueue_record i item key Logged g))"
proof (unfold keyed_def, intro allI impI)
  fix j k x
  let ?g = "snd (write_enqueue_record i item key Logged g)"
  assume m: "(j, Some k, x) \<in># cg_msgs ?g"
  have inv: "cg_inv ?g" by (rule write_enqueue_inv [OF assms(1,3,4)])
  have msgs: "cg_msgs ?g = add_mset (i, key, item) (cg_msgs g)"
    by (simp add: write_enqueue_record_def cg_log_def cg_msgs_push fresh_pending_def)
  have wal: "g_wal ?g = g_wal g @ [CgEnqueue i key item]"
    by (simp add: write_enqueue_record_def cg_log_def push_pending_def)
  show "wal_keys (g_wal ?g) k = Some j"
  proof (cases "key = Some k")
    case True
    then have "g_dedup ?g k = Some i" using cg_inv_key [OF inv, of i k item] msgs by simp
    then have "i = j" using cg_inv_key [OF inv m] by simp
    then show ?thesis unfolding wal using True by simp
  next
    case False
    then have "(j, Some k, x) \<in># cg_msgs g" using m msgs by auto
    then have "wal_keys (g_wal g) k = Some j" by (rule keyedD [OF assms(2)])
    then show ?thesis unfolding wal using False by (simp split: option.splits)
  qed
qed

lemma step_keyed:
  assumes "cg_inv g" and "covered {} g" and "tight {} g" and "keyed g" and "good_policy g"
    and "fresh_call c g" and "good_call c"
  shows "keyed (cg_step display c g)"
proof (cases c)
  case (GEnqueue i item key out)
  obtain r g1 where g1: "reserve_key i key g = (r, g1)" by fastforce
  show ?thesis
  proof (cases r)
    case None
    note res = reserve_key_inv [OF assms(1) g1 [unfolded None]]
    have "g_wal g1 = g_wal g" using g1 by (auto simp: reserve_key_def split: option.splits)
    then have "keyed g1" using res(4) by (intro keyed_mono [OF assms(4)]) simp_all
    then show ?thesis
      using write_enqueue_keyed [OF res(1), of i key item] res assms(6,7) g1 None
      by (simp add: GEnqueue enqueue_with_id_and_key_def)
  next
    case (Some j)
    then have "g1 = g" using g1 by (auto simp: reserve_key_def split: option.splits)
    with Some g1 assms(4) show ?thesis by (simp add: GEnqueue enqueue_with_id_and_key_def)
  qed
next
  case (GClaim env)
  show ?thesis
    unfolding GClaim cg_step.simps
    by (rule keyed_mono [OF assms(4)]) (use claim_good [OF _ assms(5,1)] claim_keys assms(7) in \<open>auto simp: GClaim\<close>)
next
  case (GAck i token out)
  then show ?thesis using ack_keyed [OF assms(1-4)] assms(7) by simp
next
  case (GNack env i token reason)
  show ?thesis
    unfolding GNack cg_step.simps
    by (rule keyed_mono [OF assms(4)]) (use nack_good [OF _ assms(5,1)] nack_keys assms(7) in \<open>auto simp: GNack\<close>)
next
  case (GCheckpoint i token v out)
  show ?thesis
    unfolding GCheckpoint cg_step.simps
    by (rule keyed_mono [OF assms(4)])
      (simp add: checkpoint_msgs, cases rule: cg_log_cases [of out "CgCheckpoint i v" g],
        auto simp: cg_checkpoint_def checkpoint_lease_def update_lease_def split: option.splits)
next
  case (GPublish i token v final)
  show ?thesis
    unfolding GPublish cg_step.simps
    by (rule keyed_mono [OF assms(4)])
      (auto simp: publish_msgs, auto simp: publish_partial_result_def Let_def split: option.splits)
next
  case (GAnnotate i v out)
  show ?thesis
    unfolding GAnnotate cg_step.simps
    by (rule keyed_mono [OF assms(4)]) (auto simp: annotate_msgs, auto simp: annotate_dead_letter_def split: prod.splits)
next
  case (GReprocess i dlq_out out)
  obtain res q where q: "dlq_take i Logged (g_dlq g) = (res, q)" by fastforce
  show ?thesis
    using assms(1) q
  proof (cases rule: dlq_take_effect)
    case absent
    then show ?thesis using q assms(4,7) by (simp add: GReprocess reprocess_result)
  next
    case (taken d)
    have "keyed (g \<lparr> g_dlq := q \<rparr>)"
      by (rule keyed_mono [OF assms(4)]) (use taken(5) in auto)
    then have "keyed (snd (write_enqueue_record i (dl_item d) (dl_idempotency_key d) Logged (g \<lparr> g_dlq := q \<rparr>)))"
      using taken by (intro write_enqueue_keyed) simp_all
    with taken q assms(7) show ?thesis by (auto simp: GReprocess reprocess_result)
  qed
next
  case (GPurge i dlq_out)
  have "g_wal (snd (purge_dead_letter i Logged g)) = g_wal g"
    by (auto simp: purge_dead_letter_def split: prod.splits sum.splits option.splits)
  moreover have "set_mset (cg_msgs (snd (purge_dead_letter i Logged g))) \<subseteq> set_mset (cg_msgs g)"
    unfolding purge_good [OF assms(1), of i, symmetric] by auto
  ultimately have "keyed (snd (purge_dead_letter i Logged g))" by (intro keyed_mono [OF assms(4)]) simp_all
  then show ?thesis using GPurge assms(7) by simp
qed

text \<open>Runs whose log writes are all acknowledged.\<close>

inductive good_reach ::
  "(128 word \<Rightarrow> string) \<Rightarrow> ('a, 'v) group \<Rightarrow> ('a, 'v) group \<Rightarrow> bool" for display g0 where
  good_start: "good_reach display g0 g0"
| good_step: "good_reach display g0 g \<Longrightarrow> fresh_call c g \<Longrightarrow> good_call c \<Longrightarrow> good_reach display g0 (cg_step display c g)"

lemma good_reach_reach: "good_reach display g0 g \<Longrightarrow> cg_reach display g0 g"
  by (induction rule: good_reach.induct) (auto intro: cg_reach.intros)

lemma good_reach_exact:
  assumes "good_reach display g0 g" and "cg_inv g0" and "covered {} g0" and "tight {} g0" and "keyed g0" and "good_policy g0"
  shows "tight {} g \<and> keyed g \<and> good_policy g"
  using assms(1)
proof (induction rule: good_reach.induct)
  case good_start
  show ?case using assms by blast
next
  case (good_step g c)
  have reach: "cg_reach display g0 g" by (rule good_reach_reach [OF good_step.hyps(1)])
  have inv: "cg_inv g" "covered {} g" using cg_reach_inv [OF reach assms(2)] reach_covered [OF reach assms(2,3)] by blast+
  show ?case
    using step_tight [OF inv(1) _ _ good_step.hyps(2,3)] step_keyed [OF inv _ _ _ good_step.hyps(2,3)] good_step.IH
      step_policy [of display c g] by (auto simp: good_policy_def)
qed

lemma seed_dedup_lookup:
  assumes "\<forall>(i, key)\<in>set idks. key = Some k \<longrightarrow> i = j" and "dedup k = Some j \<or> (j, Some k) \<in> set idks"
  shows "seed_dedup idks dedup k = Some j"
  using assms
proof (induction idks arbitrary: dedup)
  case Nil
  then show ?case by (simp add: seed_dedup_def)
next
  case (Cons ik idks)
  obtain i key where ik: "ik = (i, key)" by (cases ik)
  let ?d = "case key of None \<Rightarrow> dedup | Some k \<Rightarrow> dedup(k \<mapsto> i)"
  have "?d k = Some j \<or> (j, Some k) \<in> set idks"
    using Cons.prems by (auto simp: ik split: option.splits)
  then have "seed_dedup idks ?d k = Some j" using Cons.prems(1) by (intro Cons.IH) auto
  then show ?case by (simp add: seed_dedup_def ik)
qed

lemma distinct_map_fst: "distinct (map fst xs) \<Longrightarrow> distinct xs"
  by (simp add: distinct_map)

lemma attach_ids: "map p_id (attach_checkpoints ps cps) = map p_id ps"
  by (induction ps arbitrary: cps) auto

lemma open_ids:
  assumes "cg_open vt rp rank (Inr w) (Inr dw) = Inr g"
  shows "map fst (cg_live g) = map p_id (fst (cg_replay w))"
proof -
  obtain pend dedup cps where r: "cg_replay w = (pend, dedup, cps)" by (cases "cg_replay w")
  have "g_pending g = attach_checkpoints pend cps" using assms r by (auto simp: cg_open_def dlq_open_def)
  then have "map fst (cg_live g) = map p_id (attach_checkpoints pend cps)"
    by (simp add: cg_live_def open_pending(4,5) [OF assms] comp_def)
  then show ?thesis by (simp add: attach_ids r)
qed

lemma dead_keys_unique:
  assumes "cg_inv g" and "(i, Some k, x) \<in># cg_msgs g"
  shows "\<forall>(j, key)\<in>set (dlq_ids_and_keys rank (g_dlq g)). key = Some k \<longrightarrow> j = i"
proof -
  have "j = i" if j: "(j, Some k) \<in> set (dlq_ids_and_keys rank (g_dlq g))" for j
  proof -
    obtain kd d where d: "(kd, d) \<in> set (dlq_entries (g_dlq g))" "dl_id d = j" "dl_idempotency_key d = Some k"
      using j by (auto simp: dlq_ids_and_keys_def)
    then have "map_of (dlq_entries (g_dlq g)) kd = Some d"
      using assms(1) by (simp add: cg_inv_def dlq_wf_def hm_lookup_iff)
    then have "kd = j" using assms(1) d(2) by (auto simp: cg_inv_def dlq_wf_def)
    then have "(j, Some k, dl_item d) \<in># cg_msgs g" using d by (force simp: cg_msgs_def cg_dead_def)
    then show "j = i" using cg_inv_key [OF assms(1), of j k] cg_inv_key [OF assms(1,2)] by simp
  qed
  then show ?thesis by auto
qed


section \<open>Where a restart forgets or remembers too much\<close>

lemmas group_eval = claim_pass_def reclaim_expired_leases_def expired_leases_def hm_iter_def promote_ready_delayed_def
  grant_lease_def effective_idempotency_key_def fresh_pending_def cg_notify_def cg_nack_def take_lease_def
  resolve_failed_delivery_def dlq_record_def dlq_log_def cg_log_def is_exhausted_def cg_ack_def ack_release_def
  release_key_def purge_dead_letter_def dlq_take_def reprocess_dead_letter_def write_enqueue_record_def
  push_pending_def enqueue_with_id_and_key_def reserve_key_def cg_enqueue_with_key_def cg_checkpoint_def
  holds_lease_def checkpoint_lease_def update_lease_def cg_open_def cg_replay_def dlq_open_def dlq_replay_def
  dlq_ids_and_keys_def seed_dedup_def

definition sample_dead :: "(string, string) group" where
  "sample_dead = cg_step sample_display (GNack sample_resolve (MessageId 1) (LeaseToken 0) None) sample_leased"

definition sample_letter_of :: "(string, string) dead_letter" where
  "sample_letter_of =
     \<lparr> dl_id = MessageId 1, dl_idempotency_key = Some (IdempotencyKey ''k''), dl_item = ''job'', dl_delivery_count = 1,
       dl_last_error = None, dl_dead_lettered_at = Timestamp 7, dl_checkpoint = None, dl_triage = None \<rparr>"

lemma sample_dead_eq:
  "sample_dead = sample_leased
     \<lparr> g_leased := [], g_dlq := \<lparr> dlq_entries = [(MessageId 1, sample_letter_of)], dlq_wal = [DlqDeadLetter sample_letter_of] \<rparr>,
       g_wal := [CgEnqueue (MessageId 1) (Some (IdempotencyKey ''k'')) ''job'', CgDeadLettered (MessageId 1)],
       g_changed := [NotifyOne, NotifyOne, NotifyOne] \<rparr>"
  by (simp add: sample_dead_def sample_leased_eq sample_enqueued_eq sample_group_def sample_lease_def sample_resolve_def
      sample_policy_def sample_letter_of_def group_eval)

lemma sample_good_dead: "good_reach sample_display sample_group sample_dead"
proof -
  have enq: "good_reach sample_display sample_group sample_enqueued"
    unfolding sample_enqueued_def
    by (rule good_reach.good_step [OF good_reach.good_start])
      (simp_all add: sample_group_def cg_ids_def cg_msgs_def cg_live_def cg_dead_def)
  have draw: "good_resolve sample_resolve"
    by (simp add: good_resolve_def sample_resolve_def unit_draw_def representable_def)
  have "good_reach sample_display sample_group sample_leased"
    unfolding sample_leased_def by (rule good_reach.good_step [OF enq]) (simp_all add: sample_claim_def draw)
  then show ?thesis
    unfolding sample_dead_def by (rule good_reach.good_step) (simp_all add: draw)
qed

lemma restart_keeps_every_message_witness:
  "\<exists>g1. cg_open (from_secs 30) sample_policy (\<lambda>_. 0) (Inr (g_wal sample_leased)) (Inr (dlq_wal (g_dlq sample_leased))) = Inr g1 \<and>
     (MessageId 1, Some (IdempotencyKey ''k''), ''job'') \<in> (\<lambda>p. (p_id p, p_key p, p_item p)) ` set (g_pending g1)"
proof -
  have "\<exists>g1. cg_open (from_secs 30) sample_policy (\<lambda>_. 0) (Inr (g_wal sample_leased)) (Inr (dlq_wal (g_dlq sample_leased))) = Inr g1"
    by (simp add: cg_open_def dlq_open_def split: prod.splits)
  then obtain g1 where g1: "cg_open (from_secs 30) sample_policy (\<lambda>_. 0) (Inr (g_wal sample_leased)) (Inr (dlq_wal (g_dlq sample_leased))) = Inr g1"
    by blast
  from restart_keeps_every_message [OF sample_open sample_reach_leased g1] g1 show ?thesis by (simp add: sample_live)
qed


text \<open>
  A purge is not remembered. A keyed message is dead-lettered and purged, every log write
  acknowledged, and the process restarts: the key is registered again to the purged message, so a
  producer that enqueues a new job under the key is told the identifier of the purged message while
  its job is not enqueued. Without the restart the same call enqueues the job.
\<close>

lemma purged_key_swallows_enqueue:
  "let g = snd (purge_dead_letter (MessageId 1) Logged sample_dead);
       enqueue = cg_enqueue_with_key (MessageId 2) ''new job'' (IdempotencyKey ''k'') Logged
   in fst (purge_dead_letter (MessageId 1) Logged sample_dead) = Inr True \<and>
      (\<exists>g1. cg_open (from_secs 30) sample_policy (\<lambda>_. 0) (Inr (g_wal g)) (Inr (dlq_wal (g_dlq g))) = Inr g1 \<and>
         enqueue g1 = (Inr (MessageId 1), g1) \<and> cg_live g1 = [] \<and> cg_dead g1 = []) \<and>
      fst (enqueue g) = Inr (MessageId 2)"
  by (simp add: Let_def sample_dead_eq sample_leased_eq sample_enqueued_eq sample_group_def sample_letter_of_def
      group_eval cg_live_def cg_dead_def)

text \<open>
  Reprocessing can lose a message. When the removal from the dead-letter queue is acknowledged and
  the write that re-enqueues the message fails, the message is in neither place, its key is free, and
  a restart does not bring it back.
\<close>

lemma reprocess_can_lose_message:
  "\<exists>g g1. reprocess_dead_letter (MessageId 1) Logged (NotLogged OtherIo) sample_dead = (Inl OtherIo, g) \<and>
     cg_msgs g = {#} \<and> g_dedup g (IdempotencyKey ''k'') = None \<and>
     cg_open (from_secs 30) sample_policy (\<lambda>_. 0) (Inr (g_wal g)) (Inr (dlq_wal (g_dlq g))) = Inr g1 \<and>
     cg_msgs g1 = {#}"
  by (simp add: sample_dead_eq sample_leased_eq sample_enqueued_eq sample_group_def sample_letter_of_def
      group_eval cg_msgs_def cg_live_def cg_dead_def)

text \<open>
  A failed dead-letter write leaves a ghost. When the write to the dead-letter log fails, the
  message is gone from the running group, yet its key stays registered: an enqueue under the key
  returns the identifier of the message that no consumer can reach. A restart brings the message back.
\<close>

lemma failed_dead_letter_leaves_ghost:
  "let env = sample_resolve \<lparr> re_dlq_out := NotLogged OtherIo \<rparr>
   in \<exists>g g1. cg_nack env (MessageId 1) (LeaseToken 0) None sample_leased = (Inl (CgIo OtherIo), g) \<and> cg_msgs g = {#} \<and>
     cg_enqueue_with_key (MessageId 2) ''retry'' (IdempotencyKey ''k'') Logged g = (Inr (MessageId 1), g) \<and>
     cg_open (from_secs 30) sample_policy (\<lambda>_. 0) (Inr (g_wal g)) (Inr (dlq_wal (g_dlq g))) = Inr g1 \<and>
     cg_live g1 = [(MessageId 1, Some (IdempotencyKey ''k''), ''job'')]"
  by (simp add: Let_def sample_leased_eq sample_enqueued_eq sample_group_def sample_lease_def sample_resolve_def
      sample_policy_def group_eval cg_msgs_def cg_live_def cg_dead_def)

text \<open>
  \<^verbatim>\<open>ack\<close> does not wake a watcher. A watcher of a message's stream that waits for its first chunk
  gets no notification when the message is acknowledged, although its condition (the lease is no
  longer active) has become true; a published chunk does notify the waiters.
\<close>

lemma ack_does_not_wake_watcher:
  "\<exists>g. cg_ack (MessageId 1) (LeaseToken 0) Logged sample_leased = (Inr True, g) \<and>
     partial_results_pass (MessageId 1) 0 sample_leased = None \<and> partial_results_pass (MessageId 1) 0 g = Some NotActive \<and>
     g_changed g = g_changed sample_leased \<and>
     g_changed (snd (publish_partial_result (MessageId 1) (LeaseToken 0) ''chunk'' False sample_leased)) =
       g_changed sample_leased @ [NotifyWaiters]"
  by (simp add: sample_leased_eq sample_enqueued_eq sample_group_def sample_lease_def partial_results_pass_def
      publish_partial_result_def Let_def group_eval)


section \<open>Calls that overlap\<close>

text \<open>
  Between the section of \<^verbatim>\<open>ack\<close> that releases the key and its log write, another call can enqueue a new
  message under the key and log it first. The log then reads enqueue, enqueue, ack; its replay lets
  the ack of the old message release the key that the new message holds, so after a restart the new
  message is pending and a third enqueue under the same key is not recognised as a duplicate.
\<close>

lemma overlapping_ack_forgets_key:
  "let g = snd (ack_release (MessageId 1) (LeaseToken 0) sample_leased);
       (res, g) = cg_enqueue_with_key (MessageId 2) ''new job'' (IdempotencyKey ''k'') Logged g;
       g = snd (cg_log (CgAck (MessageId 1)) Logged g)
   in res = Inr (MessageId 2) \<and> g_dedup g (IdempotencyKey ''k'') = Some (MessageId 2) \<and>
      (\<exists>g1. cg_open (from_secs 30) sample_policy (\<lambda>_. 0) (Inr (g_wal g)) (Inr (dlq_wal (g_dlq g))) = Inr g1 \<and>
         cg_live g1 = [(MessageId 2, Some (IdempotencyKey ''k''), ''new job'')] \<and>
         fst (cg_enqueue_with_key (MessageId 3) ''new job'' (IdempotencyKey ''k'') Logged g1) = Inr (MessageId 3))"
  by (simp add: Let_def sample_leased_eq sample_enqueued_eq sample_group_def sample_lease_def
      group_eval cg_msgs_def cg_live_def cg_dead_def)

text \<open>
  A call that finds its key reserved returns the reserved identifier at once, before the message it
  names is logged. When that write then fails, the second producer holds an acknowledgement of a
  message that exists neither in the group nor after a restart.
\<close>

lemma overlapping_enqueue_acknowledges_nothing:
  "let g = snd (reserve_key (MessageId 1) (Some (IdempotencyKey ''k'')) sample_group);
       (res, g) = cg_enqueue_with_key (MessageId 2) ''job'' (IdempotencyKey ''k'') Logged g;
       (first, g) = write_enqueue_record (MessageId 1) ''job'' (Some (IdempotencyKey ''k'')) (NotLogged OtherIo) g
   in res = Inr (MessageId 1) \<and> first = Inl OtherIo \<and> cg_msgs g = {#} \<and> g_wal g = []"
  by (simp add: Let_def sample_group_def group_eval cg_msgs_def cg_live_def cg_dead_def)

end
