(* ===== verification/Group_Checkpoints.thy ===== *)
theory Group_Checkpoints
  imports Group_Recovery
begin

text \<open>
  Checkpoints of the consumer group: an acknowledged checkpoint of a message that stays live is what
  the message carries after a restart, whatever other calls follow.
\<close>

section \<open>Checkpoints in the log\<close>

definition wal_cps :: "('a, 'v) cg_record list \<Rightarrow> message_id \<rightharpoonup> 'v" where
  "wal_cps w = snd (snd (cg_replay w))"

text \<open>How a call extends the log.\<close>

definition wal_grows :: "(('a, 'v) cg_record \<Rightarrow> bool) \<Rightarrow> ('a, 'v) group \<Rightarrow> ('a, 'v) group \<Rightarrow> bool" where
  "wal_grows P g g' \<longleftrightarrow> (\<exists>rs. g_wal g' = g_wal g @ rs \<and> (\<forall>r\<in>set rs. P r))"

lemma wal_grows_same [simp]: "g_wal g' = g_wal g \<Longrightarrow> wal_grows P g g'"
  by (simp add: wal_grows_def)

lemma wal_grows_trans: "wal_grows P g g1 \<Longrightarrow> wal_grows P g1 g2 \<Longrightarrow> wal_grows P g g2"
  by (auto simp: wal_grows_def)

lemma wal_cps_snoc:
  "\<forall>v. r \<noteq> CgCheckpoint i v \<Longrightarrow> wal_cps (w @ [r]) i = wal_cps w i"
  by (cases "cg_replay w"; cases r) (auto simp: wal_cps_def cg_replay_snoc split: option.splits)

lemma wal_cps_grows:
  assumes "wal_grows (\<lambda>r. \<forall>v. r \<noteq> CgCheckpoint i v) g g'"
  shows "wal_cps (g_wal g') i = wal_cps (g_wal g) i"
proof -
  have "\<forall>r\<in>set rs. \<forall>v. r \<noteq> CgCheckpoint i v \<Longrightarrow> wal_cps (w @ rs) i = wal_cps w i" for rs w
  proof (induction rs arbitrary: w)
    case (Cons r rs)
    then have "wal_cps ((w @ [r]) @ rs) i = wal_cps (w @ [r]) i" by (intro Cons.IH) simp
    then show ?case using Cons.prems by (simp add: wal_cps_snoc)
  qed simp
  then show ?thesis using assms by (auto simp: wal_grows_def)
qed

lemma cg_log_grows: "P r \<Longrightarrow> wal_grows P g (snd (cg_log r out g))"
  by (cases out) (auto simp: cg_log_def wal_grows_def)

lemma resolve_grows:
  assumes "P (CgDeadLettered i)"
  shows "wal_grows P g (snd (resolve_failed_delivery env i item dc key cp reason g))"
  using assms by (cases "re_wal_out env")
    (auto simp: resolve_failed_delivery_def cg_log_def wal_grows_def split: prod.splits sum.splits option.splits)

lemma resolve_all_grows:
  assumes "\<forall>j. P (CgDeadLettered j)"
  shows "wal_grows P g (snd (resolve_all env expired g))"
proof (induction expired arbitrary: g)
  case (Cons il expired)
  obtain i l where il: "il = (i, l)" by (cases il)
  obtain r g1 where res: "resolve_failed_delivery (env i) i (l_item l) (l_delivery_count l) (l_key l)
      (l_checkpoint l) (Some ''visibility timeout expired'') g = (r, g1)" by fastforce
  have "wal_grows P g g1" using resolve_grows [of P i g "env i"] assms res by (metis snd_conv)
  moreover have "snd (resolve_all env (il # expired) g) \<in> {g1, snd (resolve_all env expired g1)}"
    using res by (auto simp: il split: sum.splits cg_error.splits)
  ultimately show ?case using Cons.IH [of g1] wal_grows_trans by auto
qed simp

lemma claim_grows:
  assumes "\<forall>j. P (CgDeadLettered j)"
  shows "wal_grows P g (snd (claim_pass display env g))"
proof -
  obtain r g1 where r: "reclaim_expired_leases (ce_rank env) (ce_reclaim_now env) (ce_resolve env) g = (r, g1)"
    by fastforce
  let ?ex = "expired_leases (ce_rank env) (ce_reclaim_now env) g"
  let ?g0 = "snd (resolve_all (ce_resolve env) ?ex (remove_leases (map fst ?ex) g))"
  have "g1 \<in> {g, ?g0, cg_notify NotifyWaiters ?g0}"
    using r by (auto simp: reclaim_expired_leases_def Let_def split: prod.splits sum.splits if_splits)
  then have "wal_grows P g g1"
    using resolve_all_grows [OF assms, of "remove_leases (map fst ?ex) g" "ce_resolve env" ?ex]
    by (auto simp: remove_leases_def wal_grows_def)
  moreover have "g_wal (snd (claim_pass display env g)) = g_wal g1"
    using r by (auto simp: claim_pass_def Let_def promote_ready_delayed_def grant_lease_def
        split: sum.splits list.splits option.splits)
  ultimately show ?thesis by (simp add: wal_grows_def)
qed

lemma write_enqueue_grows: "P (CgEnqueue i key item) \<Longrightarrow> wal_grows P g (snd (write_enqueue_record i item key out g))"
  by (cases rule: write_enqueue_cases [of out i item key g]) (auto simp: wal_grows_def push_pending_def)

lemma step_grows:
  assumes "\<forall>i token v out. c \<noteq> GCheckpoint i token v out"
  shows "wal_grows (\<lambda>r. \<forall>j v. r \<noteq> CgCheckpoint j v) g (cg_step display c g)"
proof (cases c)
  case (GEnqueue i item key out)
  obtain r g1 where g1: "reserve_key i key g = (r, g1)" by fastforce
  then have "g_wal g1 = g_wal g" by (auto simp: reserve_key_def split: option.splits)
  then show ?thesis
    using g1 write_enqueue_grows [of "\<lambda>r. \<forall>j v. r \<noteq> CgCheckpoint j v" i key item g1 out]
    by (auto simp: GEnqueue enqueue_with_id_and_key_def wal_grows_def split: option.splits)
next
  case (GClaim env)
  then show ?thesis by (simp add: claim_grows)
next
  case (GAck i token out)
  then show ?thesis
    by (cases out) (auto simp: cg_ack_def ack_release_def take_lease_def cg_log_def wal_grows_def
        split: option.splits prod.splits if_splits)
next
  case (GNack env i token reason)
  show ?thesis
  proof (cases rule: nack_cases [of env i token reason g])
    case (resolved l g1)
    then show ?thesis
      using resolve_grows [of "\<lambda>r. \<forall>j v. r \<noteq> CgCheckpoint j v" i g1 env "l_item l" "l_delivery_count l" "l_key l"
          "l_checkpoint l" reason]
      by (auto simp: GNack Let_def wal_grows_def)
  qed (simp add: GNack)
next
  case (GReprocess i dlq_out out)
  obtain res q where q: "dlq_take i dlq_out (g_dlq g) = (res, q)" by fastforce
  show ?thesis
    using write_enqueue_grows [of "\<lambda>r. \<forall>j v. r \<noteq> CgCheckpoint j v" _ _ _ "g \<lparr> g_dlq := q \<rparr>" out]
    by (auto simp: GReprocess reprocess_result [OF q] wal_grows_def split: sum.splits option.splits)
qed (use assms in \<open>auto simp: publish_partial_result_def annotate_dead_letter_def purge_dead_letter_def Let_def
      split: prod.splits sum.splits option.splits\<close>)

lemma step_cps:
  assumes "\<forall>token v out. c \<noteq> GCheckpoint i token v out"
  shows "wal_cps (g_wal (cg_step display c g)) i = wal_cps (g_wal g) i"
proof (cases "\<exists>j token v out. c = GCheckpoint j token v out")
  case True
  then obtain j token v out where c: "c = GCheckpoint j token v out" by blast
  then have "j \<noteq> i" using assms by auto
  then have "wal_grows (\<lambda>r. \<forall>v. r \<noteq> CgCheckpoint i v) g (cg_step display c g)"
    by (cases out) (auto simp: c cg_checkpoint_def checkpoint_lease_def update_lease_def cg_log_def wal_grows_def
        split: option.splits)
  then show ?thesis by (rule wal_cps_grows)
next
  case False
  then have "wal_grows (\<lambda>r. \<forall>j v. r \<noteq> CgCheckpoint j v) g (cg_step display c g)" by (intro step_grows) blast
  then show ?thesis by (intro wal_cps_grows) (auto simp: wal_grows_def)
qed

fun fresh_run :: "(128 word \<Rightarrow> string) \<Rightarrow> ('a, 'v) cg_call list \<Rightarrow> ('a, 'v) group \<Rightarrow> bool" where
  "fresh_run display [] g \<longleftrightarrow> True"
| "fresh_run display (c # cs) g \<longleftrightarrow> fresh_call c g \<and> fresh_run display cs (cg_step display c g)"

lemma run_reach: "cg_reach display g0 g \<Longrightarrow> fresh_run display cs g \<Longrightarrow> cg_reach display g0 (cg_run display cs g)"
proof (induction cs arbitrary: g)
  case (Cons c cs)
  then have "cg_reach display g0 (cg_step display c g)" by (simp add: cg_reach.call)
  with Cons show ?case by (simp add: cg_run_def)
qed (simp add: cg_run_def)

lemma run_cps:
  "\<forall>c\<in>set cs. \<forall>token v out. c \<noteq> GCheckpoint i token v out \<Longrightarrow>
   wal_cps (g_wal (cg_run display cs g)) i = wal_cps (g_wal g) i"
  by (induction cs arbitrary: g) (simp_all add: cg_run_def step_cps)

lemma attach_first:
  "i \<in> p_id ` set ps \<Longrightarrow> \<exists>p\<in>set (attach_checkpoints ps cps). p_id p = i \<and> p_checkpoint p = cps i"
proof (induction ps arbitrary: cps)
  case (Cons p ps)
  show ?case
  proof (cases "p_id p = i")
    case False
    then have "i \<in> p_id ` set ps" using Cons.prems by auto
    from Cons.IH [OF this, of "cps(p_id p := None)"] False show ?thesis by (auto simp: fun_upd_def)
  qed auto
qed simp


definition sample_saved :: "(string, string) group" where
  "sample_saved = snd (cg_checkpoint (MessageId 1) (LeaseToken 0) ''step 4'' Logged sample_leased)"

lemma sample_saved_eq:
  "cg_checkpoint (MessageId 1) (LeaseToken 0) ''step 4'' Logged sample_leased = (Inr True, sample_saved)"
  "sample_saved = sample_leased
     \<lparr> g_leased := [(MessageId 1, sample_lease \<lparr> l_checkpoint := Some ''step 4'' \<rparr>)],
       g_wal := [CgEnqueue (MessageId 1) (Some (IdempotencyKey ''k'')) ''job'', CgCheckpoint (MessageId 1) ''step 4''] \<rparr>"
  by (simp_all add: sample_saved_def sample_leased_eq sample_enqueued_eq sample_group_def sample_lease_def group_eval)


text \<open>
  Reprocessing treats the checkpoint in two ways. A message with a saved checkpoint that was
  dead-lettered and reprocessed is delivered without the checkpoint, but after a restart it is
  delivered with it.
\<close>

lemma reprocessed_checkpoint_reappears:
  "let dead = snd (cg_nack sample_resolve (MessageId 1) (LeaseToken 0) None sample_saved);
       g = snd (reprocess_dead_letter (MessageId 1) Logged Logged dead)
   in map p_checkpoint (g_pending g) = [None] \<and>
      (\<exists>g1. cg_open (from_secs 30) sample_policy (\<lambda>_. 0) (Inr (g_wal g)) (Inr (dlq_wal (g_dlq g))) = Inr g1 \<and>
         map p_checkpoint (g_pending g1) = [Some ''step 4''])"
  by (simp add: Let_def sample_saved_eq sample_leased_eq sample_enqueued_eq sample_group_def sample_lease_def
      sample_resolve_def sample_policy_def group_eval)

end
