(* ===== verification/Circuit_Breaker.thy ===== *)
theory Circuit_Breaker
  imports Qaas_Prelude
begin

text \<open>
  \<^verbatim>\<open>crates/qaas-core/src/circuit_breaker.rs\<close>: the breaker, the cache with a time to live, and the guard
  that combines them. Each section under the breaker's or the cache's lock is a definition whose
  argument is the reading of the clock; other calls can run between the sections of a call. The
  outcome of the guarded operation is an argument that is used only where the operation runs.
\<close>

section \<open>The breaker\<close>

datatype circuit_state = Closed | Open | HalfOpen

record circuit_breaker_config =
  failure_threshold :: u32
  open_duration :: duration
  half_open_success_threshold :: u32

definition breaker_DEFAULT :: circuit_breaker_config where
  "breaker_DEFAULT = \<lparr> failure_threshold = 5, open_duration = from_secs 30, half_open_success_threshold = 3 \<rparr>"

record breaker =
  cb_config :: circuit_breaker_config
  cb_state :: circuit_state
  cb_failures :: u32
  cb_successes :: u32
  cb_opened_at :: "instant option"

definition breaker_new :: "circuit_breaker_config \<Rightarrow> breaker" where
  "breaker_new config =
     \<lparr> cb_config = config, cb_state = Closed, cb_failures = 0, cb_successes = 0, cb_opened_at = None \<rparr>"

definition resolve_open_timeout :: "instant \<Rightarrow> breaker \<Rightarrow> breaker" where
  "resolve_open_timeout now b =
     (if cb_state b = Open
      then (let elapsed = (case cb_opened_at b of None \<Rightarrow> False | Some t \<Rightarrow> open_duration (cb_config b) \<le> now - t) in
            if elapsed then b \<lparr> cb_state := HalfOpen, cb_failures := 0, cb_successes := 0 \<rparr> else b)
      else b)"

definition breaker_state :: "instant \<Rightarrow> breaker \<Rightarrow> circuit_state \<times> breaker" where
  "breaker_state now b = (let b = resolve_open_timeout now b in (cb_state b, b))"

definition breaker_open :: "instant \<Rightarrow> breaker \<Rightarrow> breaker" where
  "breaker_open now b = b \<lparr> cb_state := Open, cb_opened_at := Some now, cb_failures := 0, cb_successes := 0 \<rparr>"

definition record_success :: "breaker \<Rightarrow> breaker" where
  "record_success b =
     (case cb_state b of
        Closed \<Rightarrow> b \<lparr> cb_failures := 0 \<rparr>
      | HalfOpen \<Rightarrow>
          (let b = b \<lparr> cb_successes := cb_successes b + 1 \<rparr> in
           if half_open_success_threshold (cb_config b) \<le> cb_successes b
           then b \<lparr> cb_state := Closed, cb_failures := 0, cb_successes := 0 \<rparr> else b)
      | Open \<Rightarrow> b)"

definition record_failure :: "instant \<Rightarrow> breaker \<Rightarrow> breaker" where
  "record_failure now b =
     (case cb_state b of
        Closed \<Rightarrow>
          (let b = b \<lparr> cb_failures := cb_failures b + 1 \<rparr> in
           if failure_threshold (cb_config b) \<le> cb_failures b then breaker_open now b else b)
      | HalfOpen \<Rightarrow> breaker_open now b
      | Open \<Rightarrow> b)"

datatype 'e circuit_breaker_error = BreakerOpen | BreakerFailed 'e

text \<open>\<open>result\<close> is what the operation returns if it is run; \<open>state_now\<close> and \<open>failure_now\<close> read the clock.\<close>

definition breaker_call ::
  "instant \<Rightarrow> instant \<Rightarrow> 'e + 't \<Rightarrow> breaker \<Rightarrow> ('e circuit_breaker_error + 't) \<times> breaker" where
  "breaker_call state_now failure_now result b =
     (case breaker_state state_now b of
        (state, b) \<Rightarrow>
          if state = Open then (Inl BreakerOpen, b)
          else (case result of
                  Inr v \<Rightarrow> (Inr v, record_success b)
                | Inl e \<Rightarrow> (Inl (BreakerFailed e), record_failure failure_now b)))"

section \<open>The cache\<close>

record 'v cache_entry =
  ce_value :: 'v
  ce_inserted_at :: instant

record ('k, 'v) fallback_cache =
  fc_ttl :: duration
  fc_entries :: "'k \<rightharpoonup> 'v cache_entry"

definition cache_new :: "duration \<Rightarrow> ('k, 'v) fallback_cache" where
  "cache_new ttl = \<lparr> fc_ttl = ttl, fc_entries = Map.empty \<rparr>"

definition cache_get :: "'k \<Rightarrow> instant \<Rightarrow> ('k, 'v) fallback_cache \<Rightarrow> 'v option \<times> ('k, 'v) fallback_cache" where
  "cache_get key now c =
     (case fc_entries c key of
        Some entry \<Rightarrow>
          if now - ce_inserted_at entry < fc_ttl c then (Some (ce_value entry), c)
          else (None, c \<lparr> fc_entries := (fc_entries c)(key := None) \<rparr>)
      | None \<Rightarrow> (None, c))"

definition cache_set :: "'k \<Rightarrow> 'v \<Rightarrow> instant \<Rightarrow> ('k, 'v) fallback_cache \<Rightarrow> ('k, 'v) fallback_cache" where
  "cache_set key v now c = c \<lparr> fc_entries := (fc_entries c)(key \<mapsto> \<lparr> ce_value = v, ce_inserted_at = now \<rparr>) \<rparr>"

section \<open>The guard\<close>

datatype ('t, 'e) hybrid_outcome = Fresh 't | Cached 't | Unavailable "'e option"

definition into_value :: "('t, 'e) hybrid_outcome \<Rightarrow> 't option" where
  "into_value h = (case h of Fresh v \<Rightarrow> Some v | Cached v \<Rightarrow> Some v | Unavailable _ \<Rightarrow> None)"

record ('k, 'v) hybrid_guard =
  hg_breaker :: breaker
  hg_cache :: "('k, 'v) fallback_cache"

definition hybrid_new :: "circuit_breaker_config \<Rightarrow> duration \<Rightarrow> ('k, 'v) hybrid_guard" where
  "hybrid_new config ttl = \<lparr> hg_breaker = breaker_new config, hg_cache = cache_new ttl \<rparr>"

definition hybrid_state :: "instant \<Rightarrow> ('k, 'v) hybrid_guard \<Rightarrow> circuit_state \<times> ('k, 'v) hybrid_guard" where
  "hybrid_state now g = (case breaker_state now (hg_breaker g) of (s, b) \<Rightarrow> (s, g \<lparr> hg_breaker := b \<rparr>))"

definition fall_back ::
  "'k \<Rightarrow> instant \<Rightarrow> 'e option \<Rightarrow> ('k, 'v) hybrid_guard \<Rightarrow> ('v, 'e) hybrid_outcome \<times> ('k, 'v) hybrid_guard" where
  "fall_back key now error g =
     (case cache_get key now (hg_cache g) of
        (Some v, c) \<Rightarrow> (Cached v, g \<lparr> hg_cache := c \<rparr>)
      | (None, c) \<Rightarrow> (Unavailable error, g \<lparr> hg_cache := c \<rparr>))"

record hybrid_clock =
  hc_state_now :: instant
  hc_record_now :: instant
  hc_cache_now :: instant

definition hybrid_call ::
  "hybrid_clock \<Rightarrow> 'k \<Rightarrow> 'e + 'v \<Rightarrow> ('k, 'v) hybrid_guard \<Rightarrow> ('v, 'e) hybrid_outcome \<times> ('k, 'v) hybrid_guard" where
  "hybrid_call clk key result g =
     (case hybrid_state (hc_state_now clk) g of
        (state, g) \<Rightarrow>
          if state = Open then fall_back key (hc_cache_now clk) None g
          else (case result of
                  Inr v \<Rightarrow>
                    (let g = g \<lparr> hg_breaker := record_success (hg_breaker g) \<rparr> in
                     (Fresh v, g \<lparr> hg_cache := cache_set key v (hc_cache_now clk) (hg_cache g) \<rparr>))
                | Inl e \<Rightarrow>
                    fall_back key (hc_cache_now clk) (Some e)
                      (g \<lparr> hg_breaker := record_failure (hc_record_now clk) (hg_breaker g) \<rparr>)))"

section \<open>States and counters\<close>

text \<open>
  The counters stay below their thresholds (or at zero for a threshold of zero), so they never wrap,
  and an open circuit knows when it opened.
\<close>

definition breaker_inv :: "breaker \<Rightarrow> bool" where
  "breaker_inv b \<longleftrightarrow>
     (cb_state b = Closed \<longrightarrow> unat (cb_failures b) < max 1 (unat (failure_threshold (cb_config b)))) \<and>
     (cb_state b = HalfOpen \<longrightarrow> unat (cb_successes b) < max 1 (unat (half_open_success_threshold (cb_config b)))) \<and>
     (cb_state b = Open \<longrightarrow> cb_opened_at b \<noteq> None)"

datatype breaker_event = EvState instant | EvSuccess | EvFailure instant

fun breaker_step :: "breaker_event \<Rightarrow> breaker \<Rightarrow> breaker" where
  "breaker_step (EvState now) b = snd (breaker_state now b)"
| "breaker_step EvSuccess b = record_success b"
| "breaker_step (EvFailure now) b = record_failure now b"

lemmas breaker_defs = breaker_state_def resolve_open_timeout_def record_success_def record_failure_def breaker_open_def

lemma breaker_step_config [simp]: "cb_config (breaker_step e b) = cb_config b"
  by (cases e) (auto simp: breaker_defs Let_def split: circuit_state.splits option.splits)

lemma u32_inc: "unat (n :: u32) < max 1 (unat (t :: u32)) \<Longrightarrow> unat (n + 1) = Suc (unat n)"
proof -
  assume "unat n < max 1 (unat t)"
  moreover have "unat t < 2 ^ 32" using unsigned_less [of t] by simp
  ultimately have "Suc (unat n) < 2 ^ 32" by (simp add: max_def split: if_splits)
  then show ?thesis by (simp add: unat_word_ariths)
qed

lemma breaker_step_inv: "breaker_inv b \<Longrightarrow> breaker_inv (breaker_step e b)"
  by (cases e; cases "cb_state b")
    (auto simp: breaker_defs breaker_inv_def Let_def word_le_nat_alt not_le u32_inc split: option.splits)

lemma breaker_new_inv: "breaker_inv (breaker_new config)"
  by (simp add: breaker_inv_def breaker_new_def max_def)

lemma breaker_run_inv: "breaker_inv b \<Longrightarrow> breaker_inv (fold breaker_step es b) \<and> cb_config (fold breaker_step es b) = cb_config b"
  by (induction es arbitrary: b) (simp_all add: breaker_step_inv)

section \<open>When the circuit opens\<close>

text \<open>The length of the run of failures at the end of a sequence; looking at the state does not break it.\<close>

fun add_event :: "breaker_event \<Rightarrow> nat \<Rightarrow> nat" where
  "add_event (EvFailure t) n = Suc n"
| "add_event EvSuccess n = 0"
| "add_event (EvState t) n = n"

definition failure_run :: "breaker_event list \<Rightarrow> nat" where
  "failure_run es = fold add_event es 0"

definition stays_closed :: "breaker_event list \<Rightarrow> breaker \<Rightarrow> bool" where
  "stays_closed es b \<longleftrightarrow> (\<forall>n\<le>length es. cb_state (fold breaker_step (take n es) b) = Closed)"

lemma stays_closed_snoc:
  "stays_closed (es @ [e]) b \<longleftrightarrow> stays_closed es b \<and> cb_state (fold breaker_step (es @ [e]) b) = Closed"
  by (auto simp: stays_closed_def le_Suc_eq)

lemma closed_failures:
  assumes "stays_closed es (breaker_new config)"
  shows "unat (cb_failures (fold breaker_step es (breaker_new config))) = failure_run es"
  using assms
proof (induction es rule: rev_induct)
  case Nil
  then show ?case by (simp add: failure_run_def breaker_new_def)
next
  case (snoc e es)
  let ?b = "fold breaker_step es (breaker_new config)"
  have "cb_state ?b = Closed" "unat (cb_failures ?b) = failure_run es" "breaker_inv ?b"
    using snoc breaker_run_inv [OF breaker_new_inv]
    by (auto simp: stays_closed_snoc) (metis order_refl stays_closed_def take_all_iff)
  moreover have "cb_state (breaker_step e ?b) = Closed" using snoc.prems by (simp add: stays_closed_snoc)
  ultimately show ?case
    by (cases e) (auto simp: failure_run_def breaker_defs Let_def u32_inc breaker_inv_def split: if_splits)
qed

text \<open>
  C32: a breaker trips exactly on consecutive failures. Whatever the successes, failures and looks at
  the state, in any order, a new breaker is closed all along if and only if there were never
  \<^verbatim>\<open>failure_threshold\<close> failures in a row (one failure, if the threshold is zero).
\<close>

theorem breaker_trips_exactly:
  "stays_closed es (breaker_new config) \<longleftrightarrow>
   (\<forall>n\<le>length es. failure_run (take n es) < max 1 (unat (failure_threshold config)))"
proof (induction es rule: rev_induct)
  case Nil
  then show ?case by (simp add: stays_closed_def failure_run_def breaker_new_def max_def)
next
  case (snoc e es)
  let ?b = "fold breaker_step es (breaker_new config)"
  let ?max = "max 1 (unat (failure_threshold config))"
  have "cb_state (breaker_step e ?b) = Closed \<longleftrightarrow> failure_run (es @ [e]) < ?max" if closed: "stays_closed es (breaker_new config)"
  proof -
    have b: "cb_state ?b = Closed" "cb_config ?b = config" "breaker_inv ?b"
      using closed breaker_run_inv [OF breaker_new_inv]
      by (auto simp: stays_closed_def breaker_new_def)
    have "unat (cb_failures ?b) < ?max" using b by (simp add: breaker_inv_def)
    then show ?thesis
      using b closed_failures [OF closed] u32_inc [of "cb_failures ?b" "failure_threshold config"]
      by (cases e) (auto simp: failure_run_def breaker_defs Let_def word_le_nat_alt)
  qed
  then show ?case
    using snoc.IH by (auto simp: stays_closed_snoc le_Suc_eq)
qed

theorem breaker_trips_exactly_witness:
  "stays_closed [EvFailure 1, EvFailure 2, EvSuccess, EvFailure 3]
     (breaker_new \<lparr> failure_threshold = 3, open_duration = 10, half_open_success_threshold = 1 \<rparr>) \<and>
   \<not> stays_closed [EvFailure 1, EvFailure 2, EvFailure 3]
     (breaker_new \<lparr> failure_threshold = 3, open_duration = 10, half_open_success_threshold = 1 \<rparr>)"
proof -
  have "failure_run (take n [EvFailure 1, EvFailure 2, EvSuccess, EvFailure 3]) < 3" for n
    by (cases n rule: nat.exhaust [case_names Zero Suc]) (auto simp: failure_run_def take_Cons split: nat.splits)
  moreover have "failure_run (take 3 [EvFailure 1, EvFailure 2, EvFailure 3]) = 3"
    by (simp add: failure_run_def)
  ultimately show ?thesis unfolding breaker_trips_exactly by (auto intro: exI [of _ 3])
qed

section \<open>Cooling down and recovery\<close>

lemma open_step:
  assumes "cb_state b = Open" and "cb_opened_at b = Some t" and "\<forall>now. e = EvState now \<longrightarrow> t \<le> now \<and> now < t + open_duration (cb_config b)"
  shows "breaker_step e b = b"
proof (cases e)
  case (EvState now)
  then have "\<not> open_duration (cb_config b) \<le> now - t" using assms(3) by auto
  then show ?thesis using assms(1,2) EvState by (simp add: breaker_defs)
qed (use assms(1) in \<open>simp_all add: breaker_defs\<close>)

lemma open_run:
  assumes "cb_state b = Open" and "cb_opened_at b = Some t"
    and "\<forall>now. EvState now \<in> set es \<longrightarrow> t \<le> now \<and> now < t + open_duration (cb_config b)"
  shows "fold breaker_step es b = b"
  using assms(3) open_step [OF assms(1,2)] by (induction es) auto

lemma trial_run:
  assumes "cb_state b = HalfOpen" and "unat (cb_successes b) + n < max 1 (unat (half_open_success_threshold (cb_config b)))"
  shows "let b' = fold breaker_step (replicate n EvSuccess) b in
    cb_state b' = HalfOpen \<and> unat (cb_successes b') = unat (cb_successes b) + n"
  using assms
proof (induction n arbitrary: b)
  case (Suc n)
  let ?max = "max 1 (unat (half_open_success_threshold (cb_config b)))"
  have "unat (cb_successes b) < ?max" using Suc.prems(2) by linarith
  then have inc: "unat (cb_successes b + 1) = Suc (unat (cb_successes b))" by (rule u32_inc)
  have "\<not> half_open_success_threshold (cb_config b) \<le> cb_successes b + 1"
    using Suc.prems(2) inc by (simp add: word_le_nat_alt max_def split: if_splits)
  then have "record_success b = b \<lparr> cb_successes := cb_successes b + 1 \<rparr>"
    using Suc.prems(1) by (simp add: record_success_def Let_def)
  with Suc.IH [of "record_success b"] Suc.prems inc show ?case by (simp add: Let_def)
qed (simp add: Let_def)

text \<open>
  C33: an open circuit rests, then probes. For the whole of \<^verbatim>\<open>open_duration\<close> after it opened, whatever
  results still arrive, the breaker does not change and a call is rejected without running the
  operation. A call at or after that time runs it. From there \<^verbatim>\<open>half_open_success_threshold\<close> successes
  in a row (one, if it is zero) are needed to close the circuit and one failure before that opens it
  again for another rest.
\<close>

theorem open_circuit_rests_then_probes:
  assumes "cb_state b = Open" and "cb_opened_at b = Some t"
    and "\<forall>u. EvState u \<in> set es \<longrightarrow> t \<le> u \<and> u < t + open_duration (cb_config b)"
    and "t \<le> early" and "early < t + open_duration (cb_config b)" and "t + open_duration (cb_config b) \<le> late"
    and "trial = fold breaker_step (EvState late # replicate n EvSuccess) b"
  shows "breaker_call early now result (fold breaker_step es b) = (Inl BreakerOpen, b) \<and>
    fst (breaker_call late now result b) = (case result of Inl e \<Rightarrow> Inl (BreakerFailed e) | Inr v \<Rightarrow> Inr v) \<and>
    (n < max 1 (unat (half_open_success_threshold (cb_config b))) \<longrightarrow>
       cb_state trial = HalfOpen \<and>
       cb_state (breaker_step (EvFailure again) trial) = Open \<and>
       cb_opened_at (breaker_step (EvFailure again) trial) = Some again) \<and>
    (n = max 1 (unat (half_open_success_threshold (cb_config b))) \<longrightarrow> cb_state trial = Closed)"
proof -
  let ?max = "max 1 (unat (half_open_success_threshold (cb_config b)))"
  have rest: "breaker_call early now result (fold breaker_step es b) = (Inl BreakerOpen, b)"
  proof -
    have "breaker_step (EvState early) b = b" by (rule open_step [OF assms(1,2)]) (use assms(4,5) in simp)
    then show ?thesis
      using assms(1) by (simp add: open_run [OF assms(1-3)] breaker_call_def) (simp add: breaker_state_def Let_def)
  qed
  define h where "h = b \<lparr> cb_state := HalfOpen, cb_failures := 0, cb_successes := 0 \<rparr>"
  have elapsed: "open_duration (cb_config b) \<le> late - t" using assms(6) by simp
  have h: "breaker_state late b = (HalfOpen, h)"
    using assms(1,2) elapsed by (simp add: breaker_defs Let_def h_def)
  have probe: "fst (breaker_call late now result b) = (case result of Inl e \<Rightarrow> Inl (BreakerFailed e) | Inr v \<Rightarrow> Inr v)"
    by (simp add: breaker_call_def h split: sum.splits)
  have trial: "trial = fold breaker_step (replicate n EvSuccess) h" using assms(7) h by simp
  have run: "cb_state (fold breaker_step (replicate k EvSuccess) h) = HalfOpen \<and>
      unat (cb_successes (fold breaker_step (replicate k EvSuccess) h)) = k" if "k < ?max" for k
    using trial_run [of h k] that by (simp add: h_def Let_def)
  have "cb_state trial = HalfOpen \<and> cb_state (breaker_step (EvFailure again) trial) = Open \<and>
      cb_opened_at (breaker_step (EvFailure again) trial) = Some again" if "n < ?max"
    using run [OF that] by (simp add: trial record_failure_def breaker_open_def)
  moreover have "cb_state trial = Closed" if n: "n = ?max"
  proof -
    have "n \<noteq> 0" using n by simp
    then obtain k where k1: "n = Suc k" using not0_implies_Suc by blast
    have k: "n = Suc k" "k < ?max" using k1 n by linarith+
    let ?b = "fold breaker_step (replicate k EvSuccess) h"
    have cfg: "cb_config ?b = cb_config b"
      using breaker_run_inv [of h "replicate k EvSuccess"] by (simp add: breaker_inv_def h_def)
    have "unat (cb_successes ?b + 1) = Suc k" using run [OF k(2)] u32_inc [of "cb_successes ?b"] k(2) by simp
    moreover have "unat (half_open_success_threshold (cb_config b)) \<le> Suc k" using n k(1) by linarith
    ultimately have "half_open_success_threshold (cb_config ?b) \<le> cb_successes ?b + 1"
      by (simp only: cfg word_le_nat_alt)
    then have "cb_state (record_success ?b) = Closed" using run [OF k(2)] by (simp add: record_success_def Let_def)
    moreover have "trial = record_success ?b"
      by (simp add: trial k(1) replicate_append_same [symmetric] del: replicate.simps)
    ultimately show ?thesis by simp
  qed
  ultimately show ?thesis using rest probe by blast
qed

theorem open_circuit_rests_then_probes_witness:
  "let b = breaker_open 100 (breaker_new breaker_DEFAULT) in
   breaker_call 101 0 (Inr (7 :: nat) :: nat + nat) (fold breaker_step [EvState 102, EvSuccess, EvFailure 103] b) = (Inl BreakerOpen, b) \<and>
   cb_state (fold breaker_step (EvState (100 + from_secs 30) # replicate 3 EvSuccess) b) = Closed"
proof -
  let ?b = "breaker_open 100 (breaker_new breaker_DEFAULT)"
  have b: "cb_state ?b = Open" "cb_opened_at ?b = Some 100" "cb_config ?b = breaker_DEFAULT"
    by (simp_all add: breaker_open_def breaker_new_def)
  have dur: "open_duration (cb_config ?b) = from_secs 30" "from_secs 30 = 30000000000"
    unfolding b(3) by (simp_all add: breaker_DEFAULT_def from_secs_def nanos_per_sec_def)
  have "\<forall>u. EvState u \<in> set [EvState 102, EvSuccess, EvFailure 103] \<longrightarrow> 100 \<le> u \<and> u < 100 + open_duration (cb_config ?b)"
    "(100 :: nat) \<le> 101" "101 < 100 + open_duration (cb_config ?b)" "100 + open_duration (cb_config ?b) \<le> 100 + from_secs 30"
    unfolding dur by simp_all
  note rests = open_circuit_rests_then_probes [OF b(1,2) this refl, of 0 "Inr (7 :: nat) :: nat + nat" 3]
  have "half_open_success_threshold (cb_config ?b) = 3" unfolding b(3) by (simp add: breaker_DEFAULT_def)
  with rests show ?thesis by (simp add: Let_def)
qed

section \<open>Fallback values\<close>

text \<open>
  Any number of calls of a guard; the history lists the successful ones with the time of the cache
  write.
\<close>

fun guard_run ::
  "(hybrid_clock \<times> 'k \<times> ('e + 'v)) list \<Rightarrow> ('k, 'v) hybrid_guard \<Rightarrow> ('k \<times> 'v \<times> instant) list \<times> ('k, 'v) hybrid_guard" where
  "guard_run [] g = ([], g)"
| "guard_run ((clk, key, result) # cs) g =
     (case hybrid_call clk key result g of
        (out, g) \<Rightarrow>
          (case guard_run cs g of
             (h, g) \<Rightarrow> ((case out of Fresh v \<Rightarrow> [(key, v, hc_cache_now clk)] | _ \<Rightarrow> []) @ h, g)))"

lemma fall_back_entries:
  "fall_back key now error g = (out, g') \<Longrightarrow>
   fc_ttl (hg_cache g') = fc_ttl (hg_cache g) \<and> fc_entries (hg_cache g') \<subseteq>\<^sub>m fc_entries (hg_cache g)"
  by (auto simp: fall_back_def cache_get_def map_le_def split: option.splits if_splits)

lemma hybrid_call_entries:
  assumes "hybrid_call clk key result g = (out, g')"
  shows "fc_ttl (hg_cache g') = fc_ttl (hg_cache g)"
    and "\<forall>v. out \<noteq> Fresh v \<Longrightarrow> fc_entries (hg_cache g') \<subseteq>\<^sub>m fc_entries (hg_cache g)"
    and "out = Fresh v \<Longrightarrow> result = Inr v \<and> fc_entries (hg_cache g') =
       (fc_entries (hg_cache g))(key \<mapsto> \<lparr> ce_value = v, ce_inserted_at = hc_cache_now clk \<rparr>)"
    and "out = Cached v \<Longrightarrow> \<exists>e. fc_entries (hg_cache g) key = Some e \<and> ce_value e = v \<and>
       hc_cache_now clk - ce_inserted_at e < fc_ttl (hg_cache g)"
proof -
  obtain s g1 where st: "hybrid_state (hc_state_now clk) g = (s, g1)" by fastforce
  then have c: "hg_cache g1 = hg_cache g" by (auto simp: hybrid_state_def split: prod.splits)
  consider (fell) g2 err where "fall_back key (hc_cache_now clk) err g2 = (out, g')" "hg_cache g2 = hg_cache g"
    | (fresh) v where "result = Inr v" "out = Fresh v" "hg_cache g' = cache_set key v (hc_cache_now clk) (hg_cache g)"
    using assms st c by (auto simp: hybrid_call_def Let_def split: if_splits sum.splits)
  note cases = this
  show "fc_ttl (hg_cache g') = fc_ttl (hg_cache g)"
    using cases by cases (auto simp: cache_set_def dest: fall_back_entries)
  show "\<forall>v. out \<noteq> Fresh v \<Longrightarrow> fc_entries (hg_cache g') \<subseteq>\<^sub>m fc_entries (hg_cache g)"
    using cases by cases (auto dest: fall_back_entries)
  show "out = Fresh v \<Longrightarrow> result = Inr v \<and> fc_entries (hg_cache g') =
       (fc_entries (hg_cache g))(key \<mapsto> \<lparr> ce_value = v, ce_inserted_at = hc_cache_now clk \<rparr>)"
    using cases by cases (auto simp: cache_set_def fall_back_def split: prod.splits option.splits)
  show "out = Cached v \<Longrightarrow> \<exists>e. fc_entries (hg_cache g) key = Some e \<and> ce_value e = v \<and>
       hc_cache_now clk - ce_inserted_at e < fc_ttl (hg_cache g)"
    using cases by cases (auto simp: fall_back_def cache_get_def split: option.splits if_splits)
qed

lemma guard_run_entries:
  assumes "guard_run cs g = (h, g')" and "\<forall>k e. fc_entries (hg_cache g) k = Some e \<longrightarrow> (k, ce_value e, ce_inserted_at e) \<in> H"
  shows "fc_ttl (hg_cache g') = fc_ttl (hg_cache g) \<and>
    (\<forall>k e. fc_entries (hg_cache g') k = Some e \<longrightarrow> (k, ce_value e, ce_inserted_at e) \<in> H \<union> set h)"
  using assms
proof (induction cs arbitrary: g h H)
  case (Cons c cs)
  obtain clk key result where c: "c = (clk, key, result)" by (cases c)
  obtain out g1 where call: "hybrid_call clk key result g = (out, g1)" by fastforce
  obtain h2 where h2: "guard_run cs g1 = (h2, g')"
    "h = (case out of Fresh v \<Rightarrow> [(key, v, hc_cache_now clk)] | _ \<Rightarrow> []) @ h2"
    using Cons.prems(1) call by (auto simp: c split: prod.splits)
  let ?H = "H \<union> set (case out of Fresh v \<Rightarrow> [(key, v, hc_cache_now clk)] | _ \<Rightarrow> [])"
  note eff = hybrid_call_entries [OF call]
  have "\<forall>k e. fc_entries (hg_cache g1) k = Some e \<longrightarrow> (k, ce_value e, ce_inserted_at e) \<in> ?H"
  proof (cases "\<exists>v. out = Fresh v")
    case True
    then show ?thesis using Cons.prems(2) eff(3) by (auto split: if_splits)
  next
    case False
    then have "fc_entries (hg_cache g1) \<subseteq>\<^sub>m fc_entries (hg_cache g)" using eff(2) by blast
    then have "fc_entries (hg_cache g) k = Some e" if "fc_entries (hg_cache g1) k = Some e" for k e
      using that by (force simp: map_le_def)
    then show ?thesis using Cons.prems(2) by blast
  qed
  from Cons.IH [OF h2(1) this] eff(1) show ?case by (auto simp: h2(2))
qed simp

text \<open>
  C34: the guard never makes a value up. After any calls, a value served from the cache is one that the
  operation returned earlier for the same key, less than the time to live ago; a fresh value is what
  the operation returned in this call; and a call that has neither reports the operation's error, or
  none when the circuit was open and the operation did not run.
\<close>

theorem hybrid_values_are_genuine:
  assumes "guard_run cs (hybrid_new config ttl) = (h, g)" and "hybrid_call clk key result g = (out, g')"
  shows "case out of
      Fresh v \<Rightarrow> result = Inr v
    | Cached v \<Rightarrow> \<exists>t. (key, v, t) \<in> set h \<and> hc_cache_now clk - t < ttl
    | Unavailable e \<Rightarrow> e = None \<and> fst (hybrid_state (hc_state_now clk) g) = Open \<or> (\<exists>err. e = Some err \<and> result = Inl err)"
proof (cases out)
  case (Fresh v)
  then show ?thesis using hybrid_call_entries(3) [OF assms(2), of v] by simp
next
  case (Cached v)
  then show ?thesis
  proof -
    have "fc_ttl (hg_cache g) = ttl \<and> (\<forall>k e. fc_entries (hg_cache g) k = Some e \<longrightarrow> (k, ce_value e, ce_inserted_at e) \<in> {} \<union> set h)"
      using guard_run_entries [OF assms(1), of "{}"] by (simp add: hybrid_new_def cache_new_def)
    then show ?thesis using hybrid_call_entries(4) [OF assms(2), of v] Cached by auto
  qed
next
  case (Unavailable e)
  then show ?thesis
    using assms(2) by (auto simp: hybrid_call_def fall_back_def Let_def split: prod.splits if_splits sum.splits option.splits)
qed

theorem hybrid_values_are_genuine_witness:
  "let clk = \<lambda>t. \<lparr> hc_state_now = t, hc_record_now = t, hc_cache_now = t \<rparr>;
       g = snd (hybrid_call (clk 1) ''orders'' (Inr (7 :: nat) :: string + nat) (hybrid_new breaker_DEFAULT 10))
   in fst (hybrid_call (clk 5) ''orders'' (Inl ''down'') g) = Cached 7 \<and> (5 :: nat) - 1 < 10"
proof -
  let ?clk = "\<lambda>t. \<lparr> hc_state_now = t, hc_record_now = t, hc_cache_now = t \<rparr>"
  let ?g0 = "hybrid_new breaker_DEFAULT 10 :: (string, nat) hybrid_guard"
  obtain g where g: "hybrid_call (?clk 1) ''orders'' (Inr 7 :: string + nat) ?g0 = (Fresh 7, g)"
    by (simp add: hybrid_call_def hybrid_state_def breaker_state_def resolve_open_timeout_def hybrid_new_def breaker_new_def Let_def)
  have run: "guard_run [(?clk 1, ''orders'', Inr 7 :: string + nat)] ?g0 = ([(''orders'', 7, 1)], g)"
    using g by simp
  obtain g' where call: "hybrid_call (?clk 5) ''orders'' (Inl ''down'') g = (Cached 7, g')"
    using g by (auto simp: hybrid_call_def hybrid_state_def breaker_state_def resolve_open_timeout_def hybrid_new_def breaker_new_def
        record_success_def record_failure_def breaker_DEFAULT_def fall_back_def cache_get_def cache_set_def cache_new_def Let_def)
  from hybrid_values_are_genuine [OF run call] g call show ?thesis by (simp add: Let_def)
qed

end
