(* ===== verification/Sliding_Window.thy ===== *)
theory Sliding_Window
  imports Qaas_Prelude
begin

text \<open>
  The mechanism that \<^verbatim>\<open>quota.rs\<close> and \<^verbatim>\<open>admission.rs\<close> share: accepted requests are kept with the time
  they were accepted, old ones are dropped from the front, and a request is accepted when it fits
  beside those that are left. The locale states what the two limiters promise; proved from it once:
  the dropped entries do not matter, so a limiter decides as if it kept everything, and no window
  anywhere in time holds more than the limit.
\<close>

definition evict :: "('e \<Rightarrow> instant) \<Rightarrow> duration \<Rightarrow> instant \<Rightarrow> 'e list \<Rightarrow> 'e list" where
  "evict stamp window now es = dropWhile (\<lambda>e. window \<le> now - stamp e) es"

text \<open>Requests with their times, in order; the result lists what was accepted.\<close>

fun run_attempts ::
  "('r \<Rightarrow> instant \<Rightarrow> 's \<Rightarrow> 'e option \<times> 's) \<Rightarrow> ('r \<times> instant) list \<Rightarrow> 's \<Rightarrow> 'e list \<times> 's" where
  "run_attempts attempt [] s = ([], s)"
| "run_attempts attempt ((r, now) # reqs) s =
     (case attempt r now s of
        (None, s) \<Rightarrow> run_attempts attempt reqs s
      | (Some e, s) \<Rightarrow> (case run_attempts attempt reqs s of (es, s) \<Rightarrow> (e # es, s)))"

lemma run_attempts_append:
  "run_attempts attempt (xs @ ys) s =
     (case run_attempts attempt xs s of (es, s) \<Rightarrow> (case run_attempts attempt ys s of (es', s) \<Rightarrow> (es @ es', s)))"
  by (induction xs arbitrary: s) (auto split: prod.splits option.splits)

definition tally :: "('e \<Rightarrow> nat) \<Rightarrow> 'e list \<Rightarrow> nat" where
  "tally weight es = sum_list (map weight es)"

lemma tally_simps [simp]:
  "tally weight [] = 0" "tally weight (e # es) = weight e + tally weight es"
  "tally weight (xs @ ys) = tally weight xs + tally weight ys"
  by (simp_all add: tally_def)

lemma tally_filter_mono: "(\<And>e. e \<in> set es \<Longrightarrow> P e \<Longrightarrow> Q e) \<Longrightarrow> tally weight (filter P es) \<le> tally weight (filter Q es)"
  by (induction es) (auto simp: trans_le_add2)

lemma tally_filter_le: "tally weight (filter P es) \<le> tally weight es"
  by (induction es) auto

locale sliding_window =
  fixes stamp :: "'e \<Rightarrow> instant"
    and weight :: "'e \<Rightarrow> nat"
    and demand :: "'r \<Rightarrow> nat"
    and window :: duration
    and fits :: "nat \<Rightarrow> bool"
    and invar :: "'s \<Rightarrow> bool"
    and entries :: "'s \<Rightarrow> 'e list"
    and attempt :: "'r \<Rightarrow> instant \<Rightarrow> 's \<Rightarrow> 'e option \<times> 's"
  assumes fits_mono: "fits n \<Longrightarrow> m \<le> n \<Longrightarrow> fits m"
    and fits_zero: "fits 0"
    and attempt_invar: "invar s \<Longrightarrow> invar (snd (attempt r now s))"
    and accepted: "invar s \<Longrightarrow> attempt r now s = (Some e, s') \<Longrightarrow>
        stamp e = now \<and> weight e = demand r \<and> entries s' = evict stamp window now (entries s) @ [e] \<and>
        fits (tally weight (evict stamp window now (entries s)) + demand r)"
    and refused: "invar s \<Longrightarrow> attempt r now s = (None, s') \<Longrightarrow> entries s' = evict stamp window now (entries s)"
begin

text \<open>The entries kept are those of the history that a window ending at \<open>now\<close> contains.\<close>

definition keeps :: "instant \<Rightarrow> 'e list \<Rightarrow> 's \<Rightarrow> bool" where
  "keeps now h s \<longleftrightarrow> invar s \<and> sorted (map stamp h) \<and> (\<forall>e\<in>set h. stamp e \<le> now) \<and>
     (\<exists>d. h = d @ entries s \<and> (\<forall>e\<in>set d. stamp e + window \<le> now))"

lemma evict_sorted:
  assumes "sorted (map stamp es)"
  shows "evict stamp window now es = filter (\<lambda>e. now - stamp e < window) es"
  using assms
proof (induction es)
  case (Cons e es)
  show ?case
  proof (cases "window \<le> now - stamp e")
    case True
    then show ?thesis using Cons by (simp add: evict_def)
  next
    case False
    then have "\<forall>x\<in>set es. now - stamp x < window" using Cons.prems by force
    with False show ?thesis by (simp add: evict_def)
  qed
qed (simp add: evict_def)

lemma evict_history:
  assumes "keeps now h s" and "now \<le> later"
  shows "evict stamp window later (entries s) = filter (\<lambda>e. later < stamp e + window) h"
proof -
  obtain d where d: "h = d @ entries s" "\<forall>e\<in>set d. stamp e + window \<le> now"
    using assms(1) by (auto simp: keeps_def)
  have le: "\<forall>e\<in>set h. stamp e \<le> later" using assms by (auto simp: keeps_def intro: order_trans)
  have "sorted (map stamp (entries s))" using assms(1) d(1) by (simp add: keeps_def sorted_append)
  then have "evict stamp window later (entries s) = filter (\<lambda>e. later - stamp e < window) (entries s)"
    by (rule evict_sorted)
  also have "\<dots> = filter (\<lambda>e. later < stamp e + window) (entries s)"
  proof (intro filter_cong refl)
    fix e assume "e \<in> set (entries s)"
    then have "stamp e \<le> later" using le d(1) by simp
    then show "later - stamp e < window \<longleftrightarrow> later < stamp e + window" by linarith
  qed
  also have "\<dots> = filter (\<lambda>e. later < stamp e + window) h"
  proof -
    have "filter (\<lambda>e. later < stamp e + window) d = []" using d(2) assms(2) by (fastforce simp: filter_empty_conv)
    then show ?thesis by (simp add: d(1))
  qed
  finally show ?thesis .
qed

lemma attempt_keeps:
  assumes "keeps now h s" and "now \<le> later" and "attempt r later s = (res, s')"
  shows "keeps later (h @ (case res of None \<Rightarrow> [] | Some e \<Rightarrow> [e])) s'"
proof -
  obtain d where d: "h = d @ entries s" "\<forall>e\<in>set d. stamp e + window \<le> now"
    using assms(1) by (auto simp: keeps_def)
  have inv: "invar s" "sorted (map stamp h)" "\<forall>e\<in>set h. stamp e \<le> later"
    using assms(1,2) by (auto simp: keeps_def intro: order_trans)
  let ?d = "takeWhile (\<lambda>e. window \<le> later - stamp e) (entries s)"
  have split: "entries s = ?d @ evict stamp window later (entries s)"
    by (simp add: evict_def)
  have old: "\<forall>e\<in>set (d @ ?d). stamp e + window \<le> later"
  proof
    fix e assume "e \<in> set (d @ ?d)"
    then consider "e \<in> set d" | "e \<in> set (entries s)" "window \<le> later - stamp e" by (auto dest: set_takeWhileD)
    then show "stamp e + window \<le> later"
    proof cases
      case 1
      then show ?thesis using d(2) assms(2) by fastforce
    next
      case 2
      then have "stamp e \<le> later" using inv(3) d(1) by simp
      with 2(2) show ?thesis by linarith
    qed
  qed
  have inv': "invar s'" using attempt_invar [OF inv(1), of r later] assms(3) by simp
  show ?thesis
  proof (cases res)
    case None
    then have s': "entries s' = evict stamp window later (entries s)" using refused inv(1) assms(3) by blast
    have "h = (d @ ?d) @ entries s'" using d(1) split s' by simp
    with None inv inv' old show ?thesis unfolding keeps_def by auto
  next
    case (Some e)
    then have s': "stamp e = later" "entries s' = evict stamp window later (entries s) @ [e]"
      using accepted inv(1) assms(3) by blast+
    have "h @ [e] = (d @ ?d) @ entries s'" using d(1) split s'(2) by simp
    moreover have "sorted (map stamp (h @ [e]))" using inv(2,3) s'(1) by (simp add: sorted_append)
    moreover have "\<forall>x\<in>set (h @ [e]). stamp x \<le> later" using inv(3) s'(1) by simp
    ultimately have "keeps later (h @ [e]) s'" using inv' old unfolding keeps_def by blast
    then show ?thesis using Some by simp
  qed
qed

definition window_ok :: "'e list \<Rightarrow> bool" where
  "window_ok h \<longleftrightarrow> (\<forall>t. fits (tally weight (filter (\<lambda>e. stamp e \<le> t \<and> t < stamp e + window) h)))"

lemma attempt_window_ok:
  assumes "keeps now h s" and "now \<le> later" and "attempt r later s = (Some e, s')" and "window_ok h"
  shows "window_ok (h @ [e])"
proof (unfold window_ok_def, intro allI)
  fix t
  let ?in = "\<lambda>e. stamp e \<le> t \<and> t < stamp e + window"
  have e: "stamp e = later" "weight e = demand r" using accepted assms(1,3) by (auto simp: keeps_def)
  show "fits (tally weight (filter ?in (h @ [e])))"
  proof (cases "?in e")
    case True
    have "tally weight (filter ?in h) \<le> tally weight (filter (\<lambda>e. later < stamp e + window) h)"
    proof (rule tally_filter_mono)
      fix x assume "stamp x \<le> t \<and> t < stamp x + window"
      then show "later < stamp x + window" using True e(1) by linarith
    qed
    moreover have "fits (tally weight (filter (\<lambda>e. later < stamp e + window) h) + demand r)"
      using accepted [OF _ assms(3)] evict_history [OF assms(1,2)] assms(1) by (simp add: keeps_def)
    ultimately show ?thesis using True e(2) by (auto intro: fits_mono)
  next
    case False
    then have "filter ?in (h @ [e]) = filter ?in h" by auto
    then show ?thesis using assms(4) by (simp add: window_ok_def)
  qed
qed

lemma run_keeps:
  assumes "keeps now h s" and "window_ok h" and "sorted (now # map snd reqs)"
    and "run_attempts attempt reqs s = (es, s')"
  shows "keeps (last (now # map snd reqs)) (h @ es) s' \<and> window_ok (h @ es)"
  using assms
proof (induction reqs arbitrary: now h s es)
  case (Cons q reqs)
  obtain r later where q: "q = (r, later)" by (cases q)
  have le: "now \<le> later" "sorted (later # map snd reqs)" using Cons.prems(3) by (simp_all add: q)
  obtain res s1 where step: "attempt r later s = (res, s1)" by fastforce
  note k = attempt_keeps [OF Cons.prems(1) le(1) step]
  show ?case
  proof (cases res)
    case None
    then have "run_attempts attempt reqs s1 = (es, s')" using Cons.prems(4) step by (simp add: q)
    then show ?thesis using Cons.IH [OF _ Cons.prems(2) le(2)] k None by (simp add: q)
  next
    case (Some e)
    obtain es1 where es1: "run_attempts attempt reqs s1 = (es1, s')" "es = e # es1"
      using Cons.prems(4) step Some by (auto simp: q split: prod.splits)
    have "window_ok (h @ [e])"
      using attempt_window_ok [OF Cons.prems(1) le(1)] step Some Cons.prems(2) by blast
    then have "keeps (last (later # map snd reqs)) ((h @ [e]) @ es1) s' \<and> window_ok ((h @ [e]) @ es1)"
      using Cons.IH [OF _ _ le(2) es1(1), of "h @ [e]"] k Some by simp
    then show ?thesis by (simp add: q es1(2))
  qed
qed simp

lemma fresh_keeps: "invar s \<Longrightarrow> entries s = [] \<Longrightarrow> keeps 0 [] s \<and> window_ok []"
  by (simp add: keeps_def window_ok_def fits_zero)

lemma no_window_exceeds:
  assumes "invar s" and "entries s = []" and "sorted (map snd reqs)" and "run_attempts attempt reqs s = (h, s')"
  shows "fits (tally weight (filter (\<lambda>e. stamp e \<le> t \<and> t < stamp e + window) h))"
  using run_keeps [of 0 "[]" s reqs h s'] fresh_keeps [OF assms(1,2)] assms(3,4) by (simp add: window_ok_def)

lemma keeps_after_run:
  assumes "invar s" and "entries s = []" and "sorted (map snd reqs @ [now])" and "run_attempts attempt reqs s = (h, s')"
  shows "keeps (last (0 # map snd reqs)) h s' \<and> last (0 # map snd reqs) \<le> now"
proof -
  have "keeps (last (0 # map snd reqs)) h s'"
    using run_keeps [of 0 "[]" s reqs h s'] fresh_keeps [OF assms(1,2)] assms(3,4) by (simp add: sorted_append)
  moreover have "last (0 # map snd reqs) \<le> now"
    using assms(3) last_in_set [of "map snd reqs"] by (cases "reqs = []") (auto simp: sorted_append)
  ultimately show ?thesis by blast
qed

lemma kept_entries:
  assumes "invar s" and "entries s = []" and "sorted (map snd reqs @ [now])" and "run_attempts attempt reqs s = (h, s')"
  shows "invar s'" and "evict stamp window now (entries s') = filter (\<lambda>e. now < stamp e + window) h"
    and "\<forall>e\<in>set h. stamp e \<le> now" and "set (entries s') \<subseteq> set h" and "sorted (map stamp h)"
proof -
  have k: "keeps (last (0 # map snd reqs)) h s'" "last (0 # map snd reqs) \<le> now"
    using keeps_after_run [OF assms] by blast+
  show "evict stamp window now (entries s') = filter (\<lambda>e. now < stamp e + window) h" by (rule evict_history [OF k])
  show "invar s'" "\<forall>e\<in>set h. stamp e \<le> now" "set (entries s') \<subseteq> set h" "sorted (map stamp h)"
    using k by (auto simp: keeps_def simp del: last.simps intro: order_trans)
qed

end

text \<open>A limiter that refuses only what does not fit decides as if it kept the whole history.\<close>

locale exact_window = sliding_window +
  assumes refused_full: "invar s \<Longrightarrow> attempt r now s = (None, s') \<Longrightarrow>
      \<not> fits (tally weight (evict stamp window now (entries s)) + demand r)"
begin

lemma decides_like_full_history:
  assumes "invar s" and "entries s = []" and "sorted (map snd reqs @ [now])" and "run_attempts attempt reqs s = (h, s')"
  shows "fst (attempt r now s') \<noteq> None \<longleftrightarrow> fits (tally weight (filter (\<lambda>e. now < stamp e + window) h) + demand r)"
proof -
  note kept = kept_entries [OF assms]
  obtain res s'' where step: "attempt r now s' = (res, s'')" by fastforce
  show ?thesis
  proof (cases res)
    case None
    with refused_full [OF kept(1), of r now s''] step kept(2) show ?thesis by simp
  next
    case (Some e)
    with accepted [OF kept(1), of r now e s''] step kept(2) show ?thesis by simp
  qed
qed

end

end
