(* ===== verification/Quota.thy ===== *)
theory Quota
  imports Sliding_Window
begin

text \<open>
  \<^verbatim>\<open>crates/qaas-core/src/quota.rs\<close>: the request quota of a tenant. A method takes the reading of the
  clock; \<^verbatim>\<open>Instant::duration_since\<close> saturates at zero, as subtraction on the naturals does. The text of
  a refusal is represented by the numbers it shows.
\<close>

record quota_config =
  max_queues :: "u64 option"
  max_pending_messages :: "u64 option"
  requests_per_window :: "u64 option"
  quota_window :: duration

definition quota_UNLIMITED :: quota_config where
  "quota_UNLIMITED =
     \<lparr> max_queues = None, max_pending_messages = None, requests_per_window = None, quota_window = from_secs 60 \<rparr>"

datatype quota_reason = WouldMakeRequests u64 u64

datatype quota_decision =
  QuotaAllowed "u64 option"
| QuotaDenied quota_reason "duration option"

record tenant_quota =
  tq_config :: quota_config
  tq_requests :: "instant list"

definition quota_new :: "quota_config \<Rightarrow> tenant_quota" where
  "quota_new config = \<lparr> tq_config = config, tq_requests = [] \<rparr>"

definition quota_set_config :: "quota_config \<Rightarrow> tenant_quota \<Rightarrow> tenant_quota" where
  "quota_set_config config q = q \<lparr> tq_config := config \<rparr>"

definition quota_evict_expired :: "instant list \<Rightarrow> duration \<Rightarrow> instant \<Rightarrow> instant list" where
  "quota_evict_expired requests window now = evict (\<lambda>t. t) window now requests"

definition quota_retry_after :: "instant list \<Rightarrow> duration \<Rightarrow> instant \<Rightarrow> duration" where
  "quota_retry_after requests window now = (case requests of [] \<Rightarrow> 0 | oldest # _ \<Rightarrow> window - (now - oldest))"

definition requests_in_window :: "instant \<Rightarrow> tenant_quota \<Rightarrow> u64 \<times> tenant_quota" where
  "requests_in_window now q =
     (let requests = quota_evict_expired (tq_requests q) (quota_window (tq_config q)) now in
      (usize_to_u64 (length requests), q \<lparr> tq_requests := requests \<rparr>))"

definition try_acquire :: "instant \<Rightarrow> tenant_quota \<Rightarrow> quota_decision \<times> tenant_quota" where
  "try_acquire now q =
     (let window = quota_window (tq_config q);
          q = q \<lparr> tq_requests := quota_evict_expired (tq_requests q) window now \<rparr>
      in case requests_per_window (tq_config q) of
           None \<Rightarrow> (QuotaAllowed None, q)
         | Some limit \<Rightarrow>
             (let current = usize_to_u64 (length (tq_requests q)) in
              if limit \<le> current
              then (QuotaDenied (WouldMakeRequests (current + 1) limit)
                      (if 0 < limit then Some (quota_retry_after (tq_requests q) window now) else None), q)
              else (QuotaAllowed (Some (limit - (current + 1))), q \<lparr> tq_requests := tq_requests q @ [now] \<rparr>)))"

section \<open>The sliding window\<close>

definition quota_attempt :: "unit \<Rightarrow> instant \<Rightarrow> tenant_quota \<Rightarrow> instant option \<times> tenant_quota" where
  "quota_attempt _ now q =
     (case try_acquire now q of
        (QuotaAllowed _, q) \<Rightarrow> (Some now, q)
      | (QuotaDenied _ _, q) \<Rightarrow> (None, q))"

definition quota_inv :: "duration \<Rightarrow> u64 \<Rightarrow> tenant_quota \<Rightarrow> bool" where
  "quota_inv window limit q \<longleftrightarrow> requests_per_window (tq_config q) = Some limit \<and>
     quota_window (tq_config q) = window \<and> length (tq_requests q) \<le> unat limit"

lemma length_evict: "length (evict stamp window now es) \<le> length es"
  by (simp add: evict_def length_dropWhile_le)

lemma tally_one [simp]: "tally (\<lambda>_. Suc 0) es = length es"
  by (induction es) simp_all

lemma quota_count:
  assumes "quota_inv window limit q"
  shows "unat (usize_to_u64 (length (evict (\<lambda>t. t) window now (tq_requests q)))) = length (evict (\<lambda>t. t) window now (tq_requests q))"
proof -
  have "length (evict (\<lambda>t. t) window now (tq_requests q)) \<le> unat limit"
    using assms length_evict [of "\<lambda>t. t" window now "tq_requests q"] by (simp add: quota_inv_def)
  then show ?thesis using unsigned_less [of limit, where 'a = nat] by (simp add: unat_usize_to_u64)
qed

lemma quota_attempt_cases:
  assumes "quota_inv window limit q"
  obtains (accept) "length (evict (\<lambda>t. t) window now (tq_requests q)) < unat limit"
      "quota_attempt r now q = (Some now, q \<lparr> tq_requests := evict (\<lambda>t. t) window now (tq_requests q) @ [now] \<rparr>)"
  | (refuse) "unat limit \<le> length (evict (\<lambda>t. t) window now (tq_requests q))"
      "quota_attempt r now q = (None, q \<lparr> tq_requests := evict (\<lambda>t. t) window now (tq_requests q) \<rparr>)"
  using assms quota_count [OF assms, of now] that
  by (cases "limit \<le> usize_to_u64 (length (evict (\<lambda>t. t) window now (tq_requests q)))")
    (simp_all add: quota_attempt_def try_acquire_def Let_def quota_inv_def quota_evict_expired_def word_le_nat_alt not_le)

interpretation quota_window: exact_window "\<lambda>t. t" "\<lambda>_. 1" "\<lambda>_. 1" window "\<lambda>n. n \<le> unat limit"
    "quota_inv window limit" tq_requests quota_attempt
  for window :: duration and limit :: u64
proof unfold_locales
  fix q r now assume inv: "quota_inv window limit q"
  show "quota_inv window limit (snd (quota_attempt r now q))"
    using inv length_evict [of "\<lambda>t. t" window now "tq_requests q"]
    by (cases rule: quota_attempt_cases [OF inv, of now r]) (auto simp: quota_inv_def)
next
  fix q r now e q' assume inv: "quota_inv window limit q" and a: "quota_attempt r now q = (Some e, q')"
  show "e = now \<and> 1 = 1 \<and> tq_requests q' = evict (\<lambda>t. t) window now (tq_requests q) @ [e] \<and>
      tally (\<lambda>_. 1) (evict (\<lambda>t. t) window now (tq_requests q)) + 1 \<le> unat limit"
    using a by (cases rule: quota_attempt_cases [OF inv, of now r]) auto
next
  fix q r now q' assume inv: "quota_inv window limit q" and a: "quota_attempt r now q = (None, q')"
  show "tq_requests q' = evict (\<lambda>t. t) window now (tq_requests q)"
    using a by (cases rule: quota_attempt_cases [OF inv, of now r]) auto
next
  fix q r now q' assume inv: "quota_inv window limit q" and a: "quota_attempt r now q = (None, q')"
  show "\<not> tally (\<lambda>_. 1) (evict (\<lambda>t. t) window now (tq_requests q)) + 1 \<le> unat limit"
    using a by (cases rule: quota_attempt_cases [OF inv, of now r]) auto
qed simp_all

lemma quota_retry_accepts:
  assumes inv: "quota_inv window limit q" and le: "\<forall>t\<in>set (tq_requests q). t \<le> now"
    and denied: "try_acquire now q = (QuotaDenied reason (Some d), q')"
  shows "\<exists>n. fst (try_acquire (now + d) q') = QuotaAllowed n"
proof -
  let ?es = "evict (\<lambda>t. t) window now (tq_requests q)"
  have att: "quota_attempt () now q = (None, q')" using denied by (simp add: quota_attempt_def)
  from inv att have q': "q' = q \<lparr> tq_requests := ?es \<rparr>" "unat limit \<le> length ?es"
    by (cases rule: quota_attempt_cases [of window limit q now "()"]; simp)+
  have pos: "0 < limit" and d: "d = quota_retry_after ?es window now"
    using denied inv by (auto simp: try_acquire_def Let_def quota_inv_def quota_evict_expired_def split: if_splits)
  have "0 < unat limit" using pos by (simp add: word_less_nat_alt)
  then obtain oldest es where es: "?es = oldest # es" using q'(2) by (cases ?es) auto
  have mem: "oldest \<le> now"
    using le es set_dropWhileD [of oldest _ "tq_requests q"] by (metis evict_def list.set_intros(1))
  have "window \<le> now + d - oldest" using d mem by (simp add: es quota_retry_after_def)
  then have "length (evict (\<lambda>t. t) window (now + d) (tq_requests q')) \<le> length es"
    using length_evict [of "\<lambda>t. t" window "now + d" es] by (simp add: q'(1) es) (simp add: evict_def)
  also have "\<dots> < unat limit"
    using inv length_evict [of "\<lambda>t. t" window now "tq_requests q"] es by (simp add: quota_inv_def)
  finally have room: "length (evict (\<lambda>t. t) window (now + d) (tq_requests q')) < unat limit" .
  have inv': "quota_inv window limit q'"
    using inv length_evict [of "\<lambda>t. t" window now "tq_requests q"] by (simp add: q'(1) quota_inv_def)
  show ?thesis
  proof (cases rule: quota_attempt_cases [OF inv', of "now + d" "()", case_names accept refuse])
    case accept
    then show ?thesis by (auto simp: quota_attempt_def split: prod.splits quota_decision.splits)
  next
    case refuse
    then show ?thesis using room by simp
  qed
qed

text \<open>The times at which the requests of a run were accepted.\<close>

definition quota_run :: "instant list \<Rightarrow> tenant_quota \<Rightarrow> instant list \<times> tenant_quota" where
  "quota_run ts q = run_attempts quota_attempt (map (Pair ()) ts) q"

text \<open>
  C20: the quota is a sliding window. For requests at any non-decreasing times, no interval of the
  configured length anywhere in time contains more accepted requests than the limit; a request is
  accepted exactly when fewer than the limit were accepted in the interval that ends with it, as if
  nothing had been evicted; and a refusal that names a waiting time is right: after it, with no other
  request in between, a request is accepted.
\<close>

theorem quota_is_sliding_window:
  assumes "requests_per_window config = Some limit" and "sorted (ts @ [now])"
    and "quota_run ts (quota_new config) = (h, q)" and "try_acquire now q = (decision, q')"
  shows "length (filter (\<lambda>a. a \<le> t \<and> t < a + quota_window config) h) \<le> unat limit \<and>
    (case decision of
       QuotaAllowed _ \<Rightarrow> length (filter (\<lambda>a. now < a + quota_window config) h) < unat limit
     | QuotaDenied _ wait \<Rightarrow> unat limit \<le> length (filter (\<lambda>a. now < a + quota_window config) h) \<and>
         (wait = None \<longleftrightarrow> limit = 0) \<and>
         (\<forall>d. wait = Some d \<longrightarrow> (\<exists>n. fst (try_acquire (now + d) q') = QuotaAllowed n)))"
proof -
  let ?w = "quota_window config"
  have start: "quota_inv ?w limit (quota_new config)" "tq_requests (quota_new config) = []"
    using assms(1) by (simp_all add: quota_inv_def quota_new_def)
  have sorted: "sorted (map snd (map (Pair ()) ts) @ [now])" "sorted (map snd (map (Pair ()) ts))"
    using assms(2) by (simp_all add: sorted_append comp_def)
  note run = assms(3) [unfolded quota_run_def]
  note kept = quota_window.kept_entries [OF start sorted(1) run]
  have bound: "length (filter (\<lambda>a. a \<le> t \<and> t < a + ?w) h) \<le> unat limit"
    using quota_window.no_window_exceeds [OF start sorted(2) run, of t] by simp
  have exact: "fst (quota_attempt () now q) \<noteq> None \<longleftrightarrow> length (filter (\<lambda>a. now < a + ?w) h) + 1 \<le> unat limit"
    using quota_window.decides_like_full_history [OF start sorted(1) run, of "()"] by simp
  show ?thesis
  proof (cases decision)
    case (QuotaAllowed n)
    then have "fst (quota_attempt () now q) \<noteq> None" using assms(4) by (simp add: quota_attempt_def)
    with exact bound QuotaAllowed show ?thesis by simp
  next
    case (QuotaDenied reason wait)
    then have "fst (quota_attempt () now q) = None" using assms(4) by (simp add: quota_attempt_def)
    with exact have "unat limit \<le> length (filter (\<lambda>a. now < a + ?w) h)" by simp
    moreover have "wait = None \<longleftrightarrow> limit = 0"
      using assms(4) QuotaDenied kept(1)
      by (auto simp: try_acquire_def Let_def quota_inv_def word_gt_0 split: if_splits)
    moreover have "\<exists>n. fst (try_acquire (now + d) q') = QuotaAllowed n" if "wait = Some d" for d
      using quota_retry_accepts [OF kept(1), of now reason d q'] kept(3,4) assms(4) QuotaDenied that by auto
    ultimately show ?thesis using bound QuotaDenied by simp
  qed
qed

theorem quota_is_sliding_window_witness:
  "let config = quota_UNLIMITED \<lparr> requests_per_window := Some 2, quota_window := 10 \<rparr>
   in quota_run [0, 5, 6] (quota_new config) = ([0, 5], \<lparr> tq_config = config, tq_requests = [0, 5] \<rparr>) \<and>
      try_acquire 7 \<lparr> tq_config = config, tq_requests = [0, 5] \<rparr> =
        (QuotaDenied (WouldMakeRequests 3 2) (Some 3), \<lparr> tq_config = config, tq_requests = [0, 5] \<rparr>) \<and>
      (\<exists>n. fst (try_acquire 10 \<lparr> tq_config = config, tq_requests = [0, 5] \<rparr>) = QuotaAllowed n)"
proof -
  let ?config = "quota_UNLIMITED \<lparr> requests_per_window := Some 2, quota_window := 10 \<rparr>"
  let ?q = "\<lparr> tq_config = ?config, tq_requests = [0, 5] \<rparr>"
  have run: "quota_run [0, 5, 6] (quota_new ?config) = ([0, 5], ?q)"
    by (simp add: quota_run_def quota_new_def quota_UNLIMITED_def quota_attempt_def try_acquire_def Let_def
        quota_evict_expired_def evict_def usize_to_u64_def word_le_nat_alt)
  have denied: "try_acquire 7 ?q = (QuotaDenied (WouldMakeRequests 3 2) (Some 3), ?q)"
    by (simp add: quota_UNLIMITED_def try_acquire_def Let_def quota_evict_expired_def evict_def usize_to_u64_def
        quota_retry_after_def)
  have "requests_per_window ?config = Some 2" "sorted ([0, 5, 6] @ [7 :: nat])" by simp_all
  from quota_is_sliding_window [OF this run denied, of 0] run denied show ?thesis by (simp add: Let_def)
qed

end
