(* ===== verification/Admission.thy ===== *)
theory Admission
  imports Sliding_Window F64
begin

text \<open>
  \<^verbatim>\<open>crates/qaas-core/src/admission.rs\<close>: the budget of a queue in tokens and dollars. The window works as
  in the theory \<open>Quota\<close>; tokens are summed with saturation, costs in binary64 arithmetic. The text of
  a refusal is represented by the numbers it shows.
\<close>

record admission_config =
  tokens_per_window :: "u64 option"
  cost_ceiling_per_window :: "f64 option"
  adm_window :: duration

definition admission_UNLIMITED :: admission_config where
  "admission_UNLIMITED =
     \<lparr> tokens_per_window = None, cost_ceiling_per_window = None, adm_window = from_secs 3600 \<rparr>"

record usage_entry =
  ue_at :: instant
  ue_tokens :: u64
  ue_cost :: f64

record usage_snapshot =
  tokens_used :: u64
  cost_used :: f64

datatype admission_reason = WouldUseTokens u64 u64 | WouldSpend f64 f64

datatype admission_decision =
  Admitted "u64 option" "f64 option"
| AdmissionDenied admission_reason "duration option"

record admission_controller =
  adm_config :: admission_config
  adm_entries :: "usage_entry list"

definition admission_new :: "admission_config \<Rightarrow> admission_controller" where
  "admission_new config = \<lparr> adm_config = config, adm_entries = [] \<rparr>"

definition admission_set_config :: "admission_config \<Rightarrow> admission_controller \<Rightarrow> admission_controller" where
  "admission_set_config config a = a \<lparr> adm_config := config \<rparr>"

definition adm_evict_expired :: "usage_entry list \<Rightarrow> duration \<Rightarrow> instant \<Rightarrow> usage_entry list" where
  "adm_evict_expired entries window now = evict ue_at window now entries"

definition adm_sum :: "usage_entry list \<Rightarrow> u64 \<times> f64" where
  "adm_sum entries =
     foldl (\<lambda>(tokens, cost) entry. (sat_add tokens (ue_tokens entry), f64_add cost (ue_cost entry))) (0, Fin 0) entries"

definition adm_retry_after :: "usage_entry list \<Rightarrow> duration \<Rightarrow> instant \<Rightarrow> duration" where
  "adm_retry_after entries window now = (case entries of [] \<Rightarrow> 0 | oldest # _ \<Rightarrow> window - (now - ue_at oldest))"

definition adm_refresh :: "instant \<Rightarrow> admission_controller \<Rightarrow> admission_controller" where
  "adm_refresh now a = a \<lparr> adm_entries := adm_evict_expired (adm_entries a) (adm_window (adm_config a)) now \<rparr>"

definition adm_usage :: "instant \<Rightarrow> admission_controller \<Rightarrow> usage_snapshot \<times> admission_controller" where
  "adm_usage now a =
     (let a = adm_refresh now a; (tokens, cost) = adm_sum (adm_entries a)
      in (\<lparr> tokens_used = tokens, cost_used = cost \<rparr>, a))"

definition has_headroom :: "instant \<Rightarrow> admission_controller \<Rightarrow> bool \<times> admission_controller" where
  "has_headroom now a =
     (let a = adm_refresh now a;
          (tokens, cost) = adm_sum (adm_entries a);
          tokens_ok = (case tokens_per_window (adm_config a) of None \<Rightarrow> True | Some limit \<Rightarrow> tokens < limit);
          cost_ok = (case cost_ceiling_per_window (adm_config a) of None \<Rightarrow> True | Some ceil \<Rightarrow> f64_lt cost ceil)
      in (tokens_ok \<and> cost_ok, a))"

definition exceeds_tokens :: "admission_config \<Rightarrow> u64 \<Rightarrow> bool" where
  "exceeds_tokens config projected = (case tokens_per_window config of None \<Rightarrow> False | Some limit \<Rightarrow> limit < projected)"

definition exceeds_cost :: "admission_config \<Rightarrow> f64 \<Rightarrow> bool" where
  "exceeds_cost config projected = (case cost_ceiling_per_window config of None \<Rightarrow> False | Some ceil \<Rightarrow> f64_lt ceil projected)"

definition try_admit :: "u64 \<Rightarrow> f64 \<Rightarrow> instant \<Rightarrow> admission_controller \<Rightarrow> admission_decision \<times> admission_controller" where
  "try_admit tokens cost now a =
     (let a = adm_refresh now a;
          config = adm_config a;
          (used, spent) = adm_sum (adm_entries a);
          projected_tokens = sat_add used tokens;
          projected_cost = f64_add spent cost;
          wait = adm_retry_after (adm_entries a) (adm_window config) now
      in if exceeds_tokens config projected_tokens
         then (let limit = the (tokens_per_window config) in
               (AdmissionDenied (WouldUseTokens projected_tokens limit) (if tokens \<le> limit then Some wait else None), a))
         else if exceeds_cost config projected_cost
         then (let ceil = the (cost_ceiling_per_window config) in
               (AdmissionDenied (WouldSpend projected_cost ceil) (if f64_le cost ceil then Some wait else None), a))
         else (Admitted (map_option (\<lambda>limit. limit - projected_tokens) (tokens_per_window config))
                 (map_option (\<lambda>ceil. f64_sub ceil projected_cost) (cost_ceiling_per_window config)),
               a \<lparr> adm_entries := adm_entries a @ [\<lparr> ue_at = now, ue_tokens = tokens, ue_cost = cost \<rparr>] \<rparr>))"

section \<open>Tokens\<close>

lemma adm_sum_fst: "unat (fst (adm_sum es)) = min (tally (\<lambda>e. unat (ue_tokens e)) es) (2 ^ 64 - 1)"
proof -
  let ?f = "\<lambda>(tokens, cost) entry. (sat_add tokens (ue_tokens entry), f64_add cost (ue_cost entry))"
  have "unat (fst (foldl ?f (t, c) es)) = min (unat t + tally (\<lambda>e. unat (ue_tokens e)) es) (2 ^ 64 - 1)" for t c
  proof (induction es arbitrary: t c)
    case Nil
    have "unat t < 2 ^ 64" using unsigned_less [of t, where 'a = nat] by simp
    then show ?case by simp
  next
    case (Cons e es)
    then show ?case by (simp add: unat_sat_add)
  qed
  from this [of 0 "Fin 0"] show ?thesis by (simp add: adm_sum_def)
qed

definition adm_attempt :: "u64 \<times> f64 \<Rightarrow> instant \<Rightarrow> admission_controller \<Rightarrow> usage_entry option \<times> admission_controller" where
  "adm_attempt r now a =
     (case try_admit (fst r) (snd r) now a of
        (Admitted _ _, a) \<Rightarrow> (Some \<lparr> ue_at = now, ue_tokens = fst r, ue_cost = snd r \<rparr>, a)
      | (AdmissionDenied _ _, a) \<Rightarrow> (None, a))"

definition adm_inv :: "admission_config \<Rightarrow> admission_controller \<Rightarrow> bool" where
  "adm_inv config a \<longleftrightarrow> adm_config a = config"

definition token_fits :: "admission_config \<Rightarrow> nat \<Rightarrow> bool" where
  "token_fits config n = (case tokens_per_window config of None \<Rightarrow> True | Some limit \<Rightarrow> min n (2 ^ 64 - 1) \<le> unat limit)"

lemma projected_fits:
  "exceeds_tokens config (sat_add (fst (adm_sum es)) tokens) \<longleftrightarrow>
   \<not> token_fits config (tally (\<lambda>e. unat (ue_tokens e)) es + unat tokens)"
  by (auto simp: exceeds_tokens_def token_fits_def word_less_nat_alt unat_sat_add adm_sum_fst not_le split: option.splits)

lemma try_admit_cases:
  assumes "adm_inv config a"
  obtains (accept) "\<not> exceeds_cost config (f64_add (snd (adm_sum (evict ue_at (adm_window config) now (adm_entries a)))) cost)"
      "token_fits config (tally (\<lambda>e. unat (ue_tokens e)) (evict ue_at (adm_window config) now (adm_entries a)) + unat tokens)"
      "adm_attempt (tokens, cost) now a = (Some \<lparr> ue_at = now, ue_tokens = tokens, ue_cost = cost \<rparr>,
         a \<lparr> adm_entries := evict ue_at (adm_window config) now (adm_entries a) @ [\<lparr> ue_at = now, ue_tokens = tokens, ue_cost = cost \<rparr>] \<rparr>)"
  | (refuse) "adm_attempt (tokens, cost) now a = (None, a \<lparr> adm_entries := evict ue_at (adm_window config) now (adm_entries a) \<rparr>)"
      "cost_ceiling_per_window config = None \<Longrightarrow>
       \<not> token_fits config (tally (\<lambda>e. unat (ue_tokens e)) (evict ue_at (adm_window config) now (adm_entries a)) + unat tokens)"
proof -
  let ?es = "evict ue_at (adm_window config) now (adm_entries a)"
  have a: "adm_config a = config" using assms by (simp add: adm_inv_def)
  obtain used spent where sum: "adm_sum ?es = (used, spent)" by (cases "adm_sum ?es")
  note fits = projected_fits [of config ?es tokens, unfolded sum, simplified]
  note defs = adm_attempt_def try_admit_def adm_refresh_def adm_evict_expired_def Let_def a sum
  consider (over) "exceeds_tokens config (sat_add used tokens)"
    | (dear) "\<not> exceeds_tokens config (sat_add used tokens)" "exceeds_cost config (f64_add spent cost)"
    | (ok) "\<not> exceeds_tokens config (sat_add used tokens)" "\<not> exceeds_cost config (f64_add spent cost)"
    by blast
  then show thesis
  proof cases
    case over
    then show thesis using fits by (intro refuse) (simp_all add: defs)
  next
    case dear
    then have "cost_ceiling_per_window config \<noteq> None" by (auto simp: exceeds_cost_def split: option.splits)
    with dear show thesis by (intro refuse) (simp_all add: defs)
  next
    case ok
    then show thesis using fits by (intro accept) (simp_all add: defs)
  qed
qed

interpretation token_window: sliding_window ue_at "\<lambda>e. unat (ue_tokens e)" "\<lambda>r. unat (fst r)" "adm_window config"
    "token_fits config" "adm_inv config" adm_entries adm_attempt
  for config :: admission_config
proof unfold_locales
  fix a and r :: "u64 \<times> f64" and now assume inv: "adm_inv config a"
  obtain tokens cost where r: "r = (tokens, cost)" by (cases r)
  show "adm_inv config (snd (adm_attempt r now a))"
    using inv by (cases rule: try_admit_cases [OF inv, of now cost tokens]) (auto simp: adm_inv_def r)
next
  fix a and r :: "u64 \<times> f64" and now e a' assume inv: "adm_inv config a" and att: "adm_attempt r now a = (Some e, a')"
  obtain tokens cost where r: "r = (tokens, cost)" by (cases r)
  show "ue_at e = now \<and> unat (ue_tokens e) = unat (fst r) \<and>
      adm_entries a' = evict ue_at (adm_window config) now (adm_entries a) @ [e] \<and>
      token_fits config (tally (\<lambda>e. unat (ue_tokens e)) (evict ue_at (adm_window config) now (adm_entries a)) + unat (fst r))"
    using att by (cases rule: try_admit_cases [OF inv, of now cost tokens]) (auto simp: r)
next
  fix a and r :: "u64 \<times> f64" and now a' assume inv: "adm_inv config a" and att: "adm_attempt r now a = (None, a')"
  obtain tokens cost where r: "r = (tokens, cost)" by (cases r)
  show "adm_entries a' = evict ue_at (adm_window config) now (adm_entries a)"
    using att by (cases rule: try_admit_cases [OF inv, of now cost tokens]) (auto simp: r)
qed (auto simp: token_fits_def split: option.splits)

text \<open>Without a cost ceiling nothing is refused that fits.\<close>

interpretation token_exact: exact_window ue_at "\<lambda>e. unat (ue_tokens e)" "\<lambda>r. unat (fst r)" "adm_window config"
    "token_fits config" "\<lambda>a. adm_inv config a \<and> cost_ceiling_per_window config = None" adm_entries adm_attempt
  for config :: admission_config
proof unfold_locales
  fix a and r :: "u64 \<times> f64" and now a'
  assume inv: "adm_inv config a \<and> cost_ceiling_per_window config = None" and att: "adm_attempt r now a = (None, a')"
  obtain tokens cost where r: "r = (tokens, cost)" by (cases r)
  show "\<not> token_fits config (tally (\<lambda>e. unat (ue_tokens e)) (evict ue_at (adm_window config) now (adm_entries a)) + unat (fst r))"
    using att inv by (cases rule: try_admit_cases [OF inv [THEN conjunct1], of now cost tokens]) (auto simp: r)
next
  fix a and r :: "u64 \<times> f64" and now
  assume "adm_inv config a \<and> cost_ceiling_per_window config = None"
  then show "adm_inv config (snd (adm_attempt r now a)) \<and> cost_ceiling_per_window config = None"
    using token_window.attempt_invar by simp
next
  fix a and r :: "u64 \<times> f64" and now e a'
  assume "adm_inv config a \<and> cost_ceiling_per_window config = None" "adm_attempt r now a = (Some e, a')"
  then show "ue_at e = now \<and> unat (ue_tokens e) = unat (fst r) \<and>
      adm_entries a' = evict ue_at (adm_window config) now (adm_entries a) @ [e] \<and>
      token_fits config (tally (\<lambda>e. unat (ue_tokens e)) (evict ue_at (adm_window config) now (adm_entries a)) + unat (fst r))"
    using token_window.accepted [of config a r now e a'] by simp
next
  fix a and r :: "u64 \<times> f64" and now a'
  assume "adm_inv config a \<and> cost_ceiling_per_window config = None" "adm_attempt r now a = (None, a')"
  then show "adm_entries a' = evict ue_at (adm_window config) now (adm_entries a)"
    using token_window.refused [of config a r now a'] by simp
qed (use token_window.fits_mono token_window.fits_zero in auto)

definition adm_run :: "((u64 \<times> f64) \<times> instant) list \<Rightarrow> admission_controller \<Rightarrow> usage_entry list \<times> admission_controller" where
  "adm_run reqs a = run_attempts adm_attempt reqs a"



section \<open>Costs\<close>

definition costs_ok :: "usage_entry list \<Rightarrow> bool" where
  "costs_ok es \<longleftrightarrow> (\<forall>e\<in>set es. f64_le (Fin 0) (ue_cost e))"

definition spent_on :: "f64 \<Rightarrow> usage_entry list \<Rightarrow> f64" where
  "spent_on c es = foldl (\<lambda>c e. f64_add c (ue_cost e)) c es"

lemma adm_sum_snd: "snd (adm_sum es) = spent_on (Fin 0) es"
proof -
  have "snd (foldl (\<lambda>(tokens, cost) entry. (sat_add tokens (ue_tokens entry), f64_add cost (ue_cost entry))) (t, c) es) = spent_on c es"
    for t c by (induction es arbitrary: t c) (simp_all add: spent_on_def)
  then show ?thesis by (simp add: adm_sum_def)
qed

lemma f64_add_nonneg:
  assumes "f64_le (Fin 0) a" and "f64_le (Fin 0) b"
  shows "f64_le (Fin 0) (f64_add a b)"
proof (cases a)
  case (Fin x)
  show ?thesis
  proof (cases b)
    case (Fin y)
    have "f64_round 0 = Fin 0" by (simp add: f64_round_def)
    moreover have "f64_le (f64_round 0) (f64_round (x + y))"
      using assms \<open>a = Fin x\<close> Fin by (intro f64_round_mono) simp
    ultimately show ?thesis using \<open>a = Fin x\<close> Fin by simp
  qed (use assms \<open>a = Fin x\<close> in auto)
qed (use assms in \<open>cases b; auto\<close>)+

lemma nonneg_not_NaN: "f64_le (Fin 0) a \<Longrightarrow> a \<noteq> NaN"
  by auto

lemma spent_mono:
  assumes "costs_ok es" and "f64_le (Fin 0) c" and "f64_le c c'"
  shows "f64_le (Fin 0) (spent_on c es) \<and> f64_le (spent_on c es) (spent_on c' es)"
  using assms
proof (induction es arbitrary: c c')
  case (Cons e es)
  have e: "f64_le (Fin 0) (ue_cost e)" using Cons.prems(1) by (simp add: costs_ok_def)
  have "f64_le (Fin 0) c'" using Cons.prems(2,3) f64_le_trans by blast
  then have "f64_le (Fin 0) (f64_add c (ue_cost e))" "f64_le (Fin 0) (f64_add c' (ue_cost e))"
    using f64_add_nonneg e Cons.prems(2) by blast+
  moreover from this have "f64_le (f64_add c (ue_cost e)) (f64_add c' (ue_cost e))"
    using nonneg_not_NaN by (intro f64_add_mono [OF Cons.prems(3)]) auto
  ultimately show ?case
    using Cons.IH [of "f64_add c (ue_cost e)" "f64_add c' (ue_cost e)"] Cons.prems(1) by (simp add: spent_on_def costs_ok_def)
qed (auto simp: spent_on_def)

lemma spent_suffix:
  assumes "costs_ok es"
  shows "f64_le (spent_on (Fin 0) (evict stamp w now es)) (spent_on (Fin 0) es)"
  using assms
proof (induction es)
  case (Cons e es)
  have ok: "costs_ok es" "f64_le (Fin 0) (ue_cost e)" using Cons.prems by (simp_all add: costs_ok_def)
  show ?case
  proof (cases "w \<le> now - stamp e")
    case True
    have z: "f64_le (Fin 0) (Fin 0)" by simp
    have "f64_le (spent_on (Fin 0) es) (spent_on (f64_add (Fin 0) (ue_cost e)) es)"
      using spent_mono [OF ok(1) z f64_add_nonneg [OF z ok(2)]] by blast
    then have "f64_le (spent_on (Fin 0) (evict stamp w now es)) (spent_on (Fin 0) (e # es))"
      using Cons.IH [OF ok(1)] f64_le_trans by (auto simp: spent_on_def)
    with True show ?thesis by (simp add: evict_def)
  next
    case False
    have "f64_le (Fin 0) (Fin 0)" by simp
    then have "f64_le (Fin 0) (spent_on (Fin 0) (e # es))" using spent_mono [OF Cons.prems] by blast
    with False show ?thesis using nonneg_not_NaN by (auto simp: evict_def)
  qed
qed (simp add: evict_def spent_on_def)

definition cost_inv :: "admission_config \<Rightarrow> admission_controller \<Rightarrow> bool" where
  "cost_inv config a \<longleftrightarrow> adm_inv config a \<and> costs_ok (adm_entries a) \<and>
     \<not> exceeds_cost config (spent_on (Fin 0) (adm_entries a))"

lemma costs_ok_evict: "costs_ok es \<Longrightarrow> costs_ok (evict stamp w now es)"
  by (auto simp: costs_ok_def evict_def dest: set_dropWhileD)

lemma exceeds_cost_mono:
  assumes "f64_le c c'" and "\<not> exceeds_cost config c'"
  shows "\<not> exceeds_cost config c"
proof -
  have "f64_lt x c \<Longrightarrow> f64_lt x c'" for x
    using assms(1) f64_le_trans by (auto simp: f64_lt_def)
  with assms(2) show ?thesis by (auto simp: exceeds_cost_def split: option.splits)
qed

lemma cost_inv_refresh: "cost_inv config a \<Longrightarrow> cost_inv config (adm_refresh now a)"
  using exceeds_cost_mono [OF spent_suffix [of "adm_entries a" ue_at]]
  by (auto simp: cost_inv_def adm_inv_def adm_refresh_def adm_evict_expired_def costs_ok_evict)

lemma cost_inv_attempt:
  assumes "cost_inv config a" and "f64_le (Fin 0) cost"
  shows "cost_inv config (snd (adm_attempt (tokens, cost) now a))"
proof -
  have inv: "adm_inv config a" using assms(1) by (simp add: cost_inv_def)
  let ?es = "evict ue_at (adm_window config) now (adm_entries a)"
  have ref: "cost_inv config (a \<lparr> adm_entries := ?es \<rparr>)"
    using cost_inv_refresh [OF assms(1), of now] inv by (simp add: adm_refresh_def adm_evict_expired_def adm_inv_def)
  show ?thesis
  proof (cases rule: try_admit_cases [OF inv, of now cost tokens, case_names accept refuse])
    case accept
    then show ?thesis
      using ref assms(2) by (simp add: cost_inv_def adm_inv_def costs_ok_def adm_sum_snd spent_on_def)
  next
    case refuse
    then show ?thesis using ref by simp
  qed
qed

lemma cost_inv_run:
  "cost_inv config a \<Longrightarrow> \<forall>((tokens, cost), t)\<in>set reqs. f64_le (Fin 0) cost \<Longrightarrow>
   cost_inv config (snd (run_attempts adm_attempt reqs a))"
proof (induction reqs arbitrary: a)
  case (Cons q reqs)
  obtain tokens cost t where q: "q = ((tokens, cost), t)" by (cases q) auto
  obtain r a1 where step: "adm_attempt (tokens, cost) t a = (r, a1)" by fastforce
  have "cost_inv config a1" using cost_inv_attempt [OF Cons.prems(1), of cost tokens t] Cons.prems(2) step by (simp add: q)
  then have "cost_inv config (snd (run_attempts adm_attempt reqs a1))" using Cons by simp
  then show ?case using step by (auto simp: q split: option.splits prod.splits)
qed simp

text \<open>
  The cost ceiling holds for non-negative costs. Under an unchanged configuration, after any
  requests with non-negative costs (infinite ones included), the cost that \<^verbatim>\<open>usage\<close> reports at any later
  time does not exceed the ceiling, rounding included.
\<close>

lemma admission_cost_ceiling:
  assumes "cost_ceiling_per_window config = Some limit" and "f64_le (Fin 0) limit"
    and "\<forall>((tokens, cost), t)\<in>set reqs. f64_le (Fin 0) cost"
    and "adm_run reqs (admission_new config) = (h, a)" and "adm_usage now a = (usage, a')"
  shows "f64_le (cost_used usage) limit"
proof -
  have "cost_inv config (admission_new config)"
    using assms(1,2) by (auto simp: cost_inv_def adm_inv_def admission_new_def costs_ok_def spent_on_def exceeds_cost_def f64_lt_def)
  then have "cost_inv config a" using cost_inv_run [OF _ assms(3)] assms(4) by (metis adm_run_def snd_conv)
  then have inv: "cost_inv config (adm_refresh now a)" by (rule cost_inv_refresh)
  have used: "cost_used usage = spent_on (Fin 0) (adm_entries (adm_refresh now a))"
    using assms(5) by (auto simp: adm_usage_def Let_def adm_sum_snd [symmetric] split: prod.splits)
  have "f64_le (Fin 0) (cost_used usage)"
    using spent_mono [of _ "Fin 0" "Fin 0"] inv by (simp add: used cost_inv_def)
  then have "cost_used usage \<noteq> NaN" by (rule nonneg_not_NaN)
  moreover have "\<not> f64_lt limit (cost_used usage)"
    using inv assms(1) by (simp add: cost_inv_def used exceeds_cost_def)
  ultimately show ?thesis using f64_not_lt [of "cost_used usage" limit] nonneg_not_NaN [OF assms(2)] by simp
qed

lemma f64_round_one [simp]: "f64_round 1 = Fin 1"
proof -
  have "round_rat 1 = 1" using round_rat_powi [of 0] by simp
  then show ?thesis by (simp add: f64_round_def power_int_def)
qed

lemma f64_round_zero [simp]: "f64_round 0 = Fin 0"
  by (simp add: f64_round_def)

lemmas admission_eval = adm_run_def admission_new_def adm_attempt_def try_admit_def adm_refresh_def adm_evict_expired_def
  evict_def adm_sum_def Let_def admission_UNLIMITED_def exceeds_tokens_def exceeds_cost_def sat_add_def adm_usage_def
  has_headroom_def f64_lt_def

lemma admission_cost_ceiling_witness:
  "let config = admission_UNLIMITED \<lparr> cost_ceiling_per_window := Some (Fin 1), adm_window := 100 \<rparr>;
       a = snd (adm_run [((0, Fin 1), 1), ((0, Fin 1), 2)] (admission_new config))
   in f64_le (cost_used (fst (adm_usage 3 a))) (Fin 1)"
proof -
  let ?config = "admission_UNLIMITED \<lparr> cost_ceiling_per_window := Some (Fin 1), adm_window := 100 \<rparr>"
  obtain h a where run: "adm_run [((0, Fin 1), 1), ((0, Fin 1), 2)] (admission_new ?config) = (h, a)" by fastforce
  obtain usage a' where use: "adm_usage 3 a = (usage, a')" by fastforce
  have hyps: "cost_ceiling_per_window ?config = Some (Fin 1)" "f64_le (Fin 0) (Fin 1)"
    "\<forall>((tokens, cost), t)\<in>set [((0 :: u64, Fin 1), 1 :: nat), ((0, Fin 1), 2)]. f64_le (Fin 0) cost" by simp_all
  from admission_cost_ceiling [OF hyps run use] run use show ?thesis by (simp add: Let_def)
qed

text \<open>
  A negative cost opens the budget. With a ceiling of one dollar, a request of one dollar, one of
  minus one and another of one are all admitted within the same window.
\<close>

lemma negative_cost_defeats_ceiling:
  "let config = admission_UNLIMITED \<lparr> cost_ceiling_per_window := Some (Fin 1), adm_window := 100 \<rparr>
   in map ue_cost (fst (adm_run [((0, Fin 1), 1), ((0, Fin (- 1)), 2), ((0, Fin 1), 3)] (admission_new config))) =
      [Fin 1, Fin (- 1), Fin 1]"
  by (simp add: admission_eval)

text \<open>
  A full window has no headroom. Under an unchanged configuration, after a request that uses the
  token budget exactly, \<^verbatim>\<open>has_headroom\<close> is false although no ceiling was lowered and the budget is not
  exceeded: claims are throttled by work that was admitted.
\<close>

lemma full_window_has_no_headroom:
  "let config = admission_UNLIMITED \<lparr> tokens_per_window := Some 10, adm_window := 100 \<rparr>;
       (decision, a) = try_admit 10 (Fin 0) 1 (admission_new config)
   in decision = Admitted (Some 0) None \<and> fst (has_headroom 2 a) = False"
  by (simp add: admission_eval)

end
