(* ===== verification/Auth.thy ===== *)
theory Auth
  imports Durable_Log
begin

text \<open>
  \<^verbatim>\<open>crates/qaas-core/src/auth.rs\<close> and \<^verbatim>\<open>crates/qaas-server/src/http_auth.rs\<close>: tenants, durable API keys, and
  the middleware in front of the HTTP transport. SHA-256, the random UUIDs, the parsing of a header
  value and the verification of a JWT are third-party code and appear as parameters; the hash map of
  keys is a map because the code never iterates over it.
\<close>

section \<open>Tenants\<close>

datatype tenant_id = TenantId string

datatype invalid_tenant_id = InvalidTenantId

definition MAX_TENANT_ID_LEN :: nat where
  "MAX_TENANT_ID_LEN = 128"

definition is_ascii_alphanumeric :: "char \<Rightarrow> bool" where
  "is_ascii_alphanumeric c =
     (let n = of_char c :: nat in 48 \<le> n \<and> n \<le> 57 \<or> 65 \<le> n \<and> n \<le> 90 \<or> 97 \<le> n \<and> n \<le> 122)"

definition tenant_char :: "char \<Rightarrow> bool" where
  "tenant_char c \<longleftrightarrow> is_ascii_alphanumeric c \<or> c = CHR ''-'' \<or> c = CHR ''_''"

text \<open>A string is a list of bytes; the bytes of a character outside ASCII are all at least 128.\<close>

definition tenant_id_new :: "string \<Rightarrow> invalid_tenant_id + tenant_id" where
  "tenant_id_new v =
     (if v \<noteq> [] \<and> length v \<le> MAX_TENANT_ID_LEN \<and> list_all tenant_char v then Inr (TenantId v) else Inl InvalidTenantId)"

primrec tenant_as_str :: "tenant_id \<Rightarrow> string" where
  "tenant_as_str (TenantId v) = v"

section \<open>Keys\<close>

datatype key_record = Mint string tenant_id | Revoke string

definition hex_digit :: "nat \<Rightarrow> char" where
  "hex_digit n = ''0123456789abcdef'' ! n"

definition hex_byte :: "u8 \<Rightarrow> string" where
  "hex_byte b = [hex_digit (unat b div 16), hex_digit (unat b mod 16)]"

definition hex_encode :: "u8 list \<Rightarrow> string" where
  "hex_encode bs = concat (map hex_byte bs)"

definition hash_key :: "(string \<Rightarrow> u8 list) \<Rightarrow> string \<Rightarrow> string" where
  "hash_key sha256 raw_key = hex_encode (sha256 raw_key)"

text \<open>\<open>uuid1\<close> and \<open>uuid2\<close> are the simple forms of two random UUIDs.\<close>

definition generate_raw_key :: "string \<Rightarrow> string \<Rightarrow> string" where
  "generate_raw_key uuid1 uuid2 = ''qaas_'' @ uuid1 @ uuid2"

record api_key_store =
  ks_keys :: "string \<rightharpoonup> tenant_id"
  ks_wal :: "key_record list"

fun key_apply :: "key_record \<Rightarrow> (string \<rightharpoonup> tenant_id) \<Rightarrow> (string \<rightharpoonup> tenant_id)" where
  "key_apply (Mint h tenant) keys = keys(h \<mapsto> tenant)"
| "key_apply (Revoke h) keys = keys(h := None)"

definition keys_open :: "key_record list io_result \<Rightarrow> api_key_store io_result" where
  "keys_open opened =
     (case opened of
        Inl e \<Rightarrow> Inl e
      | Inr records \<Rightarrow> Inr \<lparr> ks_keys = fold key_apply records Map.empty, ks_wal = records \<rparr>)"

definition key_log :: "key_record \<Rightarrow> log_outcome \<Rightarrow> api_key_store \<Rightarrow> unit io_result \<times> api_key_store" where
  "key_log r out s = (case log_append r out (ks_wal s) of (res, wal) \<Rightarrow> (res, s \<lparr> ks_wal := wal \<rparr>))"

definition mint ::
  "(string \<Rightarrow> u8 list) \<Rightarrow> string \<Rightarrow> string \<Rightarrow> tenant_id \<Rightarrow> log_outcome \<Rightarrow> api_key_store \<Rightarrow> string io_result \<times> api_key_store" where
  "mint sha256 uuid1 uuid2 tenant out s =
     (let raw_key = generate_raw_key uuid1 uuid2; h = hash_key sha256 raw_key in
      case key_log (Mint h tenant) out s of
        (Inl e, s) \<Rightarrow> (Inl e, s)
      | (Inr _, s) \<Rightarrow> (Inr raw_key, s \<lparr> ks_keys := (ks_keys s)(h \<mapsto> tenant) \<rparr>))"

text \<open>The section of \<^verbatim>\<open>revoke\<close> after the log write; another call may have removed the key in between.\<close>

definition revoke_remove :: "string \<Rightarrow> api_key_store \<Rightarrow> bool \<times> api_key_store" where
  "revoke_remove h s = (ks_keys s h \<noteq> None, s \<lparr> ks_keys := (ks_keys s)(h := None) \<rparr>)"

definition revoke :: "(string \<Rightarrow> u8 list) \<Rightarrow> string \<Rightarrow> log_outcome \<Rightarrow> api_key_store \<Rightarrow> bool io_result \<times> api_key_store" where
  "revoke sha256 raw_key out s =
     (let h = hash_key sha256 raw_key in
      if ks_keys s h = None then (Inr False, s)
      else case key_log (Revoke h) out s of
             (Inl e, s) \<Rightarrow> (Inl e, s)
           | (Inr _, s) \<Rightarrow> (case revoke_remove h s of (b, s) \<Rightarrow> (Inr b, s)))"

definition authenticate :: "(string \<Rightarrow> u8 list) \<Rightarrow> string \<Rightarrow> api_key_store \<Rightarrow> tenant_id option" where
  "authenticate sha256 raw_key s = ks_keys s (hash_key sha256 raw_key)"

section \<open>The middleware\<close>

text \<open>
  \<open>decode key token\<close> is the \<^verbatim>\<open>tenant_id\<close> claim of a token whose signature and expiry are valid under
  HS256; \<open>from_secret\<close> builds the key; \<open>to_str\<close> is \<^verbatim>\<open>HeaderValue::to_str\<close>.
\<close>

record 'k auth_state =
  as_api_keys :: api_key_store
  as_jwt_key :: "'k option"

definition auth_state_new :: "(string \<Rightarrow> 'k) \<Rightarrow> string option \<Rightarrow> api_key_store \<Rightarrow> 'k auth_state" where
  "auth_state_new from_secret env_secret api_keys =
     \<lparr> as_api_keys = api_keys,
       as_jwt_key = (case env_secret of None \<Rightarrow> None | Some secret \<Rightarrow> if secret = [] then None else Some (from_secret secret)) \<rparr>"

definition strip_prefix :: "string \<Rightarrow> string \<Rightarrow> string option" where
  "strip_prefix pre v = (if take (length pre) v = pre then Some (drop (length pre) v) else None)"

definition bearer_credential :: "(u8 list \<Rightarrow> string option) \<Rightarrow> u8 list option \<Rightarrow> string option" where
  "bearer_credential to_str authorization =
     (case authorization of
        None \<Rightarrow> None
      | Some bs \<Rightarrow> (case to_str bs of None \<Rightarrow> None | Some v \<Rightarrow> strip_prefix ''Bearer '' v))"

definition verify_jwt :: "('k \<Rightarrow> string \<Rightarrow> string option) \<Rightarrow> string \<Rightarrow> 'k \<Rightarrow> tenant_id option" where
  "verify_jwt decode token key =
     (case decode key token of
        None \<Rightarrow> None
      | Some claim \<Rightarrow> (case tenant_id_new claim of Inl _ \<Rightarrow> None | Inr tenant \<Rightarrow> Some tenant))"

datatype 'r http_outcome = Unauthorized string | NextRan 'r

definition require_tenant ::
  "(string \<Rightarrow> u8 list) \<Rightarrow> (u8 list \<Rightarrow> string option) \<Rightarrow> ('k \<Rightarrow> string \<Rightarrow> string option) \<Rightarrow> (tenant_id \<Rightarrow> 'r)
   \<Rightarrow> 'k auth_state \<Rightarrow> u8 list option \<Rightarrow> 'r http_outcome" where
  "require_tenant sha256 to_str decode next st authorization =
     (case bearer_credential to_str authorization of
        None \<Rightarrow> Unauthorized ''missing or malformed Authorization header''
      | Some credential \<Rightarrow>
          (case (case authenticate sha256 credential (as_api_keys st) of
                   Some tenant \<Rightarrow> Some tenant
                 | None \<Rightarrow> (case as_jwt_key st of None \<Rightarrow> None | Some key \<Rightarrow> verify_jwt decode credential key)) of
             None \<Rightarrow> Unauthorized ''credential did not resolve to a known tenant''
           | Some tenant \<Rightarrow> NextRan (next tenant)))"

section \<open>Hexadecimal text\<close>

lemma hex_digit_inj:
  assumes "m < 16" and "n < 16" and "hex_digit m = hex_digit n"
  shows "m = n"
proof -
  have "distinct ''0123456789abcdef''" "length ''0123456789abcdef'' = 16" by simp_all
  with assms show ?thesis unfolding hex_digit_def by (metis nth_eq_iff_index_eq)
qed

lemma hex_byte_inj: "hex_byte a = hex_byte b \<Longrightarrow> a = b"
proof -
  assume eq: "hex_byte a = hex_byte b"
  have lt: "unat x div 16 < 16" for x :: u8 using unsigned_less [of x, where 'a = nat] by simp
  have "unat a div 16 = unat b div 16" "unat a mod 16 = unat b mod 16"
    using eq hex_digit_inj lt by (simp_all add: hex_byte_def)
  then have "unat a = unat b" by (metis div_mult_mod_eq)
  then show ?thesis by (rule word_unat_eq_iff [THEN iffD2])
qed

lemma hex_encode_inj: "hex_encode xs = hex_encode ys \<longleftrightarrow> xs = ys"
proof
  assume "hex_encode xs = hex_encode ys"
  then show "xs = ys"
  proof (induction xs arbitrary: ys)
    case Nil
    then show ?case by (cases ys) (simp_all add: hex_encode_def hex_byte_def)
  next
    case (Cons x xs)
    then obtain y ys' where ys: "ys = y # ys'" by (cases ys) (simp_all add: hex_encode_def hex_byte_def)
    have "hex_byte x @ hex_encode xs = hex_byte y @ hex_encode ys'"
      using Cons.prems by (simp add: ys hex_encode_def)
    then have "hex_byte x = hex_byte y" "hex_encode xs = hex_encode ys'" by (simp_all add: hex_byte_def)
    then show ?case using Cons.IH hex_byte_inj by (simp add: ys)
  qed
qed simp

lemma hash_key_eq: "hash_key sha256 a = hash_key sha256 b \<longleftrightarrow> sha256 a = sha256 b"
  by (simp add: hash_key_def hex_encode_inj)

section \<open>The life of a key\<close>

datatype key_call = CallMint string string tenant_id log_outcome | CallRevoke string log_outcome

fun key_step :: "(string \<Rightarrow> u8 list) \<Rightarrow> key_call \<Rightarrow> api_key_store \<Rightarrow> api_key_store" where
  "key_step sha256 (CallMint u1 u2 tenant out) s = snd (mint sha256 u1 u2 tenant out s)"
| "key_step sha256 (CallRevoke raw out) s = snd (revoke sha256 raw out s)"

fun key_faithful :: "key_call \<Rightarrow> bool" where
  "key_faithful (CallMint u1 u2 tenant out) \<longleftrightarrow> (\<forall>e. out \<noteq> Unsynced e)"
| "key_faithful (CallRevoke raw out) \<longleftrightarrow> (\<forall>e. out \<noteq> Unsynced e)"

text \<open>The digest a call is about.\<close>

fun call_digest :: "(string \<Rightarrow> u8 list) \<Rightarrow> key_call \<Rightarrow> u8 list" where
  "call_digest sha256 (CallMint u1 u2 tenant out) = sha256 (generate_raw_key u1 u2)"
| "call_digest sha256 (CallRevoke raw out) = sha256 raw"

lemmas key_defs = mint_def revoke_def key_log_def revoke_remove_def Let_def

interpretation key_store: replayed_store key_apply Map.empty ks_keys ks_wal "key_step sha256" key_faithful
  for sha256 :: "string \<Rightarrow> u8 list"
proof unfold_locales
  fix c s assume faithful: "key_faithful c"
  show "(ks_keys (key_step sha256 c s) = ks_keys s \<and> ks_wal (key_step sha256 c s) = ks_wal s) \<or>
    (\<exists>r. ks_wal (key_step sha256 c s) = ks_wal s @ [r] \<and> ks_keys (key_step sha256 c s) = key_apply r (ks_keys s))"
  proof (cases c)
    case (CallMint u1 u2 tenant out)
    then show ?thesis using faithful by (cases out) (auto simp: key_defs)
  next
    case (CallRevoke raw out)
    then show ?thesis using faithful by (cases out) (auto simp: key_defs)
  qed
qed

definition replayed_keys :: "api_key_store \<Rightarrow> string \<rightharpoonup> tenant_id" where
  "replayed_keys s = fold key_apply (ks_wal s) Map.empty"

lemma keys_open_replayed: "keys_open (Inr (ks_wal s)) = Inr s' \<Longrightarrow> ks_keys s' = replayed_keys s"
  by (auto simp: keys_open_def replayed_keys_def)

lemma other_call:
  assumes "call_digest sha256 c \<noteq> sha256 raw"
  shows "ks_keys (key_step sha256 c s) (hash_key sha256 raw) = ks_keys s (hash_key sha256 raw)"
    and "replayed_keys (key_step sha256 c s) (hash_key sha256 raw) = replayed_keys s (hash_key sha256 raw)"
proof -
  have ne: "hash_key sha256 raw \<noteq> hash_key sha256 k" if "sha256 k \<noteq> sha256 raw" for k
    using that by (simp add: hash_key_eq eq_commute)
  show "ks_keys (key_step sha256 c s) (hash_key sha256 raw) = ks_keys s (hash_key sha256 raw)"
    using assms ne by (cases c; cases "key_faithful c") (auto simp: key_defs log_append_Ok_iff split: prod.splits sum.splits)
  show "replayed_keys (key_step sha256 c s) (hash_key sha256 raw) = replayed_keys s (hash_key sha256 raw)"
  proof (cases c)
    case (CallMint u1 u2 tenant out)
    then show ?thesis using assms ne by (cases out) (auto simp: key_defs replayed_keys_def)
  next
    case (CallRevoke k out)
    then show ?thesis using assms ne by (cases out) (auto simp: key_defs replayed_keys_def)
  qed
qed

lemma other_calls:
  assumes "\<forall>c\<in>set cs. call_digest sha256 c \<noteq> sha256 raw"
  shows "ks_keys (fold (key_step sha256) cs s) (hash_key sha256 raw) = ks_keys s (hash_key sha256 raw) \<and>
    replayed_keys (fold (key_step sha256) cs s) (hash_key sha256 raw) = replayed_keys s (hash_key sha256 raw)"
  using assms by (induction cs arbitrary: s) (simp_all add: other_call)


definition sample_sha :: "string \<Rightarrow> u8 list" where
  "sample_sha v = map of_char v"


section \<open>What passes the middleware\<close>

definition valid_tenant :: "tenant_id \<Rightarrow> bool" where
  "valid_tenant t \<longleftrightarrow> tenant_id_new (tenant_as_str t) = Inr t"

text \<open>The tenants of the keys minted successfully in a run, by digest.\<close>

fun minted :: "(string \<Rightarrow> u8 list) \<Rightarrow> key_call list \<Rightarrow> (u8 list \<times> tenant_id) set" where
  "minted sha256 [] = {}"
| "minted sha256 (CallMint u1 u2 tenant out # cs) =
     (if out = Logged then {(sha256 (generate_raw_key u1 u2), tenant)} else {}) \<union> minted sha256 cs"
| "minted sha256 (CallRevoke raw out # cs) = minted sha256 cs"

lemma keys_are_minted:
  assumes "\<forall>h t. ks_keys s h = Some t \<longrightarrow> (\<exists>d. h = hex_encode d \<and> (d, t) \<in> M)"
    and "ks_keys (fold (key_step sha256) cs s) h = Some t"
  shows "\<exists>d. h = hex_encode d \<and> (d, t) \<in> M \<union> minted sha256 cs"
  using assms
proof (induction cs arbitrary: s M)
  case (Cons c cs)
  show ?case
  proof (cases c)
    case (CallMint u1 u2 tenant out)
    let ?M = "M \<union> (if out = Logged then {(sha256 (generate_raw_key u1 u2), tenant)} else {})"
    have "\<forall>h t. ks_keys (key_step sha256 c s) h = Some t \<longrightarrow> (\<exists>d. h = hex_encode d \<and> (d, t) \<in> ?M)"
      using Cons.prems(1) by (cases out) (auto simp: CallMint key_defs hash_key_def)
    from Cons.IH [OF this] Cons.prems(2) show ?thesis by (simp add: CallMint Un_assoc)
  next
    case (CallRevoke raw out)
    have "\<forall>h t. ks_keys (key_step sha256 c s) h = Some t \<longrightarrow> (\<exists>d. h = hex_encode d \<and> (d, t) \<in> M)"
      using Cons.prems(1) by (cases out) (auto simp: CallRevoke key_defs)
    from Cons.IH [OF this] Cons.prems(2) show ?thesis by (simp add: CallRevoke)
  qed
qed auto

lemma strip_prefix_Some: "strip_prefix pre v = Some c \<longleftrightarrow> v = pre @ c"
  by (auto simp: strip_prefix_def) (metis append_take_drop_id)

text \<open>
  C25: the middleware lets only authentic tenants through. If a request reaches the service, its header
  holds a bearer credential, and the tenant handed on is either one for which a key with the
  credential's digest was minted, or the one a configured JWT secret vouches for; and its name is a
  non-empty string of at most 128 ASCII letters, digits, dashes and underscores, so it has no path
  separator and no dot.
\<close>

theorem only_authentic_tenants_pass:
  assumes "keys_open (Inr []) = Inr s0" and "as_api_keys st = fold (key_step sha256) cs s0"
    and "\<forall>(d, t)\<in>minted sha256 cs. valid_tenant t"
    and "require_tenant sha256 to_str decode next st header = NextRan r"
  shows "\<exists>bytes v credential tenant. header = Some bytes \<and> to_str bytes = Some v \<and> v = ''Bearer '' @ credential \<and>
    r = next tenant \<and> valid_tenant tenant \<and> set (tenant_as_str tenant) \<inter> {CHR ''/'', CHR ''.'', CHR 0x5C, CHR 0x00} = {} \<and>
    ((sha256 credential, tenant) \<in> minted sha256 cs \<or>
     (\<exists>key claim. as_jwt_key st = Some key \<and> decode key credential = Some claim \<and> tenant_id_new claim = Inr tenant))"
proof -
  obtain credential tenant where c: "bearer_credential to_str header = Some credential" "r = next tenant"
    and res: "authenticate sha256 credential (as_api_keys st) = Some tenant \<or>
      (\<exists>key. as_jwt_key st = Some key \<and> verify_jwt decode credential key = Some tenant)"
    using assms(4) by (auto simp: require_tenant_def split: option.splits)
  obtain bytes v where hdr: "header = Some bytes" "to_str bytes = Some v" "v = ''Bearer '' @ credential"
    using c(1) by (auto simp: bearer_credential_def strip_prefix_Some simp del: append.simps split: option.splits)
  have key: "(sha256 credential, tenant) \<in> minted sha256 cs \<or>
     (\<exists>key claim. as_jwt_key st = Some key \<and> decode key credential = Some claim \<and> tenant_id_new claim = Inr tenant)"
  proof (cases "authenticate sha256 credential (as_api_keys st) = Some tenant")
    case True
    have "\<forall>h t. ks_keys s0 h = Some t \<longrightarrow> (\<exists>d. h = hex_encode d \<and> (d, t) \<in> {})"
      using assms(1) by (auto simp: keys_open_def)
    from keys_are_minted [OF this, of sha256 cs "hash_key sha256 credential" tenant] True
    show ?thesis by (auto simp: authenticate_def assms(2) hash_key_def hex_encode_inj)
  next
    case False
    then obtain key where key: "as_jwt_key st = Some key" "verify_jwt decode credential key = Some tenant" using res by blast
    obtain claim where claim: "decode key credential = Some claim"
      using key(2) by (cases "decode key credential") (auto simp: verify_jwt_def)
    then have "tenant_id_new claim = Inr tenant"
      using key(2) by (cases "tenant_id_new claim") (auto simp: verify_jwt_def)
    with key(1) claim show ?thesis by blast
  qed
  then have valid: "valid_tenant tenant"
    using assms(3) by (auto simp: valid_tenant_def tenant_id_new_def split: if_splits)
  then have "list_all tenant_char (tenant_as_str tenant)"
    by (simp add: valid_tenant_def tenant_id_new_def split: if_splits)
  then have "set (tenant_as_str tenant) \<inter> {CHR ''/'', CHR ''.'', CHR 0x5C, CHR 0x00} = {}"
    by (auto simp: list_all_iff tenant_char_def is_ascii_alphanumeric_def)
  with c hdr key valid show ?thesis by blast
qed

theorem only_authentic_tenants_pass_witness:
  "let cs = [CallMint ''a'' ''b'' (TenantId ''acme'') Logged];
       s = fold (key_step sample_sha) cs \<lparr> ks_keys = Map.empty, ks_wal = [] \<rparr>;
       st = auth_state_new (\<lambda>v. v) None s
   in require_tenant sample_sha (\<lambda>b. if b = [1] then Some ''Bearer qaas_ab'' else None) (\<lambda>k t. None) tenant_as_str st
        (Some [1]) = NextRan ''acme'' \<and>
      (sample_sha ''qaas_ab'', TenantId ''acme'') \<in> minted sample_sha cs"
proof -
  let ?cs = "[CallMint ''a'' ''b'' (TenantId ''acme'') Logged]"
  let ?s0 = "\<lparr> ks_keys = Map.empty, ks_wal = [] \<rparr>"
  let ?st = "auth_state_new (\<lambda>v. v) None (fold (key_step sample_sha) ?cs ?s0)"
  have hyps: "keys_open (Inr []) = Inr ?s0" "as_api_keys ?st = fold (key_step sample_sha) ?cs ?s0"
    "\<forall>(d, t)\<in>minted sample_sha ?cs. valid_tenant t"
    by (simp_all add: keys_open_def auth_state_new_def valid_tenant_def tenant_id_new_def MAX_TENANT_ID_LEN_def
        tenant_char_def is_ascii_alphanumeric_def)
  have pass: "require_tenant sample_sha (\<lambda>b. if b = [1] then Some ''Bearer qaas_ab'' else None) (\<lambda>k t. None) tenant_as_str ?st
        (Some [1]) = NextRan ''acme''"
    by (simp add: require_tenant_def bearer_credential_def strip_prefix_def authenticate_def auth_state_new_def key_defs
        generate_raw_key_def)
  from only_authentic_tenants_pass [OF hyps pass] pass show ?thesis by (auto simp: Let_def generate_raw_key_def)
qed

end
