(* ===== verification/Audit_Log.thy ===== *)
theory Audit_Log
  imports Durable_Log Qaas_Types
begin

text \<open>
  \<^verbatim>\<open>crates/qaas-core/src/audit.rs\<close>: audit events pass through a bounded channel to a pool of workers that
  append them to a log. A step is a call of \<^verbatim>\<open>log\<close>, a worker taking a record off the channel, or a worker
  finishing its write; any interleaving of them is a run. The bounded channel is that of tokio, with
  its documented behaviour: a send succeeds while fewer than \<^verbatim>\<open>channel_capacity\<close> records wait, records
  leave in the order they came, and a capacity of zero is refused with a panic.
\<close>

section \<open>The logger\<close>

record audit_config =
  al_workers :: nat
  al_channel_capacity :: nat

definition audit_DEFAULT :: audit_config where
  "audit_DEFAULT = \<lparr> al_workers = 4, al_channel_capacity = 4096 \<rparr>"

record 'e audit_record =
  ar_at :: timestamp
  ar_event :: 'e

text \<open>A worker waits for a record or writes one.\<close>

record 'e audit_logger =
  au_capacity :: nat
  au_channel :: "'e audit_record list"
  au_workers :: "'e audit_record option list"
  au_wal :: "'e audit_record list"
  au_dropped :: u64
  au_written :: u64

datatype audit_open_error = AuditIo io_error | ChannelPanic

definition audit_open :: "audit_config \<Rightarrow> 'e audit_record list io_result \<Rightarrow> audit_open_error + 'e audit_logger" where
  "audit_open config opened =
     (case opened of
        Inl e \<Rightarrow> Inl (AuditIo e)
      | Inr records \<Rightarrow>
          if al_channel_capacity config = 0 then Inl ChannelPanic
          else Inr \<lparr> au_capacity = al_channel_capacity config, au_channel = [],
                     au_workers = replicate (max 1 (al_workers config)) None, au_wal = records,
                     au_dropped = 0, au_written = 0 \<rparr>)"

definition audit_log :: "timestamp \<Rightarrow> 'e \<Rightarrow> 'e audit_logger \<Rightarrow> 'e audit_logger" where
  "audit_log now event a =
     (let r = \<lparr> ar_at = now, ar_event = event \<rparr> in
      if length (au_channel a) < au_capacity a then a \<lparr> au_channel := au_channel a @ [r] \<rparr>
      else a \<lparr> au_dropped := au_dropped a + 1 \<rparr>)"

definition worker_takes :: "nat \<Rightarrow> 'e audit_logger \<Rightarrow> 'e audit_logger" where
  "worker_takes w a =
     (case au_channel a of
        [] \<Rightarrow> a
      | r # rest \<Rightarrow>
          if w < length (au_workers a) \<and> au_workers a ! w = None
          then a \<lparr> au_channel := rest, au_workers := (au_workers a)[w := Some r] \<rparr> else a)"

definition worker_writes :: "nat \<Rightarrow> log_outcome \<Rightarrow> 'e audit_logger \<Rightarrow> 'e audit_logger" where
  "worker_writes w out a =
     (if w < length (au_workers a) then
        (case au_workers a ! w of
           None \<Rightarrow> a
         | Some r \<Rightarrow>
             (case log_append r out (au_wal a) of
                (res, wal) \<Rightarrow>
                  a \<lparr> au_wal := wal, au_workers := (au_workers a)[w := None],
                      au_written := (case res of Inr _ \<Rightarrow> au_written a + 1 | Inl _ \<Rightarrow> au_written a) \<rparr>))
      else a)"

definition audit_dropped :: "'e audit_logger \<Rightarrow> u64" where
  "audit_dropped a = au_dropped a"

definition audit_written :: "'e audit_logger \<Rightarrow> u64" where
  "audit_written a = au_written a"

section \<open>Runs\<close>

datatype 'e audit_input = LogCall timestamp 'e | WorkerTakes nat | WorkerWrites nat log_outcome

fun audit_step :: "'e audit_input \<Rightarrow> 'e audit_logger \<Rightarrow> 'e audit_logger" where
  "audit_step (LogCall now event) a = audit_log now event a"
| "audit_step (WorkerTakes w) a = worker_takes w a"
| "audit_step (WorkerWrites w out) a = worker_writes w out a"

text \<open>What becomes of records in a run: dropped at the channel, written, failed to be written.\<close>

record 'e audit_fate =
  af_dropped :: "'e audit_record list"
  af_written :: "'e audit_record list"
  af_failed :: "'e audit_record list"

fun step_fate :: "'e audit_input \<Rightarrow> 'e audit_logger \<Rightarrow> 'e audit_fate \<Rightarrow> 'e audit_fate" where
  "step_fate (LogCall now event) a f =
     (if length (au_channel a) < au_capacity a then f
      else f \<lparr> af_dropped := af_dropped f @ [\<lparr> ar_at = now, ar_event = event \<rparr>] \<rparr>)"
| "step_fate (WorkerTakes w) a f = f"
| "step_fate (WorkerWrites w out) a f =
     (if w < length (au_workers a) then
        (case au_workers a ! w of
           None \<Rightarrow> f
         | Some r \<Rightarrow> if out = Logged then f \<lparr> af_written := af_written f @ [r] \<rparr> else f \<lparr> af_failed := af_failed f @ [r] \<rparr>)
      else f)"

fun audit_run :: "'e audit_input list \<Rightarrow> 'e audit_logger \<Rightarrow> 'e audit_fate \<Rightarrow> 'e audit_logger \<times> 'e audit_fate" where
  "audit_run [] a f = (a, f)"
| "audit_run (e # es) a f = audit_run es (audit_step e a) (step_fate e a f)"

fun logged_records :: "'e audit_input list \<Rightarrow> 'e audit_record list" where
  "logged_records [] = []"
| "logged_records (LogCall now event # es) = \<lparr> ar_at = now, ar_event = event \<rparr> # logged_records es"
| "logged_records (_ # es) = logged_records es"

definition in_flight :: "'e audit_logger \<Rightarrow> 'e audit_record list" where
  "in_flight a = concat (map (\<lambda>w. case w of None \<Rightarrow> [] | Some r \<Rightarrow> [r]) (au_workers a))"

lemma mset_in_flight_update:
  assumes "w < length ws"
  shows "mset (concat (map f ws)) + mset (f v) = mset (concat (map f (ws[w := v]))) + mset (f (ws ! w))"
  using assms
proof (induction ws arbitrary: w)
  case (Cons x ws)
  show ?case
  proof (cases w)
    case (Suc n)
    then show ?thesis using Cons.IH [of n] Cons.prems by (simp add: ac_simps)
  qed simp
qed simp

lemma flight_taken:
  assumes "w < length (au_workers a)" and "au_workers a ! w = None"
  shows "mset (in_flight (a \<lparr> au_channel := c, au_workers := (au_workers a)[w := Some r] \<rparr>)) = add_mset r (mset (in_flight a))"
  using mset_in_flight_update [OF assms(1), of "\<lambda>w. case w of None \<Rightarrow> [] | Some r \<Rightarrow> [r]" "Some r"] assms(2)
  by (simp add: in_flight_def)

lemma flight_written:
  assumes "w < length (au_workers a)" and "au_workers a ! w = Some r"
  shows "mset (in_flight a) =
    add_mset r (mset (in_flight (a \<lparr> au_wal := wal, au_workers := (au_workers a)[w := None], au_written := n \<rparr>)))"
  using mset_in_flight_update [OF assms(1), of "\<lambda>w. case w of None \<Rightarrow> [] | Some r \<Rightarrow> [r]" None] assms(2)
  by (simp add: in_flight_def)

text \<open>Everything logged so far is somewhere, and the counters count.\<close>

definition audit_inv ::
  "'e audit_record list \<Rightarrow> 'e audit_record multiset \<Rightarrow> 'e audit_logger \<Rightarrow> 'e audit_fate \<Rightarrow> bool" where
  "audit_inv records L a f \<longleftrightarrow>
     L = mset (af_dropped f) + mset (af_written f) + mset (af_failed f) + mset (au_channel a) + mset (in_flight a) \<and>
     au_dropped a = of_nat (length (af_dropped f)) \<and> au_written a = of_nat (length (af_written f)) \<and>
     length (au_channel a) \<le> au_capacity a \<and>
     (\<exists>xs. au_wal a = records @ xs \<and> mset (af_written f) \<subseteq># mset xs \<and> mset xs \<subseteq># mset (af_written f) + mset (af_failed f))"

lemma audit_log_inv:
  assumes "audit_inv records L a f"
  shows "audit_inv records (add_mset \<lparr> ar_at = now, ar_event = event \<rparr> L) (audit_step (LogCall now event) a) (step_fate (LogCall now event) a f)"
  using assms by (auto simp: audit_inv_def audit_log_def Let_def in_flight_def)

lemma worker_takes_inv:
  assumes "audit_inv records L a f"
  shows "audit_inv records L (audit_step (WorkerTakes w) a) (step_fate (WorkerTakes w) a f)"
proof (cases "w < length (au_workers a) \<and> au_workers a ! w = None")
  case True
  then show ?thesis
    using assms flight_taken [of w a] by (auto simp: audit_inv_def worker_takes_def split: list.splits)
next
  case False
  then have "worker_takes w a = a" by (auto simp: worker_takes_def split: list.splits)
  then show ?thesis using assms by simp
qed

lemma worker_writes_inv:
  assumes "audit_inv records L a f"
  shows "audit_inv records L (audit_step (WorkerWrites w out) a) (step_fate (WorkerWrites w out) a f)"
proof (cases "\<exists>r. w < length (au_workers a) \<and> au_workers a ! w = Some r")
  case True
  then obtain r where r: "w < length (au_workers a)" "au_workers a ! w = Some r" by blast
  obtain xs where xs: "au_wal a = records @ xs" "mset (af_written f) \<subseteq># mset xs"
    "mset xs \<subseteq># mset (af_written f) + mset (af_failed f)" using assms by (auto simp: audit_inv_def)
  have more: "mset (af_written f) \<subseteq># add_mset r (mset xs)" "mset xs \<subseteq># add_mset r (mset (af_written f) + mset (af_failed f))"
    using xs(2,3) by (auto intro: subset_mset.order_trans)
  show ?thesis
    using assms flight_written [OF r] xs more by (cases out) (auto simp: audit_inv_def worker_writes_def r)
next
  case False
  then have "worker_writes w out a = a" "step_fate (WorkerWrites w out) a f = f"
    by (auto simp: worker_writes_def split: option.splits)
  then show ?thesis using assms by simp
qed

lemma audit_run_inv:
  assumes "audit_inv records L a f" and "audit_run es a f = (a', f')"
  shows "audit_inv records (L + mset (logged_records es)) a' f'"
  using assms
proof (induction es arbitrary: a f L)
  case (Cons e es)
  have step: "audit_inv records (L + mset (logged_records [e])) (audit_step e a) (step_fate e a f)"
  proof (cases e)
    case (LogCall now event)
    then show ?thesis using audit_log_inv [OF Cons.prems(1), of now event] by (simp del: audit_step.simps step_fate.simps)
  next
    case (WorkerTakes w)
    then show ?thesis using worker_takes_inv [OF Cons.prems(1), of w] by (simp del: audit_step.simps step_fate.simps)
  next
    case (WorkerWrites w out)
    then show ?thesis using worker_writes_inv [OF Cons.prems(1), of w out] by (simp del: audit_step.simps step_fate.simps)
  qed
  have "audit_inv records (L + mset (logged_records [e]) + mset (logged_records es)) a' f'"
    using Cons.IH [OF step] Cons.prems(2) by simp
  moreover have "logged_records (e # es) = logged_records [e] @ logged_records es" by (cases e) simp_all
  ultimately show ?case by (simp add: ac_simps)
qed simp

text \<open>
  C38: no audit event disappears unnoticed. In any run of \<^verbatim>\<open>log\<close> calls and workers, with any outcomes of the
  log writes, every event logged is exactly one of: dropped, written, failed to be written, waiting,
  or being written; the two counters count the dropped and the written ones (up to \<open>2 ^ 64\<close> steps);
  the channel never exceeds its capacity; and what the run added to the log are the written events
  and at most some of the failed ones.
\<close>

theorem audit_conserves_events:
  assumes "audit_open config (Inr records) = Inr a0"
    and "audit_run es a0 \<lparr> af_dropped = [], af_written = [], af_failed = [] \<rparr> = (a, f)" and "length es < 2 ^ 64"
  shows "mset (logged_records es) =
      mset (af_dropped f) + mset (af_written f) + mset (af_failed f) + mset (au_channel a) + mset (in_flight a) \<and>
    unat (audit_dropped a) = length (af_dropped f) \<and> unat (audit_written a) = length (af_written f) \<and>
    length (au_channel a) \<le> al_channel_capacity config \<and>
    (\<exists>xs. au_wal a = records @ xs \<and> mset (af_written f) \<subseteq># mset xs \<and> mset xs \<subseteq># mset (af_written f) + mset (af_failed f))"
proof -
  have a0: "a0 = \<lparr> au_capacity = al_channel_capacity config, au_channel = [],
      au_workers = replicate (max 1 (al_workers config)) None, au_wal = records, au_dropped = 0, au_written = 0 \<rparr>"
    using assms(1) by (auto simp: audit_open_def split: if_splits)
  have "in_flight a0 = []" by (simp add: a0 in_flight_def map_replicate_const concat_replicate_trivial)
  then have "audit_inv records {#} a0 \<lparr> af_dropped = [], af_written = [], af_failed = [] \<rparr>"
    by (simp add: audit_inv_def a0)
  from audit_run_inv [OF this assms(2)] have inv: "audit_inv records (mset (logged_records es)) a f" by simp
  have "length (logged_records es) \<le> length es" by (induction es rule: logged_records.induct) auto
  moreover have "size (mset (logged_records es)) = length (af_dropped f) + length (af_written f) + length (af_failed f) +
      length (au_channel a) + length (in_flight a)"
    using inv by (simp only: audit_inv_def size_union size_mset)
  ultimately have small: "length (af_dropped f) < 2 ^ 64" "length (af_written f) < 2 ^ 64" using assms(3) by simp_all
  have capacity: "au_capacity a = al_channel_capacity config"
  proof -
    have "au_capacity (audit_step e b) = au_capacity b" for e and b :: "'a audit_logger"
      by (cases e) (auto simp: audit_log_def worker_takes_def worker_writes_def Let_def split: list.splits option.splits prod.splits)
    then have "audit_run es b g = (a, f) \<Longrightarrow> au_capacity a = au_capacity b" for b g
      by (induction es arbitrary: b g) auto
    with assms(2) show ?thesis by (simp add: a0)
  qed
  have "unat (of_nat n :: u64) = n" if "n < 2 ^ 64" for n using that by (simp add: unat_of_nat)
  with inv small capacity show ?thesis by (simp add: audit_inv_def audit_dropped_def audit_written_def)
qed


text \<open>
  A run with two workers and room for one waiting record: the first event is taken, the second waits,
  the third is dropped, and the first one's write fails.
\<close>

definition sample_audit :: "nat audit_input list" where
  "sample_audit = [LogCall (Timestamp 1) 10, WorkerTakes 0, LogCall (Timestamp 2) 20, LogCall (Timestamp 3) 30, WorkerTakes 1,
     WorkerWrites 1 Logged, WorkerWrites 0 (NotLogged OtherIo)]"

definition sample_logger :: "nat audit_logger" where
  "sample_logger = \<lparr> au_capacity = 1, au_channel = [], au_workers = [None, None], au_wal = [], au_dropped = 0, au_written = 0 \<rparr>"

lemma sample_audit_run:
  "audit_open \<lparr> al_workers = 2, al_channel_capacity = 1 \<rparr> (Inr []) = Inr sample_logger"
  "audit_run sample_audit sample_logger \<lparr> af_dropped = [], af_written = [], af_failed = [] \<rparr> =
     (sample_logger \<lparr> au_wal := [\<lparr> ar_at = Timestamp 2, ar_event = 20 \<rparr>], au_dropped := 1, au_written := 1 \<rparr>,
      \<lparr> af_dropped = [\<lparr> ar_at = Timestamp 3, ar_event = 30 \<rparr>], af_written = [\<lparr> ar_at = Timestamp 2, ar_event = 20 \<rparr>],
        af_failed = [\<lparr> ar_at = Timestamp 1, ar_event = 10 \<rparr>] \<rparr>)"
  by (simp_all add: audit_open_def sample_logger_def sample_audit_def audit_log_def worker_takes_def worker_writes_def
      numeral_2_eq_2)

theorem audit_conserves_events_witness:
  "\<exists>a f. audit_run sample_audit sample_logger \<lparr> af_dropped = [], af_written = [], af_failed = [] \<rparr> = (a, f) \<and>
     mset (logged_records sample_audit) =
       mset (af_dropped f) + mset (af_written f) + mset (af_failed f) + mset (au_channel a) + mset (in_flight a) \<and>
     unat (audit_dropped a) = length (af_dropped f) \<and> af_failed f \<noteq> []"
  using audit_conserves_events [OF sample_audit_run] sample_audit_run(2) by (simp add: sample_audit_def)

text \<open>
  The two counters alone do not account for the events: here three events were logged, nothing waits
  and no worker is busy, yet the counters sum to two, since a failed write is counted by neither.
\<close>

lemma audit_counters_miss_failed_writes:
  "\<exists>a f. audit_run sample_audit sample_logger \<lparr> af_dropped = [], af_written = [], af_failed = [] \<rparr> = (a, f) \<and>
     au_channel a = [] \<and> in_flight a = [] \<and> length (logged_records sample_audit) = 3 \<and>
     audit_written a + audit_dropped a = 2"
  unfolding sample_audit_run(2)
  by (simp add: sample_audit_def sample_logger_def in_flight_def audit_written_def audit_dropped_def)

end
