(* ===== verification/Btree_Map.thy ===== *)
theory Btree_Map
  imports Qaas_Prelude
begin

text \<open>
  The operations of \<^verbatim>\<open>std::collections::BTreeMap\<close> that the sources use, on association lists with
  increasing keys.
\<close>

type_synonym ('k, 'v) btree_map = "('k \<times> 'v) list"

datatype 'k range_bound = Included 'k | Excluded 'k | Unbounded

definition bt_wf :: "('k::linorder, 'v) btree_map \<Rightarrow> bool" where
  "bt_wf m \<longleftrightarrow> sorted_wrt (<) (map fst m)"

fun bt_insert :: "'k::linorder \<Rightarrow> 'v \<Rightarrow> ('k, 'v) btree_map \<Rightarrow> ('k, 'v) btree_map" where
  "bt_insert k v [] = [(k, v)]"
| "bt_insert k v ((k', v') # m) =
     (if k < k' then (k, v) # (k', v') # m else if k = k' then (k, v) # m else (k', v') # bt_insert k v m)"

text \<open>\<^verbatim>\<open>split_off\<close>: what stays and what is returned.\<close>

definition bt_split_off :: "'k::linorder \<Rightarrow> ('k, 'v) btree_map \<Rightarrow> ('k, 'v) btree_map \<times> ('k, 'v) btree_map" where
  "bt_split_off k m = (filter (\<lambda>kv. fst kv < k) m, filter (\<lambda>kv. k \<le> fst kv) m)"

fun above :: "'k::linorder range_bound \<Rightarrow> 'k \<Rightarrow> bool" where
  "above (Included a) k \<longleftrightarrow> a \<le> k"
| "above (Excluded a) k \<longleftrightarrow> a < k"
| "above Unbounded k \<longleftrightarrow> True"

fun below :: "'k::linorder range_bound \<Rightarrow> 'k \<Rightarrow> bool" where
  "below (Included b) k \<longleftrightarrow> k \<le> b"
| "below (Excluded b) k \<longleftrightarrow> k < b"
| "below Unbounded k \<longleftrightarrow> True"

text \<open>\<^verbatim>\<open>range\<close> panics on a range whose start is after its end, and on an empty one excluded at both ends.\<close>

fun range_panics :: "'k::linorder range_bound \<Rightarrow> 'k range_bound \<Rightarrow> bool" where
  "range_panics (Excluded a) (Excluded b) \<longleftrightarrow> b \<le> a"
| "range_panics (Excluded a) (Included b) \<longleftrightarrow> b < a"
| "range_panics (Included a) (Excluded b) \<longleftrightarrow> b < a"
| "range_panics (Included a) (Included b) \<longleftrightarrow> b < a"
| "range_panics Unbounded _ \<longleftrightarrow> False"
| "range_panics _ Unbounded \<longleftrightarrow> False"

definition bt_range :: "'k::linorder range_bound \<Rightarrow> 'k range_bound \<Rightarrow> ('k, 'v) btree_map \<Rightarrow> ('k \<times> 'v) list option" where
  "bt_range lo hi m =
     (if range_panics lo hi then None else Some (filter (\<lambda>kv. above lo (fst kv) \<and> below hi (fst kv)) m))"

lemma map_of_bt_insert [simp]: "bt_wf m \<Longrightarrow> map_of (bt_insert k v m) = (map_of m)(k \<mapsto> v)"
  by (induction k v m rule: bt_insert.induct) (auto simp: bt_wf_def)

lemma keys_bt_insert: "fst ` set (bt_insert k v m) = insert k (fst ` set m)"
  by (induction k v m rule: bt_insert.induct) auto

lemma bt_wf_insert [simp]: "bt_wf m \<Longrightarrow> bt_wf (bt_insert k v m)"
proof (induction k v m rule: bt_insert.induct)
  case (2 k v k' v' m)
  have "(\<forall>x\<in>set (bt_insert k v m). k' < fst x) \<longleftrightarrow> (\<forall>x\<in>fst ` set (bt_insert k v m). k' < x)" by simp
  then have "(\<forall>x\<in>set (bt_insert k v m). k' < fst x) \<longleftrightarrow> k' < k \<and> (\<forall>x\<in>set m. k' < fst x)"
    by (simp add: keys_bt_insert)
  then show ?case using 2 by (auto simp: bt_wf_def)
qed (simp add: bt_wf_def)

lemma bt_insert_last: "\<forall>k'\<in>fst ` set m. k' < k \<Longrightarrow> bt_insert k v m = m @ [(k, v)]"
  by (induction k v m rule: bt_insert.induct) auto

end
