(* ===== verification/Raft_Log.thy ===== *)
theory Raft_Log
  imports Btree_Map
begin

text \<open>
  \<^verbatim>\<open>crates/qaas-core/src/raft/log_store.rs\<close>: the in-memory log handed to \<^verbatim>\<open>openraft\<close>. Leader identifiers,
  votes and memberships are types of that package and appear as type variables; the order of log
  identifiers is its documented one, by leader and then by index. The locale states the contract of
  the trait \<^verbatim>\<open>RaftLogStorage\<close> against a log that is a gap-free sequence; the store implements it.
\<close>

section \<open>The store\<close>

record 'l log_id =
  lid_leader :: 'l
  lid_index :: u64

definition log_id_less :: "'l::linorder log_id \<Rightarrow> 'l log_id \<Rightarrow> bool" where
  "log_id_less a b \<longleftrightarrow> lid_leader a < lid_leader b \<or> lid_leader a = lid_leader b \<and> lid_index a < lid_index b"

datatype request = RequestSet string string

datatype 'm entry_payload = Blank | Normal request | Membership 'm

record ('l, 'm) raft_entry =
  re_log_id :: "'l log_id"
  re_payload :: "'m entry_payload"

record ('l, 'm, 'v) log_store =
  ls_log :: "(u64, ('l, 'm) raft_entry) btree_map"
  ls_vote :: "'v option"
  ls_last_purged :: "'l log_id option"

definition log_store_default :: "('l, 'm, 'v) log_store" where
  "log_store_default = \<lparr> ls_log = [], ls_vote = None, ls_last_purged = None \<rparr>"

abbreviation entry_index :: "('l, 'm) raft_entry \<Rightarrow> u64" where
  "entry_index e \<equiv> lid_index (re_log_id e)"

text \<open>\<^const>\<open>None\<close>: the range panics.\<close>

definition try_get_log_entries ::
  "u64 range_bound \<Rightarrow> u64 range_bound \<Rightarrow> ('l, 'm, 'v) log_store \<Rightarrow> ('l, 'm) raft_entry list option" where
  "try_get_log_entries lo hi s = map_option (map snd) (bt_range lo hi (ls_log s))"

record 'l log_state =
  lst_last_purged :: "'l log_id option"
  lst_last_log_id :: "'l log_id option"

definition get_log_state :: "('l, 'm, 'v) log_store \<Rightarrow> 'l log_state" where
  "get_log_state s =
     \<lparr> lst_last_purged = ls_last_purged s,
       lst_last_log_id = (if ls_log s = [] then ls_last_purged s else Some (re_log_id (snd (last (ls_log s))))) \<rparr>"

definition save_vote :: "'v \<Rightarrow> ('l, 'm, 'v) log_store \<Rightarrow> ('l, 'm, 'v) log_store" where
  "save_vote vote s = s \<lparr> ls_vote := Some vote \<rparr>"

definition read_vote :: "('l, 'm, 'v) log_store \<Rightarrow> 'v option" where
  "read_vote s = ls_vote s"

definition ls_append :: "('l, 'm) raft_entry list \<Rightarrow> ('l, 'm, 'v) log_store \<Rightarrow> ('l, 'm, 'v) log_store" where
  "ls_append entries s = s \<lparr> ls_log := fold (\<lambda>e. bt_insert (entry_index e) e) entries (ls_log s) \<rparr>"

definition ls_truncate :: "'l log_id \<Rightarrow> ('l, 'm, 'v) log_store \<Rightarrow> ('l, 'm, 'v) log_store" where
  "ls_truncate i s = s \<lparr> ls_log := fst (bt_split_off (lid_index i) (ls_log s)) \<rparr>"

definition ls_purge :: "'l::linorder log_id \<Rightarrow> ('l, 'm, 'v) log_store \<Rightarrow> ('l, 'm, 'v) log_store" where
  "ls_purge i s =
     (let last_purged =
            (case ls_last_purged s of
               None \<Rightarrow> Some i
             | Some purged \<Rightarrow> if log_id_less purged i then Some i else Some purged)
      in s \<lparr> ls_last_purged := last_purged, ls_log := snd (bt_split_off (lid_index i + 1) (ls_log s)) \<rparr>)"

section \<open>The contract\<close>

text \<open>A log without gaps: the entries after the purged ones, in order.\<close>

record ('l, 'm) raft_log =
  rl_purged :: "'l log_id option"
  rl_entries :: "('l, 'm) raft_entry list"

definition first_index :: "('l, 'm) raft_log \<Rightarrow> nat" where
  "first_index l = (case rl_purged l of None \<Rightarrow> 0 | Some i \<Rightarrow> Suc (unat (lid_index i)))"

definition next_index :: "('l, 'm) raft_log \<Rightarrow> nat" where
  "next_index l = first_index l + length (rl_entries l)"

definition gap_free :: "('l, 'm) raft_log \<Rightarrow> bool" where
  "gap_free l \<longleftrightarrow> map (\<lambda>e. unat (entry_index e)) (rl_entries l) = [first_index l ..< next_index l] \<and> next_index l < 2 ^ 64"

datatype ('l, 'm) log_call = Append "('l, 'm) raft_entry list" | Truncate "'l log_id" | Purge "'l log_id"

text \<open>
  What \<^verbatim>\<open>openraft\<close> promises as the caller: appended entries continue the log, purged entries are not
  truncated, and a purge goes forward in log identifiers exactly when it does in indices.
\<close>

fun call_ok :: "('l::linorder, 'm) log_call \<Rightarrow> ('l, 'm) raft_log \<Rightarrow> bool" where
  "call_ok (Append es) l \<longleftrightarrow>
     map (\<lambda>e. unat (entry_index e)) es = [next_index l ..< next_index l + length es] \<and> next_index l + length es < 2 ^ 64"
| "call_ok (Truncate i) l \<longleftrightarrow> first_index l \<le> unat (lid_index i)"
| "call_ok (Purge i) l \<longleftrightarrow>
     Suc (unat (lid_index i)) < 2 ^ 64 \<and>
     (\<forall>p. rl_purged l = Some p \<longrightarrow> (log_id_less p i \<longleftrightarrow> lid_index p < lid_index i))"

fun spec_call :: "('l, 'm) log_call \<Rightarrow> ('l, 'm) raft_log \<Rightarrow> ('l, 'm) raft_log" where
  "spec_call (Append es) l = l \<lparr> rl_entries := rl_entries l @ es \<rparr>"
| "spec_call (Truncate i) l = l \<lparr> rl_entries := take (unat (lid_index i) - first_index l) (rl_entries l) \<rparr>"
| "spec_call (Purge i) l =
     (if unat (lid_index i) < first_index l then l
      else \<lparr> rl_purged = Some i, rl_entries = drop (Suc (unat (lid_index i)) - first_index l) (rl_entries l) \<rparr>)"

fun calls_ok :: "('l::linorder, 'm) log_call list \<Rightarrow> ('l, 'm) raft_log \<Rightarrow> bool" where
  "calls_ok [] l \<longleftrightarrow> True"
| "calls_ok (c # cs) l \<longleftrightarrow> call_ok c l \<and> calls_ok cs (spec_call c l)"

definition empty_log :: "('l, 'm) raft_log" where
  "empty_log = \<lparr> rl_purged = None, rl_entries = [] \<rparr>"

lemma gap_free_empty [simp]: "gap_free empty_log"
  by (simp add: gap_free_def empty_log_def first_index_def next_index_def)

lemma first_index_entries [simp]: "first_index (l \<lparr> rl_entries := es \<rparr>) = first_index l"
  by (simp add: first_index_def)

lemma first_purged: "first_index \<lparr> rl_purged = Some i, rl_entries = es \<rparr> = Suc (unat (lid_index i))"
  by (simp add: first_index_def)

lemma gap_free_call: "gap_free l \<Longrightarrow> call_ok c l \<Longrightarrow> gap_free (spec_call c l)"
proof (cases c)
  case (Append es)
  assume "gap_free l" "call_ok c l"
  with Append show ?thesis
    using upt_add_eq_append [of "first_index l" "next_index l" "length es"]
    by (simp add: gap_free_def next_index_def add.assoc)
next
  case (Truncate i)
  assume "gap_free l" "call_ok c l"
  with Truncate show ?thesis
    by (auto simp: gap_free_def next_index_def take_map [symmetric] min_def)
next
  case (Purge i)
  assume g: "gap_free l" "call_ok c l"
  show ?thesis
  proof (cases "unat (lid_index i) < first_index l")
    case False
    then have "drop (Suc (unat (lid_index i)) - first_index l) [first_index l ..< next_index l] = [Suc (unat (lid_index i)) ..< next_index l]"
      by simp
    moreover have "[Suc (unat (lid_index i)) ..< next_index l] =
        [Suc (unat (lid_index i)) ..< Suc (unat (lid_index i)) + (length (rl_entries l) - (Suc (unat (lid_index i)) - first_index l))]"
    proof (cases "Suc (unat (lid_index i)) \<le> next_index l")
      case True
      then have "Suc (unat (lid_index i)) + (length (rl_entries l) - (Suc (unat (lid_index i)) - first_index l)) = next_index l"
        using False by (simp only: next_index_def)
      then show ?thesis by (simp only:)
    qed (simp add: next_index_def)
    ultimately show ?thesis
      using g Purge False
      by (auto simp: gap_free_def next_index_def first_purged drop_map [symmetric] simp del: upt_Suc)
  qed (use g Purge in simp)
qed

locale raft_log_storage =
  fixes purged :: "'s \<Rightarrow> 'l::linorder log_id option"
    and entries :: "'s \<Rightarrow> ('l, 'm) raft_entry list"
    and call :: "('l, 'm) log_call \<Rightarrow> 's \<Rightarrow> 's"
    and init :: 's
    and invar :: "'s \<Rightarrow> bool"
  assumes init_purged: "purged init = None"
    and init_entries: "entries init = []"
    and init_invar: "invar init"
    and call_invar: "invar s \<Longrightarrow> invar (call c s)"
    and call_law: "invar s \<Longrightarrow> gap_free \<lparr> rl_purged = purged s, rl_entries = entries s \<rparr> \<Longrightarrow>
      call_ok c \<lparr> rl_purged = purged s, rl_entries = entries s \<rparr> \<Longrightarrow>
      \<lparr> rl_purged = purged (call c s), rl_entries = entries (call c s) \<rparr> =
      spec_call c \<lparr> rl_purged = purged s, rl_entries = entries s \<rparr>"
begin

lemma run_from:
  assumes "invar s" and "gap_free \<lparr> rl_purged = purged s, rl_entries = entries s \<rparr>"
    and "calls_ok cs \<lparr> rl_purged = purged s, rl_entries = entries s \<rparr>"
  shows "\<lparr> rl_purged = purged (fold call cs s), rl_entries = entries (fold call cs s) \<rparr> =
      fold spec_call cs \<lparr> rl_purged = purged s, rl_entries = entries s \<rparr> \<and>
    gap_free (fold spec_call cs \<lparr> rl_purged = purged s, rl_entries = entries s \<rparr>)"
  using assms
proof (induction cs arbitrary: s)
  case (Cons c cs)
  then have ok: "call_ok c \<lparr> rl_purged = purged s, rl_entries = entries s \<rparr>" by simp
  note step = call_law [OF Cons.prems(1,2) ok]
  from Cons.IH [OF call_invar [OF Cons.prems(1), of c]] Cons.prems gap_free_call [OF Cons.prems(2) ok] show ?case
    by (simp add: step)
qed simp

lemma run:
  assumes "calls_ok cs empty_log"
  shows "purged (fold call cs init) = rl_purged (fold spec_call cs empty_log) \<and>
    entries (fold call cs init) = rl_entries (fold spec_call cs empty_log) \<and>
    invar (fold call cs init) \<and> gap_free (fold spec_call cs empty_log)"
proof -
  have start: "\<lparr> rl_purged = purged init, rl_entries = entries init \<rparr> = (empty_log :: ('l, 'm) raft_log)"
    by (simp add: init_purged init_entries empty_log_def)
  have "invar (fold call cs s)" if "invar s" for s
    using that by (induction cs arbitrary: s) (simp_all add: call_invar)
  with run_from [OF init_invar, of cs, unfolded start] assms init_invar show ?thesis
    by (metis gap_free_empty raft_log.select_convs)
qed

end

section \<open>The store implements the contract\<close>

fun ls_call :: "('l::linorder, 'm) log_call \<Rightarrow> ('l, 'm, 'v) log_store \<Rightarrow> ('l, 'm, 'v) log_store" where
  "ls_call (Append es) s = ls_append es s"
| "ls_call (Truncate i) s = ls_truncate i s"
| "ls_call (Purge i) s = ls_purge i s"

definition keyed :: "('l, 'm, 'v) log_store \<Rightarrow> bool" where
  "keyed s \<longleftrightarrow> ls_log s = map (\<lambda>e. (entry_index e, e)) (map snd (ls_log s)) \<and> bt_wf (ls_log s)"

lemma keyed_iff: "keyed s \<longleftrightarrow> (\<forall>(k, e)\<in>set (ls_log s). k = entry_index e) \<and> bt_wf (ls_log s)"
proof -
  have "m = map (\<lambda>e. (entry_index e, e)) (map snd m) \<longleftrightarrow> (\<forall>(k, e)\<in>set m. k = entry_index e)"
    for m :: "(u64 \<times> ('a, 'b) raft_entry) list"
    by (induction m) auto
  then show ?thesis by (simp add: keyed_def)
qed

lemma set_bt_insert: "set (bt_insert k v m) \<subseteq> insert (k, v) (set m)"
  by (induction k v m rule: bt_insert.induct) auto

lemma fold_insert_keyed:
  assumes "\<forall>(k, e)\<in>set m. k = entry_index e" and "bt_wf m"
  shows "(\<forall>(k, e)\<in>set (fold (\<lambda>e. bt_insert (entry_index e) e) es m). k = entry_index e) \<and>
    bt_wf (fold (\<lambda>e. bt_insert (entry_index e) e) es m)"
  using assms
proof (induction es arbitrary: m)
  case (Cons e es)
  have "\<forall>(k, e')\<in>set (bt_insert (entry_index e) e m). k = entry_index e'"
    using Cons.prems(1) set_bt_insert [of "entry_index e" e m] by auto
  from Cons.IH [OF this] Cons.prems(2) show ?case by simp
qed simp

lemma bt_wf_filter: "bt_wf m \<Longrightarrow> bt_wf (filter p m)"
  by (induction m) (auto simp: bt_wf_def)

lemma keyed_call: "keyed s \<Longrightarrow> keyed (ls_call c s)"
  by (cases c) (auto simp: keyed_iff ls_append_def ls_truncate_def ls_purge_def bt_split_off_def Let_def
      bt_wf_filter fold_insert_keyed dest: fold_insert_keyed [THEN conjunct1])

text \<open>Appending entries with larger and larger indices.\<close>

lemma Cons_eq_upt: "x # xs = [a ..< b] \<longleftrightarrow> a < b \<and> x = a \<and> xs = [Suc a ..< b]"
  by (cases "a < b") (auto simp: upt_conv_Cons)

lemma fold_insert_append:
  assumes "\<forall>k\<in>fst ` set m. k < n" and "map (\<lambda>e. unat (entry_index e)) es = [unat n ..< b]"
  shows "fold (\<lambda>e. bt_insert (entry_index e) e) es m = m @ map (\<lambda>e. (entry_index e, e)) es"
  using assms
proof (induction es arbitrary: m n)
  case (Cons e es)
  have e: "entry_index e = n" and lt: "unat n < b" and rest: "map (\<lambda>e. unat (entry_index e)) es = [Suc (unat n) ..< b]"
    using Cons.prems(2) by (auto simp: Cons_eq_upt word_unat_eq_iff)
  show ?case
  proof (cases es)
    case Nil
    then show ?thesis using Cons.prems(1) by (simp add: e bt_insert_last)
  next
    case tail: (Cons e' es')
    have "Suc (unat n) = unat (entry_index e')" using rest tail by (auto simp: Cons_eq_upt)
    moreover have "unat (entry_index e') < 2 ^ 64" using unsigned_less [of "entry_index e'", where 'a = nat] by simp
    ultimately have up: "unat (n + 1) = Suc (unat n)" "n < n + 1" by (simp_all add: word_less_nat_alt unat_word_ariths)
    have "\<forall>k\<in>fst ` set (m @ [(n, e)]). k < n + 1" using Cons.prems(1) up(2) by auto
    from Cons.IH [OF this] rest up(1) Cons.prems(1) show ?thesis by (simp add: e bt_insert_last)
  qed
qed simp

lemma filter_upt_take:
  assumes "map f xs = [a ..< b]"
  shows "filter (\<lambda>x. f x < n) xs = take (n - a) xs" "filter (\<lambda>x. n \<le> f x) xs = drop (n - a) xs"
  using assms
  by (induction xs arbitrary: a) (auto simp: Cons_eq_upt filter_empty_conv take_Cons' drop_Cons' Suc_diff_le
      not_less)


lemma log_of_keyed: "keyed s \<Longrightarrow> ls_log s = map (\<lambda>e. (entry_index e, e)) (map snd (ls_log s))"
  by (simp add: keyed_def)

lemma filter_keyed:
  "keyed s \<Longrightarrow> map snd (filter (\<lambda>kv. P (fst kv)) (ls_log s)) = filter (\<lambda>e. P (entry_index e)) (map snd (ls_log s))"
  by (subst log_of_keyed, assumption) (simp add: filter_map comp_def)

lemma append_law:
  assumes "keyed s" and "gap_free \<lparr> rl_purged = ls_last_purged s, rl_entries = map snd (ls_log s) \<rparr>"
    and "call_ok (Append es) \<lparr> rl_purged = ls_last_purged s, rl_entries = map snd (ls_log s) \<rparr>"
  shows "map snd (ls_log (ls_append es s)) = map snd (ls_log s) @ es"
proof -
  let ?l = "\<lparr> rl_purged = ls_last_purged s, rl_entries = map snd (ls_log s) \<rparr>"
  let ?n = "of_nat (next_index ?l) :: u64"
  have up: "unat ?n = next_index ?l" using assms(2) by (simp add: gap_free_def unat_of_nat)
  have "unat (entry_index e) < next_index ?l" if "e \<in> set (map snd (ls_log s))" for e
  proof -
    have "unat (entry_index e) \<in> set (map (\<lambda>e. unat (entry_index e)) (map snd (ls_log s)))" using that by auto
    also have "\<dots> = {first_index ?l ..< next_index ?l}"
      using assms(2) by (simp only: gap_free_def raft_log.select_convs set_upt)
    finally show ?thesis by simp
  qed
  then have "\<forall>k\<in>fst ` set (ls_log s). k < ?n"
    by (subst log_of_keyed [OF assms(1)]) (auto simp: word_less_nat_alt up)
  from fold_insert_append [OF this, of es] assms(3) show ?thesis by (simp add: up ls_append_def comp_def)
qed

interpretation in_memory_log: raft_log_storage ls_last_purged "\<lambda>s. map snd (ls_log s)" ls_call log_store_default keyed
proof
  show "ls_last_purged log_store_default = None" "map snd (ls_log log_store_default) = []" "keyed log_store_default"
    by (simp_all add: log_store_default_def keyed_def bt_wf_def)
next
  fix s :: "('a, 'b, 'c) log_store" and c
  assume "keyed s" then show "keyed (ls_call c s)" by (rule keyed_call)
next
  fix s :: "('a, 'b, 'c) log_store" and c
  let ?l = "\<lparr> rl_purged = ls_last_purged s, rl_entries = map snd (ls_log s) \<rparr>"
  assume s: "keyed s" "gap_free ?l" "call_ok c ?l"
  have entries: "map (\<lambda>e. unat (entry_index e)) (map snd (ls_log s)) = [first_index ?l ..< next_index ?l]"
    using s(2) by (simp only: gap_free_def raft_log.select_convs)
  show "\<lparr> rl_purged = ls_last_purged (ls_call c s), rl_entries = map snd (ls_log (ls_call c s)) \<rparr> = spec_call c ?l"
  proof (cases c)
    case (Append es)
    then show ?thesis using append_law [OF s(1,2)] s(3) by (simp add: ls_append_def)
  next
    case (Truncate i)
    have "map snd (ls_log (ls_truncate i s)) = take (unat (lid_index i) - first_index ?l) (map snd (ls_log s))"
      using filter_upt_take(1) [OF entries, of "unat (lid_index i)"] filter_keyed [OF s(1), of "\<lambda>k. k < lid_index i"]
      by (simp add: ls_truncate_def bt_split_off_def word_less_nat_alt)
    then show ?thesis by (simp add: Truncate ls_truncate_def)
  next
    case (Purge i)
    have up: "unat (lid_index i + 1) = Suc (unat (lid_index i))"
      using s(3) Purge by (simp add: unat_word_ariths)
    have kept: "map snd (ls_log (ls_purge i s)) = drop (Suc (unat (lid_index i)) - first_index ?l) (map snd (ls_log s))"
      using filter_upt_take(2) [OF entries, of "Suc (unat (lid_index i))"] filter_keyed [OF s(1), of "\<lambda>k. lid_index i + 1 \<le> k"]
      by (simp add: ls_purge_def Let_def bt_split_off_def word_le_nat_alt up)
    have "ls_last_purged (ls_purge i s) = (if unat (lid_index i) < first_index ?l then ls_last_purged s else Some i)"
      using s(3) Purge by (auto simp: ls_purge_def Let_def first_index_def word_less_nat_alt split: option.splits)
    with kept show ?thesis by (simp add: Purge)
  qed
qed

text \<open>
  C30: the store is the log \<^verbatim>\<open>openraft\<close> asks for. After any sequence of appends, truncations and purges that
  keep to the contract, from the empty store: a read of an index range returns exactly the entries of
  that range which were appended and neither truncated nor purged since, in order; the reported last
  log identifier is that of the last such entry, or of the last purge when there is none; and the
  entries have consecutive indices from just after the last purge.
\<close>

theorem log_store_refines:
  assumes "calls_ok cs empty_log"
    and "s = fold ls_call cs log_store_default" and "l = fold spec_call cs empty_log" and "\<not> range_panics lo hi"
  shows "try_get_log_entries lo hi s =
      Some (filter (\<lambda>e. above lo (entry_index e) \<and> below hi (entry_index e)) (rl_entries l)) \<and>
    get_log_state s =
      \<lparr> lst_last_purged = rl_purged l,
        lst_last_log_id = (if rl_entries l = [] then rl_purged l else Some (re_log_id (last (rl_entries l)))) \<rparr> \<and>
    map (\<lambda>e. unat (entry_index e)) (rl_entries l) = [first_index l ..< next_index l]"
proof -
  from in_memory_log.run [OF assms(1), where 'c = 'c] have run: "ls_last_purged s = rl_purged l" "map snd (ls_log s) = rl_entries l"
    "keyed s" "gap_free l"
    by (simp_all add: assms(2,3))
  have "try_get_log_entries lo hi s =
      Some (filter (\<lambda>e. above lo (entry_index e) \<and> below hi (entry_index e)) (rl_entries l))"
    using filter_keyed [OF run(3), of "\<lambda>k. above lo k \<and> below hi k"] assms(4) run(2)
    by (simp add: try_get_log_entries_def bt_range_def)
  moreover have "ls_log s = [] \<longleftrightarrow> rl_entries l = []" "ls_log s \<noteq> [] \<Longrightarrow> snd (last (ls_log s)) = last (rl_entries l)"
    using run(2) by (auto simp: last_map [symmetric])
  ultimately show ?thesis
    using run by (auto simp: get_log_state_def gap_free_def)
qed

theorem log_store_refines_witness:
  "let e = (\<lambda>n. \<lparr> re_log_id = \<lparr> lid_leader = (1 :: nat), lid_index = n \<rparr>, re_payload = (Blank :: unit entry_payload) \<rparr>);
       s = (fold ls_call [Append [e 0, e 1, e 2], Truncate (re_log_id (e 2)), Purge (re_log_id (e 0))]
              log_store_default :: (nat, unit, unit) log_store)
   in try_get_log_entries (Included 0) (Excluded 9) s = Some [e 1] \<and> lst_last_log_id (get_log_state s) = Some (re_log_id (e 1))"
proof -
  define e where "e = (\<lambda>n. \<lparr> re_log_id = \<lparr> lid_leader = (1 :: nat), lid_index = n \<rparr>, re_payload = (Blank :: unit entry_payload) \<rparr>)"
  let ?cs = "[Append [e 0, e 1, e 2], Truncate (re_log_id (e 2)), Purge (re_log_id (e 0))]"
  have spec: "fold spec_call ?cs empty_log = \<lparr> rl_purged = Some (re_log_id (e 0)), rl_entries = [e 1] \<rparr>"
    by (simp add: e_def empty_log_def first_index_def take_Cons' drop_Cons')
  have ok: "calls_ok ?cs empty_log"
    by (simp add: e_def empty_log_def first_index_def next_index_def upt_rec)
  from log_store_refines [where 'c = unit, OF ok refl refl, of "Included 0" "Excluded 9", unfolded spec] show ?thesis
    unfolding e_def by (simp add: Let_def)
qed

end
