(* ===== verification/Raft_State.thy ===== *)
theory Raft_State
  imports Raft_Log
begin

text \<open>
  \<^verbatim>\<open>crates/qaas-core/src/raft/state_machine.rs\<close> and \<^verbatim>\<open>network.rs\<close>: the key-value state machine that the
  consensus package drives, its snapshots, and the in-process dispatch of its messages. The JSON codec
  of the key-value map, the printed form of a log identifier, and the running nodes are parameters.
  The map is a \<^verbatim>\<open>BTreeMap\<close> that is only looked up, updated and serialized, so it is a map here.
\<close>

section \<open>The state machine\<close>

record response =
  resp_value :: "string option"

type_synonym ('l, 'm) stored_membership = "'l log_id option \<times> 'm"

record ('l, 'm) state_machine_data =
  last_applied_log :: "'l log_id option"
  last_membership :: "('l, 'm) stored_membership"
  kv :: "string \<rightharpoonup> string"

record ('l, 'm) snapshot_meta =
  meta_last_log_id :: "'l log_id option"
  meta_membership :: "('l, 'm) stored_membership"
  meta_snapshot_id :: string

record ('l, 'm) stored_snapshot =
  snap_meta :: "('l, 'm) snapshot_meta"
  snap_data :: "u8 list"

record ('l, 'm) state_machine_store =
  sm_data :: "('l, 'm) state_machine_data"
  sm_current_snapshot :: "('l, 'm) stored_snapshot option"
  sm_snapshot_idx :: u64

datatype storage_error = WriteStateMachine | ReadSnapshot

definition state_machine_default :: "'m \<Rightarrow> ('l, 'm) state_machine_store" where
  "state_machine_default no_members =
     \<lparr> sm_data = \<lparr> last_applied_log = None, last_membership = (None, no_members), kv = Map.empty \<rparr>,
       sm_current_snapshot = None, sm_snapshot_idx = 0 \<rparr>"

definition sm_get :: "string \<Rightarrow> ('l, 'm) state_machine_store \<Rightarrow> string option" where
  "sm_get key st = kv (sm_data st) key"

text \<open>The decimal form of an unsigned integer.\<close>

fun show_nat :: "nat \<Rightarrow> string" where
  "show_nat n = (if n < 10 then [char_of (48 + n)] else show_nat (n div 10) @ [char_of (48 + n mod 10)])"

declare show_nat.simps [simp del]

definition build_snapshot ::
  "((string \<rightharpoonup> string) \<Rightarrow> u8 list option) \<Rightarrow> ('l log_id \<Rightarrow> string) \<Rightarrow> ('l, 'm) state_machine_store
   \<Rightarrow> (storage_error + ('l, 'm) stored_snapshot) \<times> ('l, 'm) state_machine_store" where
  "build_snapshot to_vec show_id st =
     (let d = sm_data st in
      case to_vec (kv d) of
        None \<Rightarrow> (Inl WriteStateMachine, st)
      | Some data \<Rightarrow>
          (let snapshot_id = (case last_applied_log d of None \<Rightarrow> ''none'' | Some i \<Rightarrow> show_id i) @ ''-'' @
                 show_nat (unat (sm_snapshot_idx st));
               snap = \<lparr> snap_meta = \<lparr> meta_last_log_id = last_applied_log d, meta_membership = last_membership d,
                                      meta_snapshot_id = snapshot_id \<rparr>, snap_data = data \<rparr>
           in (Inr snap, st \<lparr> sm_snapshot_idx := sm_snapshot_idx st + 1, sm_current_snapshot := Some snap \<rparr>)))"

definition applied_state ::
  "('l, 'm) state_machine_store \<Rightarrow> 'l log_id option \<times> ('l, 'm) stored_membership" where
  "applied_state st = (last_applied_log (sm_data st), last_membership (sm_data st))"

fun apply_payload ::
  "'l log_id \<Rightarrow> 'm entry_payload \<Rightarrow> ('l, 'm) state_machine_data \<Rightarrow> response \<times> ('l, 'm) state_machine_data" where
  "apply_payload i Blank d = (\<lparr> resp_value = None \<rparr>, d)"
| "apply_payload i (Normal (RequestSet key value)) d =
     (\<lparr> resp_value = Some value \<rparr>, d \<lparr> kv := (kv d)(key \<mapsto> value) \<rparr>)"
| "apply_payload i (Membership m) d = (\<lparr> resp_value = None \<rparr>, d \<lparr> last_membership := (Some i, m) \<rparr>)"

fun apply_entries ::
  "('l, 'm) raft_entry list \<Rightarrow> ('l, 'm) state_machine_data \<Rightarrow> response list \<times> ('l, 'm) state_machine_data" where
  "apply_entries [] d = ([], d)"
| "apply_entries (e # es) d =
     (let (r, d) = apply_payload (re_log_id e) (re_payload e) (d \<lparr> last_applied_log := Some (re_log_id e) \<rparr>);
          (rs, d) = apply_entries es d
      in (r # rs, d))"

definition sm_apply ::
  "('l, 'm) raft_entry list \<Rightarrow> ('l, 'm) state_machine_store \<Rightarrow> response list \<times> ('l, 'm) state_machine_store" where
  "sm_apply es st = (case apply_entries es (sm_data st) of (rs, d) \<Rightarrow> (rs, st \<lparr> sm_data := d \<rparr>))"

definition install_snapshot ::
  "(u8 list \<Rightarrow> (string \<rightharpoonup> string) option) \<Rightarrow> ('l, 'm) snapshot_meta \<Rightarrow> u8 list \<Rightarrow> ('l, 'm) state_machine_store
   \<Rightarrow> (storage_error + unit) \<times> ('l, 'm) state_machine_store" where
  "install_snapshot from_slice meta bytes st =
     (case from_slice bytes of
        None \<Rightarrow> (Inl ReadSnapshot, st)
      | Some m \<Rightarrow>
          (Inr (),
           st \<lparr> sm_data := \<lparr> last_applied_log = meta_last_log_id meta, last_membership = meta_membership meta, kv = m \<rparr>,
                sm_current_snapshot := Some \<lparr> snap_meta = meta, snap_data = bytes \<rparr> \<rparr>))"

definition get_current_snapshot :: "('l, 'm) state_machine_store \<Rightarrow> ('l, 'm) stored_snapshot option" where
  "get_current_snapshot st = sm_current_snapshot st"

section \<open>Replicas\<close>

text \<open>The value a log leaves under a key: that of its last write.\<close>

fun written :: "string \<Rightarrow> ('l, 'm) raft_entry list \<Rightarrow> string option" where
  "written key [] = None"
| "written key (e # es) =
     (case written key es of
        Some v \<Rightarrow> Some v
      | None \<Rightarrow> (case re_payload e of Normal (RequestSet k v) \<Rightarrow> if k = key then Some v else None | _ \<Rightarrow> None))"

lemma apply_entries_append:
  "apply_entries (xs @ ys) d =
     (let (rs, d1) = apply_entries xs d; (rs', d2) = apply_entries ys d1 in (rs @ rs', d2))"
  by (induction xs arbitrary: d) (simp_all add: Let_def split: prod.splits)

lemma length_responses: "length (fst (apply_entries es d)) = length es"
  by (induction es arbitrary: d) (simp_all add: Let_def case_prod_beta)

lemma kv_apply: "kv (snd (apply_entries es d)) key = (case written key es of Some v \<Rightarrow> Some v | None \<Rightarrow> kv d key)"
proof (induction es arbitrary: d)
  case (Cons e es)
  have head: "kv (snd (apply_payload (re_log_id e) (re_payload e) (d \<lparr> last_applied_log := Some (re_log_id e) \<rparr>))) key =
      (case re_payload e of Normal (RequestSet k v) \<Rightarrow> if k = key then Some v else kv d key | _ \<Rightarrow> kv d key)"
    by (simp split: entry_payload.splits request.splits)
  show ?case
    by (simp add: Let_def case_prod_beta Cons.IH head split: option.splits entry_payload.splits request.splits)
qed simp

text \<open>
  C29: a replica that catches up from a snapshot agrees with one that saw the whole log. A node applies
  the entries \<open>es1\<close> and builds a snapshot; another node, in any state, installs it and applies the
  entries \<open>es2\<close> in one batch. Its data (applied position, membership, keys and values) and its answers
  to \<open>es2\<close> are those of a node that applied the whole log from the start, and every key holds the value
  of its last write in the log. The two nodes report the same current snapshot. Bytes that do not parse
  leave the node as it was.
\<close>

theorem snapshot_replica_agrees:
  fixes es1 es2 :: "('l, 'm) raft_entry list"
  assumes "\<forall>m b. to_vec m = Some b \<longrightarrow> from_slice b = Some m"
    and "build_snapshot to_vec show_id (snd (sm_apply es1 (state_machine_default members))) = (Inr snap, leader)"
    and "install_snapshot from_slice (snap_meta snap) (snap_data snap) node = (Inr (), node1)"
    and "sm_apply es2 node1 = (answers, node2)"
    and "sm_apply (es1 @ es2) (state_machine_default members) = (all_answers, full)"
  shows "sm_data node2 = sm_data full \<and> answers = drop (length es1) all_answers \<and>
    sm_get key node2 = written key (es1 @ es2) \<and>
    get_current_snapshot node2 = Some snap \<and> get_current_snapshot leader = Some snap \<and>
    (from_slice junk = None \<longrightarrow> install_snapshot from_slice meta junk node = (Inl ReadSnapshot, node))"
proof -
  define d0 where "d0 = sm_data (state_machine_default members :: ('l, 'm) state_machine_store)"
  obtain rs1 d1 where d1: "apply_entries es1 d0 = (rs1, d1)" by (cases "apply_entries es1 d0")
  obtain rs2 d2 where d2: "apply_entries es2 d1 = (rs2, d2)" by (cases "apply_entries es2 d1")
  obtain b where b: "to_vec (kv d1) = Some b" and snap: "snap_data snap = b" "meta_last_log_id (snap_meta snap) = last_applied_log d1"
    "meta_membership (snap_meta snap) = last_membership d1" "sm_current_snapshot leader = Some snap"
    using assms(2) d1 by (auto simp: build_snapshot_def sm_apply_def d0_def Let_def split: option.splits)
  have node1: "sm_data node1 = d1" "sm_current_snapshot node1 = Some snap"
    using assms(1,3) b snap by (auto simp: install_snapshot_def)
  have node2: "sm_data node2 = d2" "answers = rs2" "sm_current_snapshot node2 = Some snap"
    using assms(4) node1 d2 by (auto simp: sm_apply_def)
  have full: "sm_data full = d2" "all_answers = rs1 @ rs2"
    using assms(5) d1 d2 by (auto simp: sm_apply_def apply_entries_append Let_def d0_def)
  have "length rs1 = length es1" using length_responses [of es1 d0] d1 by simp
  moreover have "kv d2 key = written key (es1 @ es2)"
    using kv_apply [of "es1 @ es2" d0 key] d1 d2
    by (auto simp: apply_entries_append Let_def d0_def state_machine_default_def split: option.splits)
  ultimately show ?thesis
    using node2 full snap by (simp add: sm_get_def get_current_snapshot_def install_snapshot_def)
qed


text \<open>A codec that writes two maps.\<close>

definition sample_to_vec :: "(string \<rightharpoonup> string) \<Rightarrow> u8 list option" where
  "sample_to_vec m = (if m = Map.empty then Some [] else if m = [''a'' \<mapsto> ''b''] then Some [1] else None)"

definition sample_from_slice :: "u8 list \<Rightarrow> (string \<rightharpoonup> string) option" where
  "sample_from_slice b = (if b = [] then Some Map.empty else if b = [1] then Some [''a'' \<mapsto> ''b''] else None)"

theorem snapshot_replica_agrees_witness:
  "\<exists>snap leader node1.
     build_snapshot sample_to_vec (\<lambda>_. ''id'')
       (snd (sm_apply [\<lparr> re_log_id = \<lparr> lid_leader = (1 :: nat), lid_index = 0 \<rparr>, re_payload = Normal (RequestSet ''a'' ''b'') \<rparr>]
          (state_machine_default ()))) = (Inr snap, leader) \<and>
     install_snapshot sample_from_slice (snap_meta snap) (snap_data snap) (state_machine_default ()) = (Inr (), node1) \<and>
     sm_get ''a'' (snd (sm_apply [\<lparr> re_log_id = \<lparr> lid_leader = 1, lid_index = 1 \<rparr>, re_payload = Blank \<rparr>] node1)) = Some ''b''"
proof -
  let ?e1 = "[\<lparr> re_log_id = \<lparr> lid_leader = (1 :: nat), lid_index = 0 \<rparr>, re_payload = Normal (RequestSet ''a'' ''b'') \<rparr>]"
  let ?e2 = "[\<lparr> re_log_id = \<lparr> lid_leader = (1 :: nat), lid_index = 1 \<rparr>, re_payload = (Blank :: unit entry_payload) \<rparr>]"
  obtain snap leader where b: "build_snapshot sample_to_vec (\<lambda>_. ''id'') (snd (sm_apply ?e1 (state_machine_default ()))) = (Inr snap, leader)"
    and data: "snap_data snap = [1]"
    by (auto simp: build_snapshot_def sm_apply_def state_machine_default_def sample_to_vec_def Let_def)
  obtain node1 where i: "install_snapshot sample_from_slice (snap_meta snap) (snap_data snap) (state_machine_default ()) = (Inr (), node1)"
    by (simp add: install_snapshot_def sample_from_slice_def data)
  have codec: "\<forall>m b. sample_to_vec m = Some b \<longrightarrow> sample_from_slice b = Some m"
    by (auto simp: sample_to_vec_def sample_from_slice_def)
  obtain rs n2 where two: "sm_apply ?e2 node1 = (rs, n2)" by (cases "sm_apply ?e2 node1")
  obtain rs' full where all: "sm_apply (?e1 @ ?e2) (state_machine_default ()) = (rs', full)"
    by (cases "sm_apply (?e1 @ ?e2) (state_machine_default ())")
  from snapshot_replica_agrees [OF codec b i two all, of "''a''" "[]" "snap_meta snap"] have "sm_get ''a'' n2 = Some ''b''"
    by simp
  with b i two show ?thesis by (metis snd_conv)
qed

text \<open>Two snapshots that one node builds within \<open>2 ^ 64\<close> of each other have different identifiers.\<close>

definition digit :: "nat \<Rightarrow> char" where
  "digit n = char_of (48 + n)"

lemma digit_inj: "m < 10 \<Longrightarrow> n < 10 \<Longrightarrow> digit m = digit n \<longleftrightarrow> m = n"
  by (simp add: digit_def char_of_eq_iff take_bit_eq_mod)

lemma show_nat_rec: "show_nat n = (if n < 10 then [digit n] else show_nat (n div 10) @ [digit (n mod 10)])"
  by (subst show_nat.simps) (simp add: digit_def)

lemma show_nat_last: "show_nat n \<noteq> [] \<and> last (show_nat n) = digit (n mod 10) \<and>
    (butlast (show_nat n) = [] \<longleftrightarrow> n < 10) \<and> (10 \<le> n \<longrightarrow> butlast (show_nat n) = show_nat (n div 10))"
proof (induction n rule: show_nat.induct)
  case (1 n)
  then show ?case by (cases "n < 10") (simp_all add: show_nat_rec [of n])
qed

lemma show_nat_inj: "show_nat m = show_nat n \<Longrightarrow> m = n"
proof (induction m arbitrary: n rule: show_nat.induct)
  case (1 m)
  have digits: "m mod 10 = n mod 10" using show_nat_last [of m] show_nat_last [of n] 1(2) by (simp add: digit_inj)
  have "m div 10 = n div 10"
  proof (cases "m < 10")
    case True
    then have "n < 10" using show_nat_last [of m] show_nat_last [of n] 1(2) by simp
    with True show ?thesis by simp
  next
    case False
    then have "\<not> n < 10" using show_nat_last [of m] show_nat_last [of n] 1(2) by simp
    with False show ?thesis using 1 show_nat_last [of m] show_nat_last [of n] by simp
  qed
  with digits show ?case by (metis div_mult_mod_eq)
qed

lemma show_nat_no_dash: "CHR ''-'' \<notin> set (show_nat n)"
proof (induction n rule: show_nat.induct)
  case (1 n)
  have "CHR ''-'' \<noteq> digit k" if "k < 10" for k using that by (simp add: digit_def eq_commute [of "CHR ''-''"] char_of_eq_iff take_bit_eq_mod)
  with 1 show ?case by (simp add: show_nat_rec [of n])
qed

lemma dash_suffix:
  assumes "xs @ CHR ''-'' # ys = xs' @ CHR ''-'' # ys'" and "CHR ''-'' \<notin> set ys" and "CHR ''-'' \<notin> set ys'"
  shows "ys = ys'"
proof -
  have "takeWhile (\<lambda>c. c \<noteq> CHR ''-'') (rev (zs @ CHR ''-'' # vs)) = rev vs" if "CHR ''-'' \<notin> set vs" for zs vs
  proof -
    have "takeWhile (\<lambda>c. c \<noteq> CHR ''-'') (us @ CHR ''-'' # ws) = us" if "CHR ''-'' \<notin> set us" for us ws
      using that by (induction us) auto
    from this [of "rev vs" "rev zs"] that show ?thesis by simp
  qed
  from this [OF assms(2), of xs] this [OF assms(3), of xs'] assms(1) show ?thesis by simp
qed

lemma snapshot_ids_distinct:
  assumes "build_snapshot to_vec show_id st = (Inr a, st1)" and "build_snapshot to_vec show_id st' = (Inr b, st2)"
    and "sm_snapshot_idx st \<noteq> sm_snapshot_idx st'"
  shows "meta_snapshot_id (snap_meta a) \<noteq> meta_snapshot_id (snap_meta b)"
proof
  assume eq: "meta_snapshot_id (snap_meta a) = meta_snapshot_id (snap_meta b)"
  obtain p q where "meta_snapshot_id (snap_meta a) = p @ CHR ''-'' # show_nat (unat (sm_snapshot_idx st))"
    "meta_snapshot_id (snap_meta b) = q @ CHR ''-'' # show_nat (unat (sm_snapshot_idx st'))"
    using assms(1,2) by (auto simp: build_snapshot_def Let_def split: option.splits)
  with eq have "show_nat (unat (sm_snapshot_idx st)) = show_nat (unat (sm_snapshot_idx st'))"
    using dash_suffix show_nat_no_dash by metis
  then show False using assms(3) show_nat_inj by (auto simp: word_unat_eq_iff)
qed

section \<open>The network\<close>

text \<open>\<^verbatim>\<open>InProcessNetworkHub\<close>: the nodes that can be reached. \<open>remote\<close> is the handler of the running node.\<close>

type_synonym 'raft network_hub = "u64 \<rightharpoonup> 'raft"

datatype 'e rpc_error = NodeNotRegistered u64 | RemoteFailed u64 'e

definition hub_new :: "'raft network_hub" where
  "hub_new = Map.empty"

definition hub_register :: "u64 \<Rightarrow> 'raft \<Rightarrow> 'raft network_hub \<Rightarrow> 'raft network_hub" where
  "hub_register i raft hub = hub(i \<mapsto> raft)"

definition target_raft :: "'raft network_hub \<Rightarrow> u64 \<Rightarrow> 'e rpc_error + 'raft" where
  "target_raft hub target = (case hub target of None \<Rightarrow> Inl (NodeNotRegistered target) | Some raft \<Rightarrow> Inr raft)"

text \<open>The three messages have the same body: find the node, call it, wrap its error.\<close>

definition dispatch :: "('raft \<Rightarrow> 'q \<Rightarrow> 'e + 'r) \<Rightarrow> 'raft network_hub \<Rightarrow> u64 \<Rightarrow> 'q \<Rightarrow> 'e rpc_error + 'r" where
  "dispatch remote hub target rpc =
     (case target_raft hub target of
        Inl e \<Rightarrow> Inl e
      | Inr raft \<Rightarrow> (case remote raft rpc of Inl e \<Rightarrow> Inl (RemoteFailed target e) | Inr r \<Rightarrow> Inr r))"

lemma dispatch_registered:
  "dispatch remote (hub_register i raft hub) target rpc =
     (if target = i then (case remote raft rpc of Inl e \<Rightarrow> Inl (RemoteFailed i e) | Inr r \<Rightarrow> Inr r)
      else dispatch remote hub target rpc)"
  by (cases "target = i") (simp_all add: dispatch_def target_raft_def hub_register_def)

end
