(* ===== verification/Raft_Membership.thy ===== *)
theory Raft_Membership
  imports Btree_Map
begin

text \<open>
  \<^verbatim>\<open>crates/qaas-core/src/raft/membership.rs\<close>: the desired members of the cluster and the watcher that brings
  the voters of the cluster in line with them. The cluster is that of the package \<^verbatim>\<open>openraft\<close>; its state
  and the three operations the watcher calls are a parameter, and \<open>cluster_laws\<close> states their documented
  effect on the voters, failures included.
\<close>

section \<open>Sources\<close>

datatype basic_node = BasicNode string

type_synonym cluster_members = "(u64, basic_node) btree_map"

definition static_members :: "cluster_members \<Rightarrow> cluster_members io_result" where
  "static_members members = Inr members"

text \<open>\<open>contents\<close> is what reading the file gave; \<open>from_slice\<close> is the JSON decoder.\<close>

definition file_members ::
  "(u8 list \<Rightarrow> (u64, string) btree_map option) \<Rightarrow> u8 list io_result \<Rightarrow> cluster_members io_result" where
  "file_members from_slice contents =
     (case contents of
        Inl e \<Rightarrow> Inl e
      | Inr bytes \<Rightarrow>
          (case from_slice bytes of
             None \<Rightarrow> Inl InvalidData
           | Some raw \<Rightarrow> Inr (map (\<lambda>(i, addr). (i, BasicNode addr)) raw)))"

section \<open>Reconciliation\<close>

record ('c, 'e) raft_handle =
  voter_ids :: "'c \<Rightarrow> u64 set"
  add_learner :: "u64 \<Rightarrow> basic_node \<Rightarrow> 'c \<Rightarrow> ('e + unit) \<times> 'c"
  add_voters :: "cluster_members \<Rightarrow> 'c \<Rightarrow> ('e + unit) \<times> 'c"
  remove_voters :: "u64 set \<Rightarrow> 'c \<Rightarrow> ('e + unit) \<times> 'c"

record membership_diff =
  joined :: "u64 set"
  left :: "u64 set"

definition diff_default :: membership_diff where
  "diff_default = \<lparr> joined = {}, left = {} \<rparr>"

definition diff_is_empty :: "membership_diff \<Rightarrow> bool" where
  "diff_is_empty d \<longleftrightarrow> joined d = {} \<and> left d = {}"

datatype 'e reconcile_error = SourceFailed io_error | AddLearnerFailed u64 'e | ChangeMembershipFailed 'e

fun add_learners ::
  "('c, 'e) raft_handle \<Rightarrow> cluster_members \<Rightarrow> 'c \<Rightarrow> ('e reconcile_error + unit) \<times> 'c" where
  "add_learners raft [] c = (Inr (), c)"
| "add_learners raft ((i, node) # joining) c =
     (case add_learner raft i node c of
        (Inl e, c) \<Rightarrow> (Inl (AddLearnerFailed i e), c)
      | (Inr _, c) \<Rightarrow> add_learners raft joining c)"

definition change_voters ::
  "bool \<Rightarrow> ('c \<Rightarrow> ('e + unit) \<times> 'c) \<Rightarrow> 'c \<Rightarrow> ('e reconcile_error + unit) \<times> 'c" where
  "change_voters needed change c =
     (if needed
      then case change c of (Inl e, c) \<Rightarrow> (Inl (ChangeMembershipFailed e), c) | (Inr _, c) \<Rightarrow> (Inr (), c)
      else (Inr (), c))"

definition reconcile_once ::
  "('c, 'e) raft_handle \<Rightarrow> cluster_members io_result \<Rightarrow> 'c \<Rightarrow> ('e reconcile_error + membership_diff) \<times> 'c" where
  "reconcile_once raft members c =
     (case members of
        Inl e \<Rightarrow> (Inl (SourceFailed e), c)
      | Inr desired \<Rightarrow>
          (let current = voter_ids raft c;
               joining = filter (\<lambda>(i, _). i \<notin> current) desired;
               leaving = {i \<in> current. i \<notin> fst ` set desired}
           in if joining = [] \<and> leaving = {} then (Inr diff_default, c)
              else case add_learners raft joining c of
                     (Inl e, c) \<Rightarrow> (Inl e, c)
                   | (Inr _, c) \<Rightarrow>
                       (case change_voters (joining \<noteq> []) (add_voters raft joining) c of
                          (Inl e, c) \<Rightarrow> (Inl e, c)
                        | (Inr _, c) \<Rightarrow>
                            (case change_voters (leaving \<noteq> {}) (remove_voters raft leaving) c of
                               (Inl e, c) \<Rightarrow> (Inl e, c)
                             | (Inr _, c) \<Rightarrow> (Inr \<lparr> joined = fst ` set joining, left = leaving \<rparr>, c)))))"

text \<open>The loop of \<^verbatim>\<open>run\<close>: one round for each poll until the shutdown; an error is logged and dropped.\<close>

definition watch :: "('c, 'e) raft_handle \<Rightarrow> cluster_members io_result list \<Rightarrow> 'c \<Rightarrow> 'c" where
  "watch raft polls c = fold (\<lambda>members c. snd (reconcile_once raft members c)) polls c"

section \<open>Convergence\<close>

text \<open>
  What the package documents: a learner has no vote; a membership change that succeeds has taken effect;
  one that fails may have taken effect in part, on the nodes it names only.
\<close>

definition cluster_laws :: "('c, 'e) raft_handle \<Rightarrow> bool" where
  "cluster_laws raft \<longleftrightarrow>
     (\<forall>i node c. voter_ids raft (snd (add_learner raft i node c)) = voter_ids raft c) \<and>
     (\<forall>m c. case add_voters raft m c of
        (Inr _, c') \<Rightarrow> voter_ids raft c' = voter_ids raft c \<union> fst ` set m
      | (Inl _, c') \<Rightarrow> voter_ids raft c \<subseteq> voter_ids raft c' \<and> voter_ids raft c' \<subseteq> voter_ids raft c \<union> fst ` set m) \<and>
     (\<forall>ids c. case remove_voters raft ids c of
        (Inr _, c') \<Rightarrow> voter_ids raft c' = voter_ids raft c - ids
      | (Inl _, c') \<Rightarrow> voter_ids raft c - ids \<subseteq> voter_ids raft c' \<and> voter_ids raft c' \<subseteq> voter_ids raft c)"

lemma add_learners_voters:
  assumes "cluster_laws raft" and "add_learners raft ms c = (res, c')"
  shows "voter_ids raft c' = voter_ids raft c"
  using assms(2)
proof (induction ms arbitrary: c)
  case (Cons m ms)
  obtain i node where m: "m = (i, node)" by (cases m)
  obtain r c1 where step: "add_learner raft i node c = (r, c1)" by (cases "add_learner raft i node c")
  have "voter_ids raft c1 = voter_ids raft c" using assms(1) step by (simp add: cluster_laws_def) (metis snd_conv)
  then show ?case using Cons step by (cases r) (auto simp: m)
qed simp

lemma add_voters_step:
  assumes "cluster_laws raft" and "change_voters needed (add_voters raft m) c = (res, c')" and "\<not> needed \<Longrightarrow> m = []"
  shows "voter_ids raft c \<subseteq> voter_ids raft c' \<and> voter_ids raft c' \<subseteq> voter_ids raft c \<union> fst ` set m \<and>
    (\<forall>u. res = Inr u \<longrightarrow> voter_ids raft c' = voter_ids raft c \<union> fst ` set m)"
proof -
  have "case add_voters raft m c of
        (Inr _, c') \<Rightarrow> voter_ids raft c' = voter_ids raft c \<union> fst ` set m
      | (Inl _, c') \<Rightarrow> voter_ids raft c \<subseteq> voter_ids raft c' \<and> voter_ids raft c' \<subseteq> voter_ids raft c \<union> fst ` set m"
    using assms(1) by (simp only: cluster_laws_def)
  then show ?thesis using assms(2,3) by (auto simp: change_voters_def split: if_splits prod.splits sum.splits)
qed

lemma remove_voters_step:
  assumes "cluster_laws raft" and "change_voters needed (remove_voters raft ids) c = (res, c')" and "\<not> needed \<Longrightarrow> ids = {}"
  shows "voter_ids raft c - ids \<subseteq> voter_ids raft c' \<and> voter_ids raft c' \<subseteq> voter_ids raft c \<and>
    (\<forall>u. res = Inr u \<longrightarrow> voter_ids raft c' = voter_ids raft c - ids)"
proof -
  have "case remove_voters raft ids c of
        (Inr _, c') \<Rightarrow> voter_ids raft c' = voter_ids raft c - ids
      | (Inl _, c') \<Rightarrow> voter_ids raft c - ids \<subseteq> voter_ids raft c' \<and> voter_ids raft c' \<subseteq> voter_ids raft c"
    using assms(1) by (simp only: cluster_laws_def)
  then show ?thesis using assms(2,3) by (auto simp: change_voters_def split: if_splits prod.splits sum.splits)
qed

lemma reconcile_round:
  assumes "cluster_laws raft" and "reconcile_once raft (Inr desired) c = (res, c')"
  shows "voter_ids raft c \<inter> fst ` set desired \<subseteq> voter_ids raft c' \<and>
    voter_ids raft c' \<subseteq> voter_ids raft c \<union> fst ` set desired \<and>
    (\<forall>d. res = Inr d \<longrightarrow> voter_ids raft c' = fst ` set desired \<and>
       joined d = fst ` set desired - voter_ids raft c \<and> left d = voter_ids raft c - fst ` set desired)"
proof -
  define joining where "joining = filter (\<lambda>(i, _). i \<notin> voter_ids raft c) desired"
  define leaving where "leaving = {i \<in> voter_ids raft c. i \<notin> fst ` set desired}"
  have ids: "fst ` set joining = fst ` set desired - voter_ids raft c" by (force simp: joining_def)
  show ?thesis
  proof (cases "joining = [] \<and> leaving = {}")
    case True
    then have "res = Inr diff_default" "c' = c"
      using assms(2) by (simp_all add: reconcile_once_def Let_def joining_def leaving_def)
    then show ?thesis using True ids by (auto simp: leaving_def diff_default_def)
  next
    case False
    obtain r1 c1 where s1: "add_learners raft joining c = (r1, c1)" by (cases "add_learners raft joining c")
    obtain r2 c2 where s2: "change_voters (joining \<noteq> []) (add_voters raft joining) c1 = (r2, c2)"
      by (cases "change_voters (joining \<noteq> []) (add_voters raft joining) c1")
    obtain r3 c3 where s3: "change_voters (leaving \<noteq> {}) (remove_voters raft leaving) c2 = (r3, c3)"
      by (cases "change_voters (leaving \<noteq> {}) (remove_voters raft leaving) c2")
    have run: "(res, c') = (case r1 of Inl e \<Rightarrow> (Inl e, c1) | Inr _ \<Rightarrow> (case r2 of Inl e \<Rightarrow> (Inl e, c2) | Inr _ \<Rightarrow>
        (case r3 of Inl e \<Rightarrow> (Inl e, c3) | Inr _ \<Rightarrow> (Inr \<lparr> joined = fst ` set joining, left = leaving \<rparr>, c3))))"
      using assms(2) [unfolded reconcile_once_def Let_def sum.case joining_def [symmetric] leaving_def [symmetric]] False s1 s2 s3
      by (cases r1; cases r2; cases r3) auto
    note v1 = add_learners_voters [OF assms(1) s1]
    have v2: "voter_ids raft c1 \<subseteq> voter_ids raft c2 \<and> voter_ids raft c2 \<subseteq> voter_ids raft c1 \<union> fst ` set joining \<and>
        (\<forall>u. r2 = Inr u \<longrightarrow> voter_ids raft c2 = voter_ids raft c1 \<union> fst ` set joining)"
      by (rule add_voters_step [OF assms(1) s2]) simp
    have v3: "voter_ids raft c2 - leaving \<subseteq> voter_ids raft c3 \<and> voter_ids raft c3 \<subseteq> voter_ids raft c2 \<and>
        (\<forall>u. r3 = Inr u \<longrightarrow> voter_ids raft c3 = voter_ids raft c2 - leaving)"
      by (rule remove_voters_step [OF assms(1) s3]) simp
    have leave: "leaving = voter_ids raft c - fst ` set desired" by (auto simp: leaving_def)
    show ?thesis
      using run v1 v2 v3 unfolding ids leave by (cases r1; cases r2; cases r3) auto
  qed
qed

text \<open>
  C35: the watcher converges and never strays. A round that succeeds makes the voters exactly the desired
  nodes and reports exactly the nodes that joined and left; the next round then does nothing. Over any
  number of rounds with the same desired nodes, failed reads and failed steps included, no desired voter
  is removed and no node outside the desired ones becomes a voter.
\<close>

theorem watcher_converges:
  assumes "cluster_laws raft" and "set polls \<subseteq> insert (Inr desired) (range Inl)"
  shows "voter_ids raft c \<inter> fst ` set desired \<subseteq> voter_ids raft (watch raft polls c) \<and>
    voter_ids raft (watch raft polls c) \<subseteq> voter_ids raft c \<union> fst ` set desired \<and>
    (\<forall>d c'. reconcile_once raft (Inr desired) (watch raft polls c) = (Inr d, c') \<longrightarrow>
       voter_ids raft c' = fst ` set desired \<and>
       joined d = fst ` set desired - voter_ids raft (watch raft polls c) \<and>
       left d = voter_ids raft (watch raft polls c) - fst ` set desired \<and>
       reconcile_once raft (Inr desired) c' = (Inr diff_default, c'))"
proof -
  have bounds: "voter_ids raft c \<inter> fst ` set desired \<subseteq> voter_ids raft (watch raft polls c) \<and>
      voter_ids raft (watch raft polls c) \<subseteq> voter_ids raft c \<union> fst ` set desired"
    using assms(2)
  proof (induction polls arbitrary: c)
    case Nil
    then show ?case by (auto simp: watch_def)
  next
    case (Cons p polls)
    obtain r c1 where step: "reconcile_once raft p c = (r, c1)" by (cases "reconcile_once raft p c")
    have "voter_ids raft c \<inter> fst ` set desired \<subseteq> voter_ids raft c1 \<and> voter_ids raft c1 \<subseteq> voter_ids raft c \<union> fst ` set desired"
    proof (cases p)
      case (Inl e)
      then show ?thesis using step by (simp add: reconcile_once_def)
    next
      case (Inr m)
      then have "m = desired" using Cons.prems by auto
      then show ?thesis using reconcile_round [OF assms(1), of desired c r c1] step Inr by simp
    qed
    moreover have "watch raft (p # polls) c = watch raft polls c1" by (simp add: watch_def step)
    moreover have "set polls \<subseteq> insert (Inr desired) (range Inl)" using Cons.prems by simp
    ultimately show ?case using Cons.IH [of c1] by (simp only:) blast
  qed
  have idle: "reconcile_once raft (Inr desired) c' = (Inr diff_default, c')" if "voter_ids raft c' = fst ` set desired" for c'
  proof -
    have "filter (\<lambda>(i, _). i \<notin> voter_ids raft c') desired = []" using that by (force simp: filter_empty_conv)
    then show ?thesis using that by (simp add: reconcile_once_def Let_def)
  qed
  have success: "\<forall>d c'. reconcile_once raft (Inr desired) (watch raft polls c) = (Inr d, c') \<longrightarrow>
       voter_ids raft c' = fst ` set desired \<and>
       joined d = fst ` set desired - voter_ids raft (watch raft polls c) \<and>
       left d = voter_ids raft (watch raft polls c) - fst ` set desired \<and>
       reconcile_once raft (Inr desired) c' = (Inr diff_default, c')"
  proof (intro allI impI)
    fix d c'
    assume "reconcile_once raft (Inr desired) (watch raft polls c) = (Inr d, c')"
    from reconcile_round [OF assms(1) this] idle [of c'] show "voter_ids raft c' = fst ` set desired \<and>
       joined d = fst ` set desired - voter_ids raft (watch raft polls c) \<and>
       left d = voter_ids raft (watch raft polls c) - fst ` set desired \<and>
       reconcile_once raft (Inr desired) c' = (Inr diff_default, c')" by simp
  qed
  show ?thesis by (intro conjI conjunct1 [OF bounds] conjunct2 [OF bounds] success)
qed

text \<open>A cluster that is its set of voters and refuses to add the node 9.\<close>

definition sample_raft :: "(u64 set, unit) raft_handle" where
  "sample_raft =
     \<lparr> voter_ids = (\<lambda>c. c), add_learner = (\<lambda>i _ c. if i = 9 then (Inl (), c) else (Inr (), c)),
       add_voters = (\<lambda>m c. (Inr (), c \<union> fst ` set m)), remove_voters = (\<lambda>ids c. (Inr (), c - ids)) \<rparr>"

theorem watcher_converges_witness:
  "\<exists>d c'. reconcile_once sample_raft (Inr [(1, BasicNode ''a''), (3, BasicNode ''c'')])
       (watch sample_raft [Inl OtherIo] {1, 2}) = (Inr d, c') \<and>
     voter_ids sample_raft c' = {1, 3} \<and> joined d = {3} \<and> left d = {2}"
proof -
  let ?desired = "[(1 :: u64, BasicNode ''a''), (3, BasicNode ''c'')]"
  have laws: "cluster_laws sample_raft" by (simp add: cluster_laws_def sample_raft_def)
  have polls: "set [Inl OtherIo :: cluster_members io_result] \<subseteq> insert (Inr ?desired) (range Inl)" by simp
  have start: "watch sample_raft [Inl OtherIo] {1, 2} = {1, 2}" by (simp add: watch_def reconcile_once_def)
  have filters: "filter (\<lambda>(i, _). i \<notin> {1, 2 :: u64}) ?desired = [(3, BasicNode ''c'')]"
    "{i \<in> {1, 2 :: u64}. i \<notin> fst ` set ?desired} = {2}" by auto
  obtain d c' where run: "reconcile_once sample_raft (Inr ?desired) (watch sample_raft [Inl OtherIo] {1, 2}) = (Inr d, c')"
    unfolding start reconcile_once_def Let_def sum.case
    by (simp only: sample_raft_def raft_handle.select_convs filters) (simp add: change_voters_def)
  from watcher_converges [OF laws polls, of "{1, 2}"] run
  have "voter_ids sample_raft c' = {1, 3}" "joined d = {1, 3} - {1, 2}" "left d = {1, 2} - {1, 3}"
    by (simp_all add: start) (simp_all add: sample_raft_def)
  with run show ?thesis by auto
qed

end
