(* ===== verification/F32.thy ===== *)
theory F32
  imports F64
begin

text \<open>
  The arithmetic of \<^verbatim>\<open>f32\<close> (IEEE 754 binary32), as in the theory \<open>F64\<close>: a value is not a number, an
  infinity, or the rational it denotes, so the type of values is shared and only the rounding differs.
  The square root is correctly rounded, as the standard requires: it is computed from the integer
  square root of the scaled argument. \<open>total_le\<close> is the order of \<^verbatim>\<open>f32::total_cmp\<close>; the sign of a
  computed not-a-number is left open by the language, so it is an argument.
\<close>

type_synonym f32 = f64

definition f32_ulp_exp :: "rat \<Rightarrow> int" where
  "f32_ulp_exp x = max (ilog2 x - 23) (- 149)"

definition f32_round_rat :: "rat \<Rightarrow> rat" where
  "f32_round_rat x =
     (if x = 0 then 0
      else let u = 2 powi f32_ulp_exp \<bar>x\<bar>; y = of_int (rne (\<bar>x\<bar> / u)) * u in if x < 0 then - y else y)"

definition f32_round :: "rat \<Rightarrow> f32" where
  "f32_round x =
     (let y = f32_round_rat x in
      if 2 powi 128 \<le> y then PInf else if y \<le> - (2 powi 128) then NInf else Fin y)"

fun f32_add :: "f32 \<Rightarrow> f32 \<Rightarrow> f32" where
  "f32_add (Fin x) (Fin y) = f32_round (x + y)"
| "f32_add a b = f64_add a b"

fun f32_mul :: "f32 \<Rightarrow> f32 \<Rightarrow> f32" where
  "f32_mul (Fin x) (Fin y) = f32_round (x * y)"
| "f32_mul a b = f64_mul a b"

fun f32_div :: "f32 \<Rightarrow> f32 \<Rightarrow> f32" where
  "f32_div (Fin x) (Fin y) = (if y = 0 then f64_inf (f64_sgn (Fin x)) else f32_round (x / y))"
| "f32_div a b = f64_div a b"

text \<open>The largest integer whose square is at most the argument.\<close>

function isqrt :: "int \<Rightarrow> int" where
  "isqrt n = (if n \<le> 0 then 0 else let s = 2 * isqrt (n div 4) in if (s + 1) * (s + 1) \<le> n then s + 1 else s)"
  by pat_completeness auto
termination
  by (relation "measure nat") auto

declare isqrt.simps [simp del]

text \<open>The square root of a positive number, with a significand of 24 bits; it is never subnormal.\<close>

definition sqrt_rat :: "rat \<Rightarrow> rat" where
  "sqrt_rat x =
     (let u = ilog2 x div 2 - 23; y = x / 2 powi (2 * u); n = isqrt \<lfloor>y\<rfloor>; m = of_int n + 1 / 2
      in (if y < m * m \<or> y = m * m \<and> even n then of_int n else of_int n + 1) * 2 powi u)"

fun f32_sqrt :: "f32 \<Rightarrow> f32" where
  "f32_sqrt NaN = NaN"
| "f32_sqrt PInf = PInf"
| "f32_sqrt NInf = NaN"
| "f32_sqrt (Fin x) = (if x < 0 then NaN else if x = 0 then Fin 0 else Fin (sqrt_rat x))"

definition f32_sum :: "f32 list \<Rightarrow> f32" where
  "f32_sum xs = foldl f32_add (Fin 0) xs"

fun is_finite :: "f32 \<Rightarrow> bool" where
  "is_finite (Fin x) \<longleftrightarrow> True"
| "is_finite _ \<longleftrightarrow> False"

text \<open>The class of a value in the total order: a negative not-a-number is below, a positive one above all.\<close>

fun total_class :: "bool \<Rightarrow> f32 \<Rightarrow> nat" where
  "total_class positive NaN = (if positive then 4 else 0)"
| "total_class positive NInf = 1"
| "total_class positive (Fin x) = 2"
| "total_class positive PInf = 3"

fun fin_le :: "f32 \<Rightarrow> f32 \<Rightarrow> bool" where
  "fin_le (Fin x) (Fin y) \<longleftrightarrow> x \<le> y"
| "fin_le _ _ \<longleftrightarrow> True"

definition total_le :: "bool \<times> f32 \<Rightarrow> bool \<times> f32 \<Rightarrow> bool" where
  "total_le a b \<longleftrightarrow>
     total_class (fst a) (snd a) < total_class (fst b) (snd b) \<or>
     total_class (fst a) (snd a) = total_class (fst b) (snd b) \<and> fin_le (snd a) (snd b)"

lemma total_le_trans: "total_le a b \<Longrightarrow> total_le b c \<Longrightarrow> total_le a c"
  by (cases "snd a"; cases "snd b"; cases "snd c") (auto simp: total_le_def split: if_splits)

lemma total_le_linear: "total_le a b \<or> total_le b a"
  by (cases "snd a"; cases "snd b") (auto simp: total_le_def split: if_splits)

lemma total_le_numbers: "x \<noteq> NaN \<Longrightarrow> y \<noteq> NaN \<Longrightarrow> total_le (s, x) (t, y) \<longleftrightarrow> f64_le x y"
  by (cases x; cases y) (auto simp: total_le_def)

lemma isqrt_bounds: "0 \<le> n \<Longrightarrow> 0 \<le> isqrt n \<and> isqrt n * isqrt n \<le> n \<and> n < (isqrt n + 1) * (isqrt n + 1)"
proof (induction n rule: isqrt.induct)
  case (1 n)
  show ?case
  proof (cases "n = 0")
    case True
    then show ?thesis by (simp add: isqrt.simps)
  next
    case False
    define k where "k = isqrt (n div 4)"
    have k: "0 \<le> k" "k * k \<le> n div 4" "n div 4 < (k + 1) * (k + 1)" using 1 False by (simp_all add: k_def)
    have "4 * (k * k) \<le> n" "n < 4 * ((k + 1) * (k + 1))" using k(2,3) by linarith+
    moreover have "(2 * k + 2) * (2 * k + 2) = 4 * ((k + 1) * (k + 1))" "(2 * k) * (2 * k) = 4 * (k * k)"
      by (simp_all add: algebra_simps)
    ultimately have sq: "(2 * k) * (2 * k) \<le> n" "n < (2 * k + 2) * (2 * k + 2)" by simp_all
    have "isqrt n = (if (2 * k + 1) * (2 * k + 1) \<le> n then 2 * k + 1 else 2 * k)"
      using False 1(2) by (subst isqrt.simps) (simp add: Let_def k_def)
    then show ?thesis using sq k(1) by (simp add: add.commute)
  qed
qed

lemma f32_round_mono_zero: "f32_round 0 = Fin 0"
  by (simp add: f32_round_def f32_round_rat_def Let_def)

end
