(* ===== verification/Semantic.thy ===== *)
theory Semantic
  imports F32
begin

text \<open>
  \<^verbatim>\<open>crates/qaas-core/src/semantic.rs\<close>: embeddings, their cosine similarity in \<^verbatim>\<open>f32\<close> arithmetic, and the index
  that finds the most similar one. The index is a hash map the code iterates over, so \<^verbatim>\<open>nearest\<close> takes an
  iteration order; among equal scores the last one visited wins. The sign of zero is not kept, so two
  scores of zero with different signs count as equal here.
\<close>

section \<open>Embeddings\<close>

datatype embedding = Embedding "f32 list"

datatype invalid_embedding = InvalidEmbedding

definition embedding_new :: "f32 list \<Rightarrow> invalid_embedding + embedding" where
  "embedding_new values =
     (if values = [] \<or> (\<exists>v\<in>set values. \<not> is_finite v) then Inl InvalidEmbedding else Inr (Embedding values))"

primrec dimension :: "embedding \<Rightarrow> nat" where
  "dimension (Embedding values) = length values"

definition norm32 :: "f32 list \<Rightarrow> f32" where
  "norm32 xs = f32_sqrt (f32_sum (map (\<lambda>v. f32_mul v v) xs))"

fun cosine_similarity :: "embedding \<Rightarrow> embedding \<Rightarrow> f32 option" where
  "cosine_similarity (Embedding xs) (Embedding ys) =
     (if length xs \<noteq> length ys then None
      else let dot = f32_sum (map (\<lambda>(a, b). f32_mul a b) (zip xs ys)) in
           if norm32 xs = Fin 0 \<or> norm32 ys = Fin 0 then None
           else Some (f32_div dot (f32_mul (norm32 xs) (norm32 ys))))"

declare cosine_similarity.simps [simp del]

section \<open>The index\<close>

record index_entry =
  ie_embedding :: embedding
  ie_inserted_at :: instant

record 'k embedding_index =
  ei_ttl :: "duration option"
  ei_entries :: "('k, index_entry) hash_map"

definition index_new :: "duration option \<Rightarrow> 'k embedding_index" where
  "index_new ttl = \<lparr> ei_ttl = ttl, ei_entries = [] \<rparr>"

definition index_insert :: "'k \<Rightarrow> embedding \<Rightarrow> instant \<Rightarrow> 'k embedding_index \<Rightarrow> 'k embedding_index" where
  "index_insert key e now ix =
     ix \<lparr> ei_entries := AList.update key \<lparr> ie_embedding = e, ie_inserted_at = now \<rparr> (ei_entries ix) \<rparr>"

definition index_remove :: "'k \<Rightarrow> 'k embedding_index \<Rightarrow> 'k embedding_index" where
  "index_remove key ix = ix \<lparr> ei_entries := AList.delete key (ei_entries ix) \<rparr>"

definition index_evict :: "instant \<Rightarrow> 'k embedding_index \<Rightarrow> 'k embedding_index" where
  "index_evict now ix =
     (case ei_ttl ix of
        None \<Rightarrow> ix
      | Some ttl \<Rightarrow> ix \<lparr> ei_entries := filter (\<lambda>(_, e). now - ie_inserted_at e < ttl) (ei_entries ix) \<rparr>)"

text \<open>\<^verbatim>\<open>Iterator::max_by\<close> with \<^verbatim>\<open>total_cmp\<close>.\<close>

fun max_score :: "('k \<Rightarrow> bool) \<Rightarrow> ('k \<times> f32) list \<Rightarrow> ('k \<times> f32) option" where
  "max_score positive [] = None"
| "max_score positive (x # xs) =
     Some (foldl (\<lambda>best y. if total_le (positive (fst best), snd best) (positive (fst y), snd y) then y else best) x xs)"

definition index_nearest ::
  "'k iter_rank \<Rightarrow> ('k \<Rightarrow> bool) \<Rightarrow> instant \<Rightarrow> embedding \<Rightarrow> 'k embedding_index
   \<Rightarrow> ('k \<times> f32) option \<times> 'k embedding_index" where
  "index_nearest rank positive now e ix =
     (let ix = index_evict now ix in
      (max_score positive
         (List.map_filter (\<lambda>(key, entry). map_option (Pair key) (cosine_similarity e (ie_embedding entry)))
            (hm_iter rank (ei_entries ix))), ix))"

definition index_len :: "instant \<Rightarrow> 'k embedding_index \<Rightarrow> nat \<times> 'k embedding_index" where
  "index_len now ix = (let ix = index_evict now ix in (length (ei_entries ix), ix))"

definition index_is_empty :: "instant \<Rightarrow> 'k embedding_index \<Rightarrow> bool \<times> 'k embedding_index" where
  "index_is_empty now ix = (case index_len now ix of (n, ix) \<Rightarrow> (n = 0, ix))"

definition index_keys :: "'k iter_rank \<Rightarrow> instant \<Rightarrow> 'k embedding_index \<Rightarrow> 'k list \<times> 'k embedding_index" where
  "index_keys rank now ix = (let ix = index_evict now ix in (map fst (hm_iter rank (ei_entries ix)), ix))"

section \<open>The nearest entry\<close>

lemma foldl_best:
  fixes le :: "'x \<Rightarrow> 'x \<Rightarrow> bool"
  assumes "\<And>a b c. le a b \<Longrightarrow> le b c \<Longrightarrow> le a c" and "\<And>a b. le a b \<or> le b a"
  shows "foldl (\<lambda>best y. if le best y then y else best) x xs \<in> insert x (set xs) \<and>
    (\<forall>y\<in>insert x (set xs). le y (foldl (\<lambda>best y. if le best y then y else best) x xs))"
proof (induction xs rule: rev_induct)
  case Nil
  then show ?case using assms(2) by auto
next
  case (snoc y xs)
  let ?b = "foldl (\<lambda>best y. if le best y then y else best) x xs"
  have refl: "le y y" using assms(2) [of y y] by simp
  show ?case
  proof (cases "le ?b y")
    case True
    then have "le z y" if "z \<in> insert x (set xs)" for z using snoc that assms(1) [of z ?b y] by blast
    with True refl show ?thesis by auto
  next
    case False
    with assms(2) [of ?b y] snoc show ?thesis by auto
  qed
qed

lemma max_score_best:
  assumes "max_score positive xs = Some best"
  shows "best \<in> set xs \<and> (\<forall>y\<in>set xs. total_le (positive (fst y), snd y) (positive (fst best), snd best))"
proof -
  obtain x ys where xs: "xs = x # ys" using assms by (cases xs) auto
  show ?thesis
    using foldl_best [of "\<lambda>a b. total_le (positive (fst a), snd a) (positive (fst b), snd b)" x ys]
      assms total_le_trans total_le_linear by (auto simp: xs)
qed

lemma max_score_None: "max_score positive xs = None \<longleftrightarrow> xs = []"
  by (cases xs) auto

definition live_scores :: "instant \<Rightarrow> embedding \<Rightarrow> 'k embedding_index \<Rightarrow> ('k \<times> f32) set" where
  "live_scores now e ix =
     {(key, s). \<exists>entry. (key, entry) \<in> set (ei_entries ix) \<and> (\<forall>ttl. ei_ttl ix = Some ttl \<longrightarrow> now - ie_inserted_at entry < ttl) \<and>
        cosine_similarity e (ie_embedding entry) = Some s}"

lemma set_evict: "(key, entry) \<in> set (ei_entries (index_evict now ix)) \<longleftrightarrow>
    (key, entry) \<in> set (ei_entries ix) \<and> (\<forall>ttl. ei_ttl ix = Some ttl \<longrightarrow> now - ie_inserted_at entry < ttl)"
  by (auto simp: index_evict_def split: option.splits)

lemma in_map_filter: "y \<in> set (List.map_filter f xs) \<longleftrightarrow> (\<exists>x\<in>set xs. f x = Some y)"
  by (induction xs) (auto simp: map_filter_simps split: option.splits)

lemma set_scores:
  "set (List.map_filter (\<lambda>(key, entry). map_option (Pair key) (cosine_similarity e (ie_embedding entry)))
     (hm_iter rank (ei_entries (index_evict now ix)))) = live_scores now e ix"
proof (rule set_eqI)
  fix ks :: "'a \<times> f32"
  obtain key s where ks: "ks = (key, s)" by (cases ks)
  have split: "(case x of (key, entry) \<Rightarrow> map_option (Pair key) (cosine_similarity e (ie_embedding entry))) = Some (key, s) \<longleftrightarrow>
      fst x = key \<and> cosine_similarity e (ie_embedding (snd x)) = Some s" for x :: "'a \<times> index_entry"
    by (cases x) auto
  show "ks \<in> set (List.map_filter (\<lambda>(key, entry). map_option (Pair key) (cosine_similarity e (ie_embedding entry)))
      (hm_iter rank (ei_entries (index_evict now ix)))) \<longleftrightarrow> ks \<in> live_scores now e ix"
    unfolding ks in_map_filter split
    by (auto simp: live_scores_def set_evict intro!: bexI [where x = "(key, _)"])
qed

text \<open>
  C36: the search finds the best match. If every similarity between the query and an entry that has not
  expired is a number, \<^verbatim>\<open>nearest\<close> returns such an entry, with its similarity, that no other entry beats,
  whatever the iteration order; it returns nothing exactly when no such entry is comparable with the
  query; and it drops exactly the expired entries.
\<close>

theorem nearest_is_best:
  assumes "\<forall>(key, s)\<in>live_scores now e ix. s \<noteq> NaN" and "index_nearest rank positive now e ix = (found, ix')"
  shows "(case found of
       None \<Rightarrow> live_scores now e ix = {}
     | Some (key, s) \<Rightarrow> (key, s) \<in> live_scores now e ix \<and> (\<forall>(key', s')\<in>live_scores now e ix. f64_le s' s)) \<and>
    (\<forall>key entry. (key, entry) \<in> set (ei_entries ix') \<longleftrightarrow>
       (key, entry) \<in> set (ei_entries ix) \<and> (\<forall>ttl. ei_ttl ix = Some ttl \<longrightarrow> now - ie_inserted_at entry < ttl))"
proof -
  have ix': "ix' = index_evict now ix" using assms(2) by (auto simp: index_nearest_def Let_def)
  let ?xs = "List.map_filter (\<lambda>(key, entry). map_option (Pair key) (cosine_similarity e (ie_embedding entry)))
     (hm_iter rank (ei_entries (index_evict now ix)))"
  have found: "found = max_score positive ?xs" using assms(2) by (auto simp: index_nearest_def Let_def)
  have "case found of
       None \<Rightarrow> live_scores now e ix = {}
     | Some (key, s) \<Rightarrow> (key, s) \<in> live_scores now e ix \<and> (\<forall>(key', s')\<in>live_scores now e ix. f64_le s' s)"
  proof (cases found)
    case None
    then show ?thesis using found set_scores [of e rank now ix] by (simp add: max_score_None)
  next
    case (Some ks)
    obtain key s where ks: "ks = (key, s)" by (cases ks)
    have best: "(key, s) \<in> live_scores now e ix"
      "\<forall>y\<in>live_scores now e ix. total_le (positive (fst y), snd y) (positive key, s)"
      using max_score_best [of positive ?xs "(key, s)"] found Some ks by (simp_all add: set_scores)
    then have "\<forall>(key', s')\<in>live_scores now e ix. f64_le s' s"
      using assms(1) total_le_numbers by (auto simp: Ball_def)
    with best(1) show ?thesis by (simp add: Some ks)
  qed
  then show ?thesis by (simp add: ix' set_evict)
qed

section \<open>Evaluation\<close>

lemmas semantic_eval = index_nearest_def index_evict_def hm_iter_def index_insert_def index_new_def Let_def
  List.map_filter_def

lemma cosine_same: "cosine_similarity (Embedding [Fin 1, Fin 0]) (Embedding [Fin 1, Fin 0]) = Some (Fin 1)"
  by code_simp

lemma cosine_orthogonal: "cosine_similarity (Embedding [Fin 1, Fin 0]) (Embedding [Fin 0, Fin 1]) = Some (Fin 0)"
  by code_simp

lemma cosine_dimensions: "cosine_similarity (Embedding [Fin 1, Fin 0]) (Embedding [Fin 1]) = None"
  by (simp add: cosine_similarity.simps)

lemmas cosine_samples = cosine_same cosine_orthogonal cosine_dimensions

definition sample_index :: "nat embedding_index" where
  "sample_index = index_insert 1 (Embedding [Fin 0, Fin 1]) 5 (index_insert 2 (Embedding [Fin 1, Fin 0]) 5
     (index_insert 3 (Embedding [Fin 1]) 5 (index_insert 4 (Embedding [Fin 1, Fin 0]) 0 (index_new (Some 10)))))"

lemma sample_index_live: "live_scores 12 (Embedding [Fin 1, Fin 0]) sample_index = {(1, Fin 0), (2, Fin 1)}"
  by (auto simp: live_scores_def sample_index_def index_insert_def index_new_def cosine_samples)

theorem nearest_is_best_witness:
  "\<exists>ix. index_nearest id (\<lambda>_. True) 12 (Embedding [Fin 1, Fin 0]) sample_index = (Some (2, Fin 1), ix) \<and>
     (\<forall>key entry. (key, entry) \<in> set (ei_entries ix) \<longrightarrow> key \<noteq> 4)"
proof -
  obtain found ix where run: "index_nearest id (\<lambda>_. True) 12 (Embedding [Fin 1, Fin 0]) sample_index = (found, ix)"
    by (cases "index_nearest id (\<lambda>_. True) 12 (Embedding [Fin 1, Fin 0]) sample_index")
  have numbers: "\<forall>(key, s)\<in>live_scores 12 (Embedding [Fin 1, Fin 0]) sample_index. s \<noteq> NaN" by (simp add: sample_index_live)
  note best = nearest_is_best [OF numbers run, unfolded sample_index_live]
  have "found = Some (2, Fin 1)"
  proof (cases found)
    case (Some ks)
    then show ?thesis using best [THEN conjunct1] by (cases ks) auto
  qed (use best [THEN conjunct1] in simp)
  moreover have "key \<noteq> 4" if "(key, entry) \<in> set (ei_entries ix)" for key entry
  proof -
    have "(key, entry) \<in> set (ei_entries sample_index)" "12 - ie_inserted_at entry < 10"
      using best [THEN conjunct2, THEN spec, THEN spec, of key entry] that
      by (simp_all add: sample_index_def index_insert_def index_new_def)
    then show ?thesis by (auto simp: sample_index_def index_insert_def index_new_def)
  qed
  ultimately show ?thesis using run by blast
qed

text \<open>
  Two limits of the computed similarity. Rounding takes the similarity of a vector with itself above
  one. And the squares of large but finite components overflow: the similarity is then not a number,
  and where its sign is positive it beats every other score, so the search returns that entry instead of
  an exact match.
\<close>

lemma similarity_above_one:
  "\<exists>s. cosine_similarity (Embedding [Fin 1, Fin 1]) (Embedding [Fin 1, Fin 1]) = Some s \<and> f64_lt (Fin 1) s"
  by (rule exI [of _ "Fin (8388609 / 8388608)"]) code_simp

lemma overflow_beats_exact_match:
  "fst (index_nearest id (\<lambda>_. True) 0 (Embedding [Fin 1152921504606846976])
     (index_insert (1 :: nat) (Embedding [Fin 1180591620717411303424]) 0
       (index_insert 2 (Embedding [Fin 1152921504606846976]) 0 (index_new None)))) = Some (1, NaN)"
proof -
  have "cosine_similarity (Embedding [Fin 1152921504606846976]) (Embedding [Fin 1180591620717411303424]) = Some NaN"
    by code_simp
  moreover have "cosine_similarity (Embedding [Fin 1152921504606846976]) (Embedding [Fin 1152921504606846976]) = Some (Fin 1)"
    by code_simp
  ultimately show ?thesis by (simp add: semantic_eval total_le_def)
qed

end
