(* ===== verification/Group_Sections.thy ===== *)
theory Group_Sections
  imports Group_Invariants
begin

text \<open>
  \<^verbatim>\<open>crates/qaas-core/src/consumer_group.rs\<close> and \<^verbatim>\<open>crates/qaas-core/src/dead_letter.rs\<close> at the grain of
  their locks. A call of a method is a task; the value of type \<open>task\<close> says which section it runs next
  and holds its local variables. A section is the code from one \<^verbatim>\<open>await\<close> to the next: what it does
  under one lock, or one log write. Sections of different tasks interleave in any order, and a task
  can be dropped at any \<^verbatim>\<open>await\<close> (a timer that fires in \<^verbatim>\<open>claim_impl\<close>, a disconnected client, a panic).
  The theorem \<open>sections_compose\<close> shows that the sections of a call that nobody interrupts are the
  method of the theory \<open>Consumer_Group\<close>.
\<close>

section \<open>Tasks\<close>

text \<open>Who goes on after a failed delivery was resolved: \<^verbatim>\<open>nack\<close>, or the sweep with the leases left.\<close>

datatype ('a, 'v) resolver = ForNack | ForSweep "(message_id \<times> ('a, 'v) leased) list"

datatype enqueuer = ForEnqueue | ForReprocess

datatype taker = ToReprocess | ToPurge

datatype ('a, 'v) task =
  Reserve message_id "idempotency_key option" 'a
| WriteEnqueue enqueuer message_id "idempotency_key option" 'a
| ReleaseFailed message_id idempotency_key 'a io_error
| PushPending enqueuer message_id "idempotency_key option" 'a
| TakeExpired
| ResolveDelivery "('a, 'v) resolver" message_id "('a, 'v) leased" "string option"
| InsertLetter "('a, 'v) resolver" "('a, 'v) dead_letter"
| LogDeadLettered "('a, 'v) resolver" message_id
| Scan
| Waiting "instant option"
| TakeAck message_id lease_token
| LogAck message_id
| TakeNack message_id lease_token "string option"
| CheckLease message_id lease_token 'v
| LogCheckpoint message_id lease_token 'v
| StoreCheckpoint message_id lease_token 'v
| PublishChunk message_id lease_token 'v bool
| TakeLetter taker message_id
| LogRemove taker message_id "('a, 'v) dead_letter"
| ReleaseLetterKey "('a, 'v) dead_letter"
| CheckLetter message_id triage_verdict
| LogVerdict message_id triage_verdict
| StoreVerdict message_id triage_verdict

datatype ('a, 'v) answer =
  AnswerId message_id
| AnswerBool bool
| AnswerError io_error
| AnswerClaim "('a, 'v) claim"
| AnswerSequence "u64 option"
| AnswerPanic

text \<open>What the environment decides for one section.\<close>

record section_env =
  se_rank :: "message_id iter_rank"
  se_now :: instant
  se_lease_now :: instant
  se_draw :: f64
  se_timestamp :: timestamp
  se_out :: log_outcome

type_synonym ('a, 'v) progress = "(('a, 'v) task + ('a, 'v) answer) \<times> ('a, 'v) group"

section \<open>Sections\<close>

definition enqueue_answer :: "enqueuer \<Rightarrow> message_id \<Rightarrow> ('a, 'v) answer" where
  "enqueue_answer k i = (case k of ForEnqueue \<Rightarrow> AnswerId i | ForReprocess \<Rightarrow> AnswerBool True)"

text \<open>
  The code after \<^verbatim>\<open>resolve_failed_delivery(..).await\<close>: \<^verbatim>\<open>nack\<close> notifies and returns; the sweep logs an
  error, goes to the next lease, and in the end notifies everybody and lets \<^verbatim>\<open>claim\<close> go on.
\<close>

fun after_resolve :: "('a, 'v) resolver \<Rightarrow> unit io_result \<Rightarrow> ('a, 'v) group \<Rightarrow> ('a, 'v) progress" where
  "after_resolve ForNack (Inl e) g = (Inr (AnswerError e), g)"
| "after_resolve ForNack (Inr _) g = (Inr (AnswerBool True), cg_notify NotifyOne g)"
| "after_resolve (ForSweep []) _ g = (Inl Scan, cg_notify NotifyWaiters g)"
| "after_resolve (ForSweep ((i, lease) # expired)) _ g =
     (Inl (ResolveDelivery (ForSweep expired) i lease (Some ''visibility timeout expired'')), g)"

definition letter_of ::
  "message_id \<Rightarrow> ('a, 'v) leased \<Rightarrow> string option \<Rightarrow> timestamp \<Rightarrow> ('a, 'v) dead_letter" where
  "letter_of i lease reason now =
     \<lparr> dl_id = i, dl_idempotency_key = l_key lease, dl_item = l_item lease,
       dl_delivery_count = l_delivery_count lease, dl_last_error = reason, dl_dead_lettered_at = now,
       dl_checkpoint = l_checkpoint lease, dl_triage = None \<rparr>"

definition delayed_of :: "message_id \<Rightarrow> ('a, 'v) leased \<Rightarrow> instant \<Rightarrow> ('a, 'v) delayed" where
  "delayed_of i lease available_at =
     \<lparr> d_id = i, d_item = l_item lease, d_delivery_count = l_delivery_count lease,
       d_available_at = available_at, d_key = l_key lease, d_checkpoint = l_checkpoint lease \<rparr>"

definition resolve_section ::
  "section_env \<Rightarrow> ('a, 'v) resolver \<Rightarrow> message_id \<Rightarrow> ('a, 'v) leased \<Rightarrow> string option
   \<Rightarrow> ('a, 'v) group \<Rightarrow> ('a, 'v) progress" where
  "resolve_section env k i lease reason g =
     (if is_exhausted (g_retry_policy g) (l_delivery_count lease)
      then
        (let letter = letter_of i lease reason (se_timestamp env) in
         case dlq_log (DlqDeadLetter letter) (se_out env) (g_dlq g) of
           (Inl e, dlq) \<Rightarrow> after_resolve k (Inl e) (g \<lparr> g_dlq := dlq \<rparr>)
         | (Inr _, dlq) \<Rightarrow> (Inl (InsertLetter k letter), g \<lparr> g_dlq := dlq \<rparr>))
      else
        (case delay_for (se_draw env) (g_retry_policy g) (l_delivery_count lease) of
           None \<Rightarrow> (Inr AnswerPanic, g)
         | Some delay \<Rightarrow>
             after_resolve k (Inr ())
               (g \<lparr> g_delayed := g_delayed g @ [delayed_of i lease (se_now env + delay)] \<rparr>)))"

definition scan_section ::
  "(128 word \<Rightarrow> string) \<Rightarrow> section_env \<Rightarrow> ('a, 'v) group \<Rightarrow> ('a, 'v) progress" where
  "scan_section display env g =
     (let g = promote_ready_delayed (se_now env) g in
      case g_pending g of
        [] \<Rightarrow> (Inl (Waiting (earliest_wake g)), g)
      | p # rest \<Rightarrow>
          (let g' = cg_notify NotifyOne (grant_lease (se_lease_now env) p rest g) in
           case effective_idempotency_key display (p_id p) (p_key p) of
             None \<Rightarrow> (Inr AnswerPanic, g')
           | Some k \<Rightarrow>
               (Inr (AnswerClaim
                  \<lparr> c_id = p_id p, c_token = LeaseToken (g_next_lease_token g), c_key = k,
                    c_item = p_item p, c_delivery_count = p_delivery_count p + 1,
                    c_checkpoint = p_checkpoint p \<rparr>), g')))"

text \<open>
  A waiting claim may wake at any time: by its timer, by a notification, or for no reason. A
  notification sent right after an unlock counts to the section before it.
\<close>

fun section_of ::
  "(128 word \<Rightarrow> string) \<Rightarrow> section_env \<Rightarrow> ('a, 'v) task \<Rightarrow> ('a, 'v) group \<Rightarrow> ('a, 'v) progress" where
  "section_of display env (Reserve i key item) g =
     (case reserve_key i key g of
        (Some existing, g) \<Rightarrow> (Inr (AnswerId existing), g)
      | (None, g) \<Rightarrow> (Inl (WriteEnqueue ForEnqueue i key item), g))"
| "section_of display env (WriteEnqueue k i key item) g =
     (case cg_log (CgEnqueue i key item) (se_out env) g of
        (Inl e, g) \<Rightarrow> (case key of None \<Rightarrow> Inr (AnswerError e) | Some key \<Rightarrow> Inl (ReleaseFailed i key item e), g)
      | (Inr _, g) \<Rightarrow> (Inl (PushPending k i key item), g))"
| "section_of display env (ReleaseFailed i key item e) g = (Inr (AnswerError e), release_key (Some key) g)"
| "section_of display env (PushPending k i key item) g =
     (Inr (enqueue_answer k i), cg_notify NotifyOne (push_pending (fresh_pending i item key) g))"
| "section_of display env TakeExpired g =
     (case expired_leases (se_rank env) (se_now env) g of
        [] \<Rightarrow> (Inl Scan, g)
      | (i, lease) # expired \<Rightarrow>
          (Inl (ResolveDelivery (ForSweep expired) i lease (Some ''visibility timeout expired'')),
           remove_leases (i # map fst expired) g))"
| "section_of display env (ResolveDelivery k i lease reason) g = resolve_section env k i lease reason g"
| "section_of display env (InsertLetter k letter) g =
     (Inl (LogDeadLettered k (dl_id letter)),
      g \<lparr> g_dlq := g_dlq g \<lparr> dlq_entries := AList.update (dl_id letter) letter (dlq_entries (g_dlq g)) \<rparr> \<rparr>)"
| "section_of display env (LogDeadLettered k i) g =
     (case cg_log (CgDeadLettered i) (se_out env) g of (res, g) \<Rightarrow> after_resolve k res g)"
| "section_of display env Scan g = scan_section display env g"
| "section_of display env (Waiting wake_at) g = (Inl TakeExpired, g)"
| "section_of display env (TakeAck i token) g =
     (case ack_release i token g of
        (False, g) \<Rightarrow> (Inr (AnswerBool False), g)
      | (True, g) \<Rightarrow> (Inl (LogAck i), g))"
| "section_of display env (LogAck i) g =
     (case cg_log (CgAck i) (se_out env) g of
        (Inl e, g) \<Rightarrow> (Inr (AnswerError e), g)
      | (Inr _, g) \<Rightarrow> (Inr (AnswerBool True), g))"
| "section_of display env (TakeNack i token reason) g =
     (case take_lease i token g of
        (None, g) \<Rightarrow> (Inr (AnswerBool False), g)
      | (Some lease, g) \<Rightarrow> (Inl (ResolveDelivery ForNack i lease reason), g))"
| "section_of display env (CheckLease i token v) g =
     (if holds_lease i token g then Inl (LogCheckpoint i token v) else Inr (AnswerBool False), g)"
| "section_of display env (LogCheckpoint i token v) g =
     (case cg_log (CgCheckpoint i v) (se_out env) g of
        (Inl e, g) \<Rightarrow> (Inr (AnswerError e), g)
      | (Inr _, g) \<Rightarrow> (Inl (StoreCheckpoint i token v), g))"
| "section_of display env (StoreCheckpoint i token v) g =
     (case checkpoint_lease i token v g of (b, g) \<Rightarrow> (Inr (AnswerBool b), g))"
| "section_of display env (PublishChunk i token v is_final) g =
     (case publish_partial_result i token v is_final g of (sequence, g) \<Rightarrow> (Inr (AnswerSequence sequence), g))"
| "section_of display env (TakeLetter k i) g =
     (case map_of (dlq_entries (g_dlq g)) i of
        None \<Rightarrow> (Inr (AnswerBool False), g)
      | Some letter \<Rightarrow>
          (Inl (LogRemove k i letter),
           g \<lparr> g_dlq := g_dlq g \<lparr> dlq_entries := AList.delete i (dlq_entries (g_dlq g)) \<rparr> \<rparr>))"
| "section_of display env (LogRemove k i letter) g =
     (case dlq_log (DlqRemove i) (se_out env) (g_dlq g) of
        (Inl e, dlq) \<Rightarrow> (Inr (AnswerError e), g \<lparr> g_dlq := dlq \<rparr>)
      | (Inr _, dlq) \<Rightarrow>
          (case k of
             ToReprocess \<Rightarrow> Inl (WriteEnqueue ForReprocess (dl_id letter) (dl_idempotency_key letter) (dl_item letter))
           | ToPurge \<Rightarrow>
               (case dl_idempotency_key letter of
                  None \<Rightarrow> Inr (AnswerBool True)
                | Some _ \<Rightarrow> Inl (ReleaseLetterKey letter)),
           g \<lparr> g_dlq := dlq \<rparr>))"
| "section_of display env (ReleaseLetterKey letter) g =
     (Inr (AnswerBool True), release_key (dl_idempotency_key letter) g)"
| "section_of display env (CheckLetter i v) g =
     (if map_of (dlq_entries (g_dlq g)) i = None then Inr (AnswerBool False) else Inl (LogVerdict i v), g)"
| "section_of display env (LogVerdict i v) g =
     (case dlq_log (DlqAnnotate i v) (se_out env) (g_dlq g) of
        (Inl e, dlq) \<Rightarrow> (Inr (AnswerError e), g \<lparr> g_dlq := dlq \<rparr>)
      | (Inr _, dlq) \<Rightarrow> (Inl (StoreVerdict i v), g \<lparr> g_dlq := dlq \<rparr>))"
| "section_of display env (StoreVerdict i v) g =
     (case dlq_annotate_entry i v (g_dlq g) of (b, dlq) \<Rightarrow> (Inr (AnswerBool b), g \<lparr> g_dlq := dlq \<rparr>))"

section \<open>Methods\<close>

text \<open>The sections of one call with nobody in between: up to its answer, or up to where it waits.\<close>

fun run_alone ::
  "(128 word \<Rightarrow> string) \<Rightarrow> section_env list \<Rightarrow> ('a, 'v) task \<Rightarrow> ('a, 'v) group \<Rightarrow> ('a, 'v) progress" where
  "run_alone display [] t g = (Inl t, g)"
| "run_alone display (env # envs) t g =
     (case section_of display env t g of
        (Inl t', g') \<Rightarrow> run_alone display envs t' g'
      | (Inr a, g') \<Rightarrow> (Inr a, g'))"

lemma run_alone_append:
  "run_alone display es t g = (Inl t', g') \<Longrightarrow> run_alone display (es @ fs) t g = run_alone display fs t' g'"
  by (induction es arbitrary: t g) (auto split: prod.splits sum.splits)

fun call_task :: "('a, 'v) cg_call \<Rightarrow> ('a, 'v) task" where
  "call_task (GEnqueue i item key out) = Reserve i key item"
| "call_task (GClaim env) = TakeExpired"
| "call_task (GAck i token out) = TakeAck i token"
| "call_task (GNack env i token reason) = TakeNack i token reason"
| "call_task (GCheckpoint i token v out) = CheckLease i token v"
| "call_task (GPublish i token v is_final) = PublishChunk i token v is_final"
| "call_task (GAnnotate i v out) = CheckLetter i v"
| "call_task (GReprocess i dlq_out out) = TakeLetter ToReprocess i"
| "call_task (GPurge i dlq_out) = TakeLetter ToPurge i"

fun bool_answer :: "bool io_result \<Rightarrow> ('a, 'v) answer" where
  "bool_answer (Inl e) = AnswerError e"
| "bool_answer (Inr b) = AnswerBool b"

fun panic_answer :: "bool cg_result \<Rightarrow> ('a, 'v) answer" where
  "panic_answer (Inl (CgIo e)) = AnswerError e"
| "panic_answer (Inl CgPanic) = AnswerPanic"
| "panic_answer (Inr b) = AnswerBool b"

fun claim_answer :: "('a, 'v) claim_pass_result \<Rightarrow> ('a, 'v) task + ('a, 'v) answer" where
  "claim_answer (Claimed c) = Inr (AnswerClaim c)"
| "claim_answer (WaitUntil wake_at) = Inl (Waiting wake_at)"
| "claim_answer ClaimPanic = Inr AnswerPanic"

text \<open>What the method of \<open>Consumer_Group\<close> answers.\<close>

fun call_answer ::
  "(128 word \<Rightarrow> string) \<Rightarrow> ('a, 'v) cg_call \<Rightarrow> ('a, 'v) group \<Rightarrow> ('a, 'v) task + ('a, 'v) answer" where
  "call_answer display (GEnqueue i item key out) g =
     Inr (case fst (enqueue_with_id_and_key i item key out g) of Inl e \<Rightarrow> AnswerError e | Inr j \<Rightarrow> AnswerId j)"
| "call_answer display (GClaim env) g = claim_answer (fst (claim_pass display env g))"
| "call_answer display (GAck i token out) g = Inr (bool_answer (fst (cg_ack i token out g)))"
| "call_answer display (GNack env i token reason) g = Inr (panic_answer (fst (cg_nack env i token reason g)))"
| "call_answer display (GCheckpoint i token v out) g = Inr (bool_answer (fst (cg_checkpoint i token v out g)))"
| "call_answer display (GPublish i token v is_final) g =
     Inr (AnswerSequence (fst (publish_partial_result i token v is_final g)))"
| "call_answer display (GAnnotate i v out) g = Inr (bool_answer (fst (annotate_dead_letter i v out g)))"
| "call_answer display (GReprocess i dlq_out out) g = Inr (bool_answer (fst (reprocess_dead_letter i dlq_out out g)))"
| "call_answer display (GPurge i dlq_out) g = Inr (bool_answer (fst (purge_dead_letter i dlq_out g)))"

definition logging :: "log_outcome \<Rightarrow> section_env" where
  "logging out = \<lparr> se_rank = (\<lambda>_. 0), se_now = 0, se_lease_now = 0, se_draw = Fin 0, se_timestamp = Timestamp 0, se_out = out \<rparr>"

lemma se_out_logging [simp]: "se_out (logging out) = out"
  by (simp add: logging_def)

lemma enqueue_answer_simps [simp]:
  "enqueue_answer ForEnqueue i = AnswerId i" "enqueue_answer ForReprocess i = AnswerBool True"
  by (simp_all add: enqueue_answer_def)

lemma alone_write_enqueue:
  "\<exists>es. run_alone display es (WriteEnqueue k i key item) g =
     (Inr (case fst (write_enqueue_record i item key out g) of Inl e \<Rightarrow> AnswerError e | Inr j \<Rightarrow> enqueue_answer k j),
      snd (write_enqueue_record i item key out g))"
  by (rule exI [of _ "[logging out, logging out]"], cases rule: cg_log_cases [of out "CgEnqueue i key item" g])
    (simp_all add: write_enqueue_record_def release_key_def split: option.split)

lemma alone_step:
  assumes "section_of display env t g = (Inl t', g')" and "\<exists>es. run_alone display es t' g' = r"
  shows "\<exists>es. run_alone display es t g = r"
proof -
  obtain es where "run_alone display es t' g' = r" using assms(2) by blast
  then have "run_alone display (env # es) t g = r" using assms(1) by simp
  then show ?thesis by blast
qed

text \<open>Resolving one delivery, with the result of \<^const>\<open>resolve_failed_delivery\<close>.\<close>

lemma alone_resolve:
  assumes "resolve_failed_delivery env i (l_item lease) (l_delivery_count lease) (l_key lease) (l_checkpoint lease) reason g = (res, g')"
  shows "\<exists>es. \<forall>fs. run_alone display (es @ fs) (ResolveDelivery k i lease reason) g =
    (case res of
       Inl CgPanic \<Rightarrow> (Inr AnswerPanic, g')
     | Inl (CgIo e) \<Rightarrow>
         (case after_resolve k (Inl e) g' of (Inl t, g'') \<Rightarrow> run_alone display fs t g'' | (Inr a, g'') \<Rightarrow> (Inr a, g''))
     | Inr u \<Rightarrow>
         (case after_resolve k (Inr ()) g' of (Inl t, g'') \<Rightarrow> run_alone display fs t g'' | (Inr a, g'') \<Rightarrow> (Inr a, g'')))"
proof (cases "is_exhausted (g_retry_policy g) (l_delivery_count lease)")
  case False
  let ?env = "logging Logged \<lparr> se_draw := re_draw env, se_now := re_now env \<rparr>"
  show ?thesis
    using assms False
    by (intro exI [of _ "[?env]"])
      (auto simp: resolve_failed_delivery_def resolve_section_def delayed_of_def split: option.splits)
next
  case True
  let ?env = "logging (re_dlq_out env) \<lparr> se_timestamp := re_timestamp env \<rparr>"
  show ?thesis
  proof (cases "re_dlq_out env = Logged")
    case False
    then show ?thesis
      using assms True
      by (intro exI [of _ "[?env]"], cases "re_dlq_out env")
        (auto simp: resolve_failed_delivery_def resolve_section_def letter_of_def dlq_record_def dlq_log_def Let_def)
  next
    case logged: True
    let ?d = "letter_of i lease reason (re_timestamp env)"
    let ?g = "g \<lparr> g_dlq := (g_dlq g) \<lparr> dlq_wal := dlq_wal (g_dlq g) @ [DlqDeadLetter ?d],
      dlq_entries := AList.update i ?d (dlq_entries (g_dlq g)) \<rparr> \<rparr>"
    have "(res, g') = (case cg_log (CgDeadLettered i) (re_wal_out env) ?g of (Inl e, g) \<Rightarrow> (Inl (CgIo e), g) | (Inr _, g) \<Rightarrow> (Inr (), g))"
      using assms True logged
      by (simp add: resolve_failed_delivery_def dlq_record_def dlq_log_def letter_of_def)
    then show ?thesis
      using True logged
      by (intro exI [of _ "[?env, logging Logged, logging (re_wal_out env)]"],
          cases rule: cg_log_cases [of "re_wal_out env" "CgDeadLettered i" ?g])
        (auto simp: resolve_section_def dlq_log_def Let_def letter_of_def)
  qed
qed

lemma alone_sweep:
  assumes "resolve_all env ((i, lease) # expired) g = (res, g')"
  shows "\<exists>es. \<forall>fs. run_alone display (es @ fs)
      (ResolveDelivery (ForSweep expired) i lease (Some ''visibility timeout expired'')) g =
    (case res of Inl _ \<Rightarrow> (Inr AnswerPanic, g') | Inr _ \<Rightarrow> run_alone display fs Scan (cg_notify NotifyWaiters g'))"
  using assms
proof (induction expired arbitrary: i lease g)
  case Nil
  obtain r g1 where r: "resolve_failed_delivery (env i) i (l_item lease) (l_delivery_count lease) (l_key lease)
      (l_checkpoint lease) (Some ''visibility timeout expired'') g = (r, g1)" by fastforce
  from Nil r have "(res, g') = (if r = Inl CgPanic then (Inl CgPanic, g1) else (Inr (), g1))"
    by (simp split: sum.splits cg_error.splits)
  moreover obtain es where "run_alone display (es @ fs) (ResolveDelivery (ForSweep []) i lease (Some ''visibility timeout expired'')) g =
      (if r = Inl CgPanic then (Inr AnswerPanic, g1) else run_alone display fs Scan (cg_notify NotifyWaiters g1))" for fs
    using alone_resolve [OF r, of display "ForSweep []"] by (cases r; cases "projl r") auto
  ultimately show ?case by (intro exI [of _ es]) auto
next
  case (Cons il expired)
  obtain j next_lease where il: "il = (j, next_lease)" by (cases il)
  obtain r g1 where r: "resolve_failed_delivery (env i) i (l_item lease) (l_delivery_count lease) (l_key lease)
      (l_checkpoint lease) (Some ''visibility timeout expired'') g = (r, g1)" by fastforce
  obtain es where es: "run_alone display (es @ fs) (ResolveDelivery (ForSweep (il # expired)) i lease (Some ''visibility timeout expired'')) g =
      (if r = Inl CgPanic then (Inr AnswerPanic, g1)
       else run_alone display fs (ResolveDelivery (ForSweep expired) j next_lease (Some ''visibility timeout expired'')) g1)" for fs
    using alone_resolve [OF r, of display "ForSweep (il # expired)"]
    by (cases r; cases "projl r") (auto simp: il)
  show ?case
  proof (cases "r = Inl CgPanic")
    case True
    then have "res = Inl CgPanic" "g' = g1" using Cons.prems r by auto
    then show ?thesis using es True by (intro exI [of _ es]) simp
  next
    case False
    then have "resolve_all env ((j, next_lease) # expired) g1 = (res, g')"
      using Cons.prems r by (simp add: il split: sum.splits cg_error.splits)
    from Cons.IH [OF this] obtain es' where es': "run_alone display (es' @ fs)
        (ResolveDelivery (ForSweep expired) j next_lease (Some ''visibility timeout expired'')) g1 =
      (case res of Inl _ \<Rightarrow> (Inr AnswerPanic, g') | Inr _ \<Rightarrow> run_alone display fs Scan (cg_notify NotifyWaiters g'))" for fs
      by blast
    have "run_alone display ((es @ es') @ fs) (ResolveDelivery (ForSweep (il # expired)) i lease (Some ''visibility timeout expired'')) g =
      (case res of Inl _ \<Rightarrow> (Inr AnswerPanic, g') | Inr _ \<Rightarrow> run_alone display fs Scan (cg_notify NotifyWaiters g'))" for fs
      using es [of "es' @ fs"] es' [of fs] False by simp
    then show ?thesis by blast
  qed
qed

lemma alone_claim:
  "\<exists>es. run_alone display es TakeExpired g = (claim_answer (fst (claim_pass display env g)), snd (claim_pass display env g))"
proof -
  define expired where "expired = expired_leases (ce_rank env) (ce_reclaim_now env) g"
  let ?take = "logging Logged \<lparr> se_rank := ce_rank env, se_now := ce_reclaim_now env \<rparr>"
  let ?scan = "logging Logged \<lparr> se_now := ce_promote_now env, se_lease_now := ce_lease_now env \<rparr>"
  obtain res g1 where r: "reclaim_expired_leases (ce_rank env) (ce_reclaim_now env) (ce_resolve env) g = (res, g1)"
    by fastforce
  have "\<exists>es. \<forall>fs. run_alone display (es @ fs) TakeExpired g =
      (case res of Inl _ \<Rightarrow> (Inr AnswerPanic, g1) | Inr _ \<Rightarrow> run_alone display fs Scan g1)"
  proof (cases expired)
    case Nil
    then have "res = Inr ()" "g1 = g" using r by (auto simp: reclaim_expired_leases_def expired_def)
    then show ?thesis using Nil by (intro exI [of _ "[?take]"]) (simp add: expired_def)
  next
    case (Cons il rest)
    obtain i lease where il: "il = (i, lease)" by (cases il)
    let ?g = "remove_leases (i # map fst rest) g"
    obtain res' g2 where all: "resolve_all (ce_resolve env) ((i, lease) # rest) ?g = (res', g2)" by fastforce
    have "(res, g1) = (case res' of Inl e \<Rightarrow> (Inl e, g2) | Inr _ \<Rightarrow> (Inr (), cg_notify NotifyWaiters g2))"
      using r all Cons unfolding reclaim_expired_leases_def expired_def [symmetric] Cons il
      by (simp add: Let_def split: sum.splits)
    moreover obtain es where "run_alone display (es @ fs) (ResolveDelivery (ForSweep rest) i lease (Some ''visibility timeout expired'')) ?g =
        (case res' of Inl _ \<Rightarrow> (Inr AnswerPanic, g2) | Inr _ \<Rightarrow> run_alone display fs Scan (cg_notify NotifyWaiters g2))" for fs
      using alone_sweep [OF all] by blast
    ultimately show ?thesis
      using Cons by (intro exI [of _ "?take # es"]) (auto simp: expired_def il split: sum.splits)
  qed
  then obtain es where es: "run_alone display (es @ fs) TakeExpired g =
      (case res of Inl _ \<Rightarrow> (Inr AnswerPanic, g1) | Inr _ \<Rightarrow> run_alone display fs Scan g1)" for fs by blast
  have "run_alone display (es @ [?scan]) TakeExpired g = (claim_answer (fst (claim_pass display env g)), snd (claim_pass display env g))"
    unfolding es by (auto simp: r claim_pass_def scan_section_def logging_def Let_def split: sum.splits list.splits option.splits)
  then show ?thesis by blast
qed

lemma alone_nack:
  "\<exists>es. run_alone display es (TakeNack i token reason) g =
     (Inr (panic_answer (fst (cg_nack env i token reason g))), snd (cg_nack env i token reason g))"
proof (cases "take_lease i token g")
  case (Pair lease g1)
  show ?thesis
  proof (cases lease)
    case None
    then show ?thesis using Pair by (intro exI [of _ "[logging Logged]"]) (simp add: cg_nack_def)
  next
    case (Some l)
    obtain r g2 where r: "resolve_failed_delivery env i (l_item l) (l_delivery_count l) (l_key l) (l_checkpoint l) reason g1 = (r, g2)"
      by fastforce
    obtain es where "run_alone display (es @ []) (ResolveDelivery ForNack i l reason) g1 =
        (Inr (panic_answer (fst (cg_nack env i token reason g))), snd (cg_nack env i token reason g))"
      using alone_resolve [OF r, of display ForNack] Pair Some r
      by (cases r; cases "projl r") (auto simp: cg_nack_def)
    then show ?thesis
      using Pair Some by (intro exI [of _ "logging Logged # es"]) simp
  qed
qed

lemma alone_reprocess:
  "\<exists>es. run_alone display es (TakeLetter ToReprocess i) g =
     (Inr (bool_answer (fst (reprocess_dead_letter i dlq_out out g))), snd (reprocess_dead_letter i dlq_out out g))"
proof (cases "map_of (dlq_entries (g_dlq g)) i")
  case None
  then show ?thesis by (intro exI [of _ "[logging Logged]"]) (simp add: reprocess_dead_letter_def dlq_take_def)
next
  case (Some d)
  let ?q = "g_dlq g \<lparr> dlq_entries := AList.delete i (dlq_entries (g_dlq g)) \<rparr>"
  obtain r q where q: "dlq_log (DlqRemove i) dlq_out ?q = (r, q)" by fastforce
  have "\<exists>es. run_alone display es (LogRemove ToReprocess i d) (g \<lparr> g_dlq := ?q \<rparr>) =
    (Inr (bool_answer (fst (reprocess_dead_letter i dlq_out out g))), snd (reprocess_dead_letter i dlq_out out g))"
  proof (cases r)
    case (Inl e)
    then show ?thesis
      using Some q by (intro exI [of _ "[logging dlq_out]"]) (simp add: reprocess_dead_letter_def dlq_take_def)
  next
    case (Inr u)
    obtain es where es: "run_alone display es (WriteEnqueue ForReprocess (dl_id d) (dl_idempotency_key d) (dl_item d)) (g \<lparr> g_dlq := q \<rparr>) =
        (Inr (case fst (write_enqueue_record (dl_id d) (dl_item d) (dl_idempotency_key d) out (g \<lparr> g_dlq := q \<rparr>)) of
            Inl e \<Rightarrow> AnswerError e | Inr j \<Rightarrow> AnswerBool True),
         snd (write_enqueue_record (dl_id d) (dl_item d) (dl_idempotency_key d) out (g \<lparr> g_dlq := q \<rparr>)))"
      using alone_write_enqueue [of display ForReprocess "dl_id d" "dl_idempotency_key d" "dl_item d" "g \<lparr> g_dlq := q \<rparr>" out]
      unfolding enqueue_answer_simps by blast
    then show ?thesis
      using Some q Inr
      by (intro exI [of _ "logging dlq_out # es"])
        (auto simp: reprocess_dead_letter_def dlq_take_def split: sum.splits prod.splits)
  qed
  from alone_step [OF _ this, of "logging Logged"] Some show ?thesis by simp
qed

lemma call_alone:
  "\<exists>es. run_alone display es (call_task c) g = (call_answer display c g, cg_step display c g)"
proof (cases c)
  case (GEnqueue i item key out)
  show ?thesis
  proof (cases "reserve_key i key g")
    case (Pair existing g1)
    then show ?thesis
    proof (cases existing)
      case None
      have "section_of display (logging Logged) (Reserve i key item) g = (Inl (WriteEnqueue ForEnqueue i key item), g1)"
        using Pair None by simp
      from alone_step [OF this alone_write_enqueue [of display ForEnqueue i key item g1 out, unfolded enqueue_answer_simps]]
      show ?thesis using Pair None GEnqueue by (simp add: enqueue_with_id_and_key_def)
    next
      case (Some j)
      then show ?thesis
        using Pair GEnqueue by (intro exI [of _ "[logging Logged]"]) (simp add: enqueue_with_id_and_key_def)
    qed
  qed
next
  case (GClaim env)
  then show ?thesis using alone_claim [of display g env] by simp
next
  case (GAck i token out)
  then show ?thesis
    by (intro exI [of _ "[logging Logged, logging out]"])
      (auto simp: cg_ack_def split: prod.splits bool.splits sum.splits)
next
  case (GNack env i token reason)
  then show ?thesis using alone_nack [of display i token reason g env] by simp
next
  case (GCheckpoint i token v out)
  then show ?thesis
    by (intro exI [of _ "[logging Logged, logging out, logging Logged]"])
      (auto simp: cg_checkpoint_def split: prod.splits sum.splits)
next
  case (GPublish i token v is_final)
  then show ?thesis by (intro exI [of _ "[logging Logged]"]) (simp split: prod.splits)
next
  case (GAnnotate i v out)
  then show ?thesis
    by (intro exI [of _ "[logging Logged, logging out, logging Logged]"])
      (auto simp: annotate_dead_letter_def dlq_annotate_def split: prod.splits sum.splits)
next
  case (GReprocess i dlq_out out)
  then show ?thesis using alone_reprocess [of display i g dlq_out out] by simp
next
  case (GPurge i dlq_out)
  then show ?thesis
    by (intro exI [of _ "[logging Logged, logging dlq_out, logging Logged]"])
      (auto simp: purge_dead_letter_def dlq_take_def release_key_def split: prod.splits sum.splits option.splits)
qed


end
