(* ===== verification/Group_Crash.thy ===== *)
theory Group_Crash
  imports Group_Concurrency
begin

text \<open>
  A crash of the consumer group (\<^verbatim>\<open>crates/qaas-core/src/consumer_group.rs\<close>) while calls overlap. The
  invariant relates the two logs to the group and to the tasks in flight: the replay of the log holds the
  identifier of every live message, and once more for each record a task still owes it; one identifier
  names one message for ever; the letters in memory are in their log. So a restart brings every message
  of the group back, wherever the process ended.
\<close>

section \<open>What is in the logs\<close>

fun wal_record :: "('a, 'v) task \<Rightarrow> ('a, 'v) cg_record option" where
  "wal_record (WriteEnqueue k i key item) = Some (CgEnqueue i key item)"
| "wal_record (LogAck i) = Some (CgAck i)"
| "wal_record (LogDeadLettered k i) = Some (CgDeadLettered i)"
| "wal_record (LogCheckpoint i token v) = Some (CgCheckpoint i v)"
| "wal_record _ = None"

fun letter_records :: "('a, 'v) task \<Rightarrow> ('a, 'v) dlq_wal_record set" where
  "letter_records (ResolveDelivery k i lease reason) = {DlqDeadLetter (letter_of i lease reason now) | now. True}"
| "letter_records (LogRemove k i letter) = {DlqRemove i}"
| "letter_records (LogVerdict i v) = {DlqAnnotate i v}"
| "letter_records _ = {}"

lemma section_wal:
  assumes "section_of display env t g = (r, g')"
  shows "g_wal g' = g_wal g \<or> (\<exists>rec. wal_record t = Some rec \<and> g_wal g' = g_wal g @ [rec])"
proof (cases t)
  case (WriteEnqueue k i key item)
  then show ?thesis
    using assms by (cases rule: cg_log_cases [of "se_out env" "CgEnqueue i key item" g]) auto
next
  case (ResolveDelivery k i lease reason)
  then have "resolve_section env k i lease reason g = (r, g')" using assms by simp
  then have "g_wal g' = g_wal g" by (cases rule: resolve_section_cases) (auto simp: after_resolve_fields(3))
  then show ?thesis by simp
next
  case (LogDeadLettered k i)
  then show ?thesis
    using assms by (cases rule: cg_log_cases [of "se_out env" "CgDeadLettered i" g]) (auto simp: after_resolve_fields(3))
next
  case (LogAck i)
  then show ?thesis using assms by (cases rule: cg_log_cases [of "se_out env" "CgAck i" g]) auto
next
  case (LogCheckpoint i token v)
  then show ?thesis using assms by (cases rule: cg_log_cases [of "se_out env" "CgCheckpoint i v" g]) auto
next
  case Scan
  then have "g_wal g' = g_wal g"
    using assms by (auto elim!: scan_section_cases simp: promote_ready_delayed_def grant_lease_def)
  then show ?thesis by simp
qed (rule disjI1, use assms in \<open>auto simp: reserve_key_def push_pending_def release_key_def remove_leases_def ack_release_def take_lease_def
    checkpoint_lease_def update_lease_def publish_partial_result_def Let_def cg_notify_def
    split: prod.splits sum.splits option.splits list.splits if_splits bool.splits taker.splits\<close>)+

lemma section_dlq_wal:
  assumes "section_of display env t g = (r, g')"
  shows "dlq_wal (g_dlq g') = dlq_wal (g_dlq g) \<or> (\<exists>rec\<in>letter_records t. dlq_wal (g_dlq g') = dlq_wal (g_dlq g) @ [rec])"
proof (cases t)
  case (ResolveDelivery k i lease reason)
  then have "resolve_section env k i lease reason g = (r, g')" using assms by simp
  then show ?thesis
    by (cases rule: resolve_section_cases) (auto simp: ResolveDelivery after_resolve_fields(2))
next
  case (LogDeadLettered k i)
  then show ?thesis
    using assms by (cases rule: cg_log_cases [of "se_out env" "CgDeadLettered i" g]) (auto simp: after_resolve_fields(2))
next
  case (LogRemove k i letter)
  then show ?thesis using assms by (cases rule: dlq_log_cases [of "se_out env" "DlqRemove i" "g_dlq g"]) auto
next
  case (LogVerdict i v)
  then show ?thesis using assms by (cases rule: dlq_log_cases [of "se_out env" "DlqAnnotate i v" "g_dlq g"]) auto
next
  case Scan
  then have "g_dlq g' = g_dlq g"
    using assms by (auto elim!: scan_section_cases simp: promote_ready_delayed_def grant_lease_def)
  then show ?thesis by simp
qed (rule disjI1, use assms in \<open>auto simp: reserve_key_def push_pending_def release_key_def remove_leases_def ack_release_def take_lease_def
    checkpoint_lease_def update_lease_def publish_partial_result_def dlq_annotate_entry_def Let_def cg_log_def cg_notify_def
    split: prod.splits sum.splits option.splits list.splits if_splits bool.splits\<close>)+

lemma wal_msgs_removal_le:
  "wal_msgs (w @ [CgAck i]) \<subseteq> wal_msgs w" "wal_msgs (w @ [CgDeadLettered i]) \<subseteq> wal_msgs w"
  using set_remove_first_subset [of "\<lambda>p. p_id p = i" "fst (cg_replay w)"]
  by (auto simp: wal_msgs_def fst_replay_removal)

lemma section_wal_msgs:
  assumes "section_of display env t g = (r, g')"
  shows "wal_msgs (g_wal g') \<subseteq> wal_msgs (g_wal g) \<union> set_mset (carried t)"
proof (cases "g_wal g' = g_wal g")
  case False
  then obtain rec where "wal_record t = Some rec" "g_wal g' = g_wal g @ [rec]" using section_wal [OF assms] by blast
  then show ?thesis using wal_msgs_removal_le [of "g_wal g"] by (cases t) auto
qed simp

lemma letters_snoc:
  "letters (ws @ [DlqDeadLetter d]) \<subseteq> insert (letter_msg (dl_id d, d)) (letters ws)"
  "letters (ws @ [DlqRemove i]) \<subseteq> letters ws"
  "letters (ws @ [DlqAnnotate i v]) \<subseteq> letters ws"
proof -
  show "letters (ws @ [DlqDeadLetter d]) \<subseteq> insert (letter_msg (dl_id d, d)) (letters ws)"
    using set_update_subset [of "dl_id d" d "dlq_replay ws"] by (auto simp: letters_def dlq_replay_snoc)
  show "letters (ws @ [DlqRemove i]) \<subseteq> letters ws" by (auto simp: letters_def dlq_replay_snoc)
  show "letters (ws @ [DlqAnnotate i v]) \<subseteq> letters ws"
  proof (cases "map_of (dlq_replay ws) i")
    case (Some d)
    have "map letter_msg (AList.update i (d \<lparr> dl_triage := Some v \<rparr>) (dlq_replay ws)) = map letter_msg (dlq_replay ws)"
      by (rule map_update_same [OF Some]) (simp add: letter_msg_def)
    then have "letter_msg ` set (AList.update i (d \<lparr> dl_triage := Some v \<rparr>) (dlq_replay ws)) = letter_msg ` set (dlq_replay ws)"
      by (metis set_map)
    then show ?thesis using Some by (simp add: letters_def dlq_replay_snoc)
  qed (simp add: letters_def dlq_replay_snoc)
qed

lemma section_letters:
  assumes "section_of display env t g = (r, g')"
  shows "letters (dlq_wal (g_dlq g')) \<subseteq> letters (dlq_wal (g_dlq g)) \<union> set_mset (carried t)"
proof (cases "dlq_wal (g_dlq g') = dlq_wal (g_dlq g)")
  case False
  then obtain rec where rec: "rec \<in> letter_records t" "dlq_wal (g_dlq g') = dlq_wal (g_dlq g) @ [rec]"
    using section_dlq_wal [OF assms] by blast
  then show ?thesis
    using letters_snoc(1) [of "dlq_wal (g_dlq g)"] letters_snoc(2,3) [of "dlq_wal (g_dlq g)"]
    by (cases t) (auto dest!: subsetD [OF letters_snoc(1)] subsetD [OF letters_snoc(2)] subsetD [OF letters_snoc(3)])
qed simp

text \<open>No section makes a message that was not there: one identifier names one message for ever.\<close>

lemma section_used:
  assumes "section_of display env t g = (r, g')" and "messages_ok (g, add_mset t ts)"
  shows "used (g', remaining r + ts) \<subseteq> used (g, add_mset t ts)"
  using section_wal_msgs [OF assms(1)] section_letters [OF assms(1)] set_mset_mono [OF in_flight_step [OF assms]]
  by auto

section \<open>What a crash leaves\<close>

text \<open>
  The identifiers of the messages that the replay of the log has to bring back: those of the live messages
  and those a task owes the log a record for. The log holds each at least as often.
\<close>

fun left_ids :: "('a, 'v) resolver \<Rightarrow> message_id multiset" where
  "left_ids ForNack = {#}"
| "left_ids (ForSweep expired) = mset (map fst expired)"

fun owed :: "('a, 'v) task \<Rightarrow> message_id multiset" where
  "owed (PushPending k i key item) = {#i#}"
| "owed (ResolveDelivery k i lease reason) = add_mset i (left_ids k)"
| "owed (InsertLetter k letter) = add_mset (dl_id letter) (left_ids k)"
| "owed (LogDeadLettered k i) = add_mset i (left_ids k)"
| "owed (LogAck i) = {#i#}"
| "owed _ = {#}"

definition all_owed :: "('a, 'v) task multiset \<Rightarrow> message_id multiset" where
  "all_owed ts = (\<Sum>t\<in>#ts. owed t)"

lemma all_owed_simps [simp]:
  "all_owed {#} = {#}" "all_owed (add_mset t ts) = owed t + all_owed ts" "all_owed (ts + us) = all_owed ts + all_owed us"
  by (simp_all add: all_owed_def)

definition live_idm :: "('a, 'v) group \<Rightarrow> message_id multiset" where
  "live_idm g = mset (map fst (cg_live g))"

definition wal_idm :: "('a, 'v) cg_record list \<Rightarrow> message_id multiset" where
  "wal_idm w = mset (map p_id (fst (cg_replay w)))"

lemma mset_remove_first:
  "mset (map f (remove_first (\<lambda>p. f p = i) xs)) = mset (map f xs) - {#i#}"
  by (induction xs) auto

lemma wal_idm_simps [simp]:
  "wal_idm (w @ [CgEnqueue i key x]) = add_mset i (wal_idm w)"
  "wal_idm (w @ [CgAck i]) = wal_idm w - {#i#}"
  "wal_idm (w @ [CgDeadLettered i]) = wal_idm w - {#i#}"
  "wal_idm (w @ [CgCheckpoint i v]) = wal_idm w"
  by (cases "cg_replay w", simp add: wal_idm_def cg_replay_snoc fresh_pending_def)
    (simp_all only: wal_idm_def fst_replay_removal mset_remove_first, cases "cg_replay w", simp add: cg_replay_snoc)

lemma live_idm_cong: "cg_live g' = cg_live g \<Longrightarrow> live_idm g' = live_idm g"
  by (simp add: live_idm_def)

lemma live_idm_msgs:
  assumes "cg_msgs g = cg_msgs g' + M" and "g_dlq g' = g_dlq g"
  shows "live_idm g = live_idm g' + image_mset fst M"
proof -
  have "mset (cg_live g) = mset (cg_live g') + M"
    using assms by (simp add: cg_msgs_def cg_dead_def)
  then show ?thesis by (simp add: live_idm_def)
qed

lemma live_idm_simps [simp]:
  "live_idm (cg_notify n g) = live_idm g" "live_idm (release_key key g) = live_idm g"
  "live_idm (g \<lparr> g_wal := w \<rparr>) = live_idm g" "live_idm (g \<lparr> g_dlq := q \<rparr>) = live_idm g"
  by (simp_all add: live_idm_def)

lemma fst_lease_msg [simp]: "fst (lease_msg il) = fst il"
  by (simp add: lease_msg_def)

lemma after_resolve_owed:
  assumes "after_resolve k res g = (r, g')"
  shows "all_owed (remaining r) \<subseteq># left_ids k" and "live_idm g' = live_idm g"
  using assms
  by (cases "(k, res, g)" rule: after_resolve.cases; auto simp: all_owed_def)+

lemma subset_add_mset: "X \<subseteq># A \<Longrightarrow> X \<subseteq># add_mset i A"
  by (metis add_mset_add_single mset_subset_eq_add_left subset_mset.order_trans)

lemma add_mset_subset: "add_mset i X \<subseteq># A \<Longrightarrow> X \<subseteq># A" "add_mset i X \<subseteq># A \<Longrightarrow> X \<subseteq># A - {#i#}"
  by (simp_all add: insert_subset_eq_iff) (meson diff_subset_eq_self subset_mset.order_trans)

lemma take_lease_live:
  assumes "cg_inv g" and "take_lease i token g = (lease, g')"
  shows "live_idm g = live_idm g' + (case lease of None \<Rightarrow> {#} | Some l \<Rightarrow> {#i#})"
proof -
  have "g_dlq g' = g_dlq g" using assms(2) by (auto simp: take_lease_def split: option.splits if_splits)
  then show ?thesis
    using live_idm_msgs [OF take_lease_msgs [OF assms]] by (auto split: option.splits)
qed

text \<open>If the log covered the identifiers before a section, together with any others, it does so after it.\<close>

lemma section_owed:
  assumes "section_of display env t g = (r, g')" and "cg_inv g"
    and "live_idm g + owed t + M \<subseteq># wal_idm (g_wal g)"
  shows "live_idm g' + all_owed (remaining r) + M \<subseteq># wal_idm (g_wal g')"
proof -
  have weaken: "live_idm g' + all_owed (remaining r) + M \<subseteq># wal_idm (g_wal g')"
    if "live_idm g' + all_owed (remaining r) \<subseteq># live_idm g + owed t" "wal_idm (g_wal g) \<subseteq># wal_idm (g_wal g')"
    using that assms(3) by (meson subset_mset.add_right_mono subset_mset.order_trans)
  have same: "live_idm g' + all_owed (remaining r) + M \<subseteq># wal_idm (g_wal g')"
    if "live_idm g' + all_owed (remaining r) \<subseteq># live_idm g + owed t" "wal_record t = None"
    using weaken [OF that(1)] section_wal [OF assms(1)] that(2) by simp
  show ?thesis
  proof (cases t)
    case (Reserve i key item)
    then have "live_idm g' = live_idm g"
      using assms(1) by (auto simp: reserve_key_def live_idm_def cg_live_def split: option.splits)
    moreover have "all_owed (remaining r) = {#}" using Reserve assms(1) by (auto split: prod.splits option.splits)
    ultimately show ?thesis using same Reserve by simp
  next
    case (WriteEnqueue k i key item)
    then show ?thesis
      using assms(1,3)
      by (cases rule: cg_log_cases [of "se_out env" "CgEnqueue i key item" g])
        (auto split: option.splits intro: subset_add_mset)
  next
    case (PushPending k i key item)
    then have "live_idm g' = add_mset i (live_idm g)" "r = Inr (enqueue_answer k i)"
      using assms(1) by (auto simp: live_idm_def cg_live_def push_pending_def fresh_pending_def)
    then show ?thesis using same PushPending by simp
  next
    case TakeExpired
    have "live_idm g' + all_owed (remaining r) = live_idm g"
    proof (cases "expired_leases (se_rank env) (se_now env) g")
      case (Cons il expired)
      obtain i lease where il: "il = (i, lease)" by (cases il)
      have "live_idm g = live_idm (remove_leases (i # map fst expired) g) + image_mset fst (add_mset (lease_msg (i, lease)) (mset (map lease_msg expired)))"
        by (rule live_idm_msgs [OF take_expired_msgs [OF assms(2) Cons [unfolded il]]]) (simp add: remove_leases_def)
      moreover have "image_mset fst (mset (map lease_msg expired)) = mset (map fst expired)"
        by (simp add: multiset.map_comp comp_def flip: mset_map)
      ultimately show ?thesis using assms(1) TakeExpired Cons il by auto
    qed (use assms(1) TakeExpired in auto)
    then show ?thesis using same TakeExpired by simp
  next
    case (ResolveDelivery k i lease reason)
    then have "resolve_section env k i lease reason g = (r, g')" using assms(1) by simp
    then have "live_idm g' + all_owed (remaining r) \<subseteq># live_idm g + owed t"
    proof (cases rule: resolve_section_cases)
      case (failed e q)
      have "all_owed (remaining r) \<subseteq># add_mset i (left_ids k)"
        using after_resolve_owed(1) [OF failed(3)] by (rule subset_mset.order_trans) simp
      then show ?thesis using after_resolve_owed(2) [OF failed(3)] ResolveDelivery by simp
    next
      case (delayed t)
      have "live_idm g' = add_mset i (live_idm g)"
        using after_resolve_owed(2) [OF delayed] by (simp add: live_idm_def cg_live_def delayed_of_def)
      then show ?thesis using after_resolve_owed(1) [OF delayed] ResolveDelivery by simp
    qed (auto simp: ResolveDelivery)
    then show ?thesis using same ResolveDelivery by simp
  next
    case (LogDeadLettered k i)
    obtain res g1 where g1: "cg_log (CgDeadLettered i) (se_out env) g = (res, g1)" "after_resolve k res g1 = (r, g')"
      using LogDeadLettered assms(1) by (auto split: prod.splits)
    note aft = after_resolve_owed [OF g1(2)] after_resolve_fields(3) [OF g1(2)]
    have g1_cases: "g1 = g \<or> g1 = g \<lparr> g_wal := g_wal g @ [CgDeadLettered i] \<rparr>"
      using g1(1) by (cases rule: cg_log_cases [of "se_out env" "CgDeadLettered i" g]) auto
    then have live: "live_idm g' = live_idm g" using aft(2) by auto
    have sub: "add_mset i (live_idm g' + all_owed (remaining r) + M) \<subseteq># wal_idm (g_wal g)"
      using assms(3) aft(1) live LogDeadLettered
      by (intro subset_mset.order_trans [OF _ assms(3)]) simp
    have "g_wal g' = g_wal g \<or> g_wal g' = g_wal g @ [CgDeadLettered i]" using g1_cases aft(3) by auto
    then show ?thesis using add_mset_subset [OF sub] by auto
  next
    case (LogAck i)
    then have "add_mset i (live_idm g + M) \<subseteq># wal_idm (g_wal g)" using assms(3) by simp
    from add_mset_subset [OF this] show ?thesis
      using assms(1) LogAck by (cases rule: cg_log_cases [of "se_out env" "CgAck i" g]) auto
  next
    case Scan
    let ?g = "promote_ready_delayed (se_now env) g"
    have "scan_section display env g = (r, g')" using assms(1) Scan by simp
    then have "cg_msgs g' = cg_msgs g \<and> g_dlq g' = g_dlq g \<and> all_owed (remaining r) = {#}"
    proof (cases rule: scan_section_cases)
      case (granted p rest a)
      have "cg_inv ?g" using assms(2) by simp
      moreover have "g_dlq (grant_lease (se_lease_now env) p rest ?g) = g_dlq g"
        by (simp add: grant_lease_def promote_ready_delayed_def)
      ultimately show ?thesis using grant_lease_effect(1) [OF _ granted(1)] granted(2,3) by simp
    qed (simp_all, simp add: promote_ready_delayed_def)
    then have "live_idm g' + all_owed (remaining r) = live_idm g" using live_idm_msgs [of g g' "{#}"] by simp
    then show ?thesis using same Scan by simp
  next
    case (TakeAck i token)
    obtain lease g1 where take: "take_lease i token g = (lease, g1)" by fastforce
    then show ?thesis
      using same assms(1) TakeAck take_lease_live [OF assms(2) take]
      by (auto simp: ack_release_def split: option.splits)
  next
    case (TakeNack i token reason)
    obtain lease g1 where take: "take_lease i token g = (lease, g1)" by fastforce
    then show ?thesis
      using same assms(1) TakeNack take_lease_live [OF assms(2) take]
      by (auto split: option.splits)
  next
    case (LogCheckpoint i token v)
    then show ?thesis
      using assms(1,3) by (cases rule: cg_log_cases [of "se_out env" "CgCheckpoint i v" g]) auto
  next
    case (StoreCheckpoint i token v)
    have "cg_msgs g' = cg_msgs g" "g_dlq g' = g_dlq g" "all_owed (remaining r) = {#}"
      using assms(1) StoreCheckpoint update_lease_msgs [of "\<lambda>l. l \<lparr> l_checkpoint := Some v \<rparr>" i g]
      by (auto simp: checkpoint_lease_def update_lease_def split: if_splits option.splits)
    then show ?thesis using same StoreCheckpoint live_idm_msgs [of g g' "{#}"] by simp
  next
    case (PublishChunk i token v is_final)
    obtain s where "publish_partial_result i token v is_final g = (s, g')" "r = Inr (AnswerSequence s)"
      using assms(1) PublishChunk by (auto split: prod.splits)
    moreover from this(1) have "g_dlq g' = g_dlq g"
      by (auto simp: publish_partial_result_def Let_def split: option.splits if_splits)
    ultimately show ?thesis
      using same PublishChunk publish_msgs_eq live_idm_msgs [of g g' "{#}"] by fastforce
  qed (rule same; insert assms(1); auto split: prod.splits sum.splits option.splits if_splits taker.splits)+
qed

text \<open>The letters in memory, and those a task is about to put there, are in their log.\<close>

fun inserting :: "('a, 'v) task \<Rightarrow> message_id set" where
  "inserting (InsertLetter k letter) = {dl_id letter}"
| "inserting _ = {}"

definition letters_logged :: "('a, 'v) config \<Rightarrow> bool" where
  "letters_logged c \<longleftrightarrow> (case c of (g, ts) \<Rightarrow>
     fst ` set (dlq_entries (g_dlq g)) \<union> (\<Union>t\<in>set_mset ts. inserting t) \<subseteq> dom (map_of (dlq_replay (dlq_wal (g_dlq g)))))"

lemma after_resolve_inserting: "after_resolve k res g = (r, g') \<Longrightarrow> t \<in># remaining r \<Longrightarrow> inserting t = {}"
  by (cases "(k, res, g)" rule: after_resolve.cases) auto

lemma section_inserts:
  assumes "section_of display env t g = (r, g')"
  shows "fst ` set (dlq_entries (g_dlq g')) \<subseteq> fst ` set (dlq_entries (g_dlq g)) \<union> inserting t"
    and "t' \<in># remaining r \<Longrightarrow> inserting t' = {} \<or>
      (\<exists>letter. inserting t' = {dl_id letter} \<and> dlq_wal (g_dlq g') = dlq_wal (g_dlq g) @ [DlqDeadLetter letter])"
proof -
  have "fst ` set (dlq_entries (g_dlq g')) \<subseteq> fst ` set (dlq_entries (g_dlq g)) \<union> inserting t \<and>
    (\<forall>t'\<in>#remaining r. inserting t' = {} \<or>
      (\<exists>letter. inserting t' = {dl_id letter} \<and> dlq_wal (g_dlq g') = dlq_wal (g_dlq g) @ [DlqDeadLetter letter]))"
  proof (cases t)
    case (ResolveDelivery k i lease reason)
    then have "resolve_section env k i lease reason g = (r, g')" using assms by simp
    then show ?thesis
      by (cases rule: resolve_section_cases) (auto simp: after_resolve_fields(2) dest: after_resolve_inserting)
  next
    case (LogDeadLettered k i)
    then show ?thesis
      using assms by (cases rule: cg_log_cases [of "se_out env" "CgDeadLettered i" g])
        (auto simp: after_resolve_fields(2) dest: after_resolve_inserting)
  next
    case Scan
    then show ?thesis
      using assms by (auto elim!: scan_section_cases simp: promote_ready_delayed_def grant_lease_def)
  next
    case (InsertLetter k letter)
    then show ?thesis using assms set_update_subset [of "dl_id letter" letter "dlq_entries (g_dlq g)"] by auto
  next
    case (LogRemove k i letter)
    then show ?thesis
      using assms by (cases rule: dlq_log_cases [of "se_out env" "DlqRemove i" "g_dlq g"])
        (auto split: taker.splits option.splits)
  next
    case (LogVerdict i v)
    then show ?thesis
      using assms by (cases rule: dlq_log_cases [of "se_out env" "DlqAnnotate i v" "g_dlq g"]) auto
  next
    case (StoreVerdict i v)
    show ?thesis
    proof (cases "map_of (dlq_entries (g_dlq g)) i")
      case None
      then show ?thesis using assms StoreVerdict by (auto simp: dlq_annotate_entry_def)
    next
      case (Some d)
      then have "i \<in> fst ` set (dlq_entries (g_dlq g))" by (force dest: map_of_SomeD)
      moreover have "r = Inr (AnswerBool True)"
        "dlq_entries (g_dlq g') = AList.update i (d \<lparr> dl_triage := Some v \<rparr>) (dlq_entries (g_dlq g))"
        using assms StoreVerdict Some by (auto simp: dlq_annotate_entry_def)
      ultimately show ?thesis by (simp add: keys_update insert_absorb)
    qed
  qed (use assms in \<open>auto simp: reserve_key_def push_pending_def release_key_def remove_leases_def ack_release_def take_lease_def
    checkpoint_lease_def update_lease_def publish_partial_result_def Let_def cg_log_def cg_notify_def
    split: prod.splits sum.splits option.splits list.splits if_splits bool.splits\<close>)
  then show "fst ` set (dlq_entries (g_dlq g')) \<subseteq> fst ` set (dlq_entries (g_dlq g)) \<union> inserting t"
    and "t' \<in># remaining r \<Longrightarrow> inserting t' = {} \<or>
      (\<exists>letter. inserting t' = {dl_id letter} \<and> dlq_wal (g_dlq g') = dlq_wal (g_dlq g) @ [DlqDeadLetter letter])" by blast+
qed

lemma inserting_carried: "i \<in> inserting t \<Longrightarrow> i \<in> fst ` set_mset (carried t)"
  by (cases t) (auto simp: letter_msg_def)

lemma in_flight_mem: "t \<in># ts \<Longrightarrow> m \<in># carried t \<Longrightarrow> m \<in># in_flight ts"
  by (auto simp: in_flight_def)

lemma letters_logged_section:
  assumes "section_of display env t g = (r, g')" and "messages_ok (g, add_mset t ts)" and "letters_logged (g, add_mset t ts)"
  shows "letters_logged (g', remaining r + ts)"
proof -
  let ?ids = "\<lambda>q. dom (map_of (dlq_replay (dlq_wal q)))"
  let ?before = "fst ` set (dlq_entries (g_dlq g)) \<union> inserting t \<union> (\<Union>t\<in>set_mset ts. inserting t)"
  let ?after = "fst ` set (dlq_entries (g_dlq g')) \<union> (\<Union>t\<in>set_mset ts. inserting t)"
  have before: "?before \<subseteq> ?ids (g_dlq g)" using assms(3) by (auto simp: letters_logged_def)
  have after: "?after \<subseteq> ?before" using section_inserts(1) [OF assms(1)] by auto
  have "?after \<subseteq> ?ids (g_dlq g')"
  proof (cases "dlq_wal (g_dlq g') = dlq_wal (g_dlq g)")
    case False
    then obtain rec where rec: "rec \<in> letter_records t" "dlq_wal (g_dlq g') = dlq_wal (g_dlq g) @ [rec]"
      using section_dlq_wal [OF assms(1)] by blast
    show ?thesis
    proof (cases rec)
      case (DlqRemove i)
      then obtain k letter where t: "t = LogRemove k i letter" using rec(1) by (cases t) auto
      have "unique_ids (add_mset (letter_msg (i, letter)) (cg_msgs g + in_flight ts))"
        using assms(2) by (simp add: messages_ok_def t)
      then have fresh: "i \<notin> fst ` set_mset (cg_msgs g + in_flight ts)" by (simp add: unique_ids_add letter_msg_def)
      have "i \<notin> fst ` set (dlq_entries (g_dlq g'))"
      proof -
        have "i \<notin> fst ` set (dlq_entries (g_dlq g))" using fresh dead_ids [of g] by (auto simp: cg_ids_def)
        then show ?thesis using section_inserts(1) [OF assms(1)] t by auto
      qed
      moreover have "i \<notin> inserting t'" if "t' \<in># ts" for t'
        using fresh inserting_carried [of i t'] in_flight_mem [OF that] by (auto simp: image_iff)
      ultimately have "?after \<subseteq> ?ids (g_dlq g) - {i}" using after before by blast
      moreover have "?ids (g_dlq g') = ?ids (g_dlq g) - {i}" by (simp add: rec(2) dlq_replay_snoc dom_dlq_apply DlqRemove)
      ultimately show ?thesis by blast
    next
      case (DlqDeadLetter letter)
      then have "?ids (g_dlq g) \<subseteq> ?ids (g_dlq g')" by (auto simp only: rec(2) dlq_replay_snoc dom_dlq_apply dlq_wal_record.case)
      then show ?thesis using after before by blast
    next
      case (DlqAnnotate i v)
      then have "?ids (g_dlq g') = ?ids (g_dlq g)" by (simp only: rec(2) dlq_replay_snoc dom_dlq_apply dlq_wal_record.case)
      then show ?thesis using after before by blast
    qed
  next
    case True
    then have "?ids (g_dlq g') = ?ids (g_dlq g)" by simp
    then show ?thesis using after before by blast
  qed
  moreover have "inserting t' \<subseteq> ?ids (g_dlq g')" if "t' \<in># remaining r" for t'
    using section_inserts(2) [OF assms(1) that] by (auto simp: dlq_replay_snoc dom_dlq_apply)
  ultimately show ?thesis by (auto simp: letters_logged_def)
qed

section \<open>The invariant of every run\<close>

definition config_ok :: "('a, 'v) config \<Rightarrow> bool" where
  "config_ok c \<longleftrightarrow> messages_ok c \<and> inj_on fst (used c) \<and>
     live_idm (fst c) + all_owed (snd c) \<subseteq># wal_idm (g_wal (fst c)) \<and> letters_logged c"

lemma used_begun:
  assumes "begins t (g, ts)"
  shows "used (g, add_mset t ts) = used (g, ts) \<union> set_mset (carried t)"
  by auto

lemma config_ok_step:
  assumes "group_step display e c c'" and "config_ok c"
  shows "config_ok c'"
proof -
  have messages: "messages_ok c'" using messages_ok_step [OF assms(1)] assms(2) by (simp add: config_ok_def)
  from assms(1) show ?thesis
  proof (cases rule: group_step_cases)
    case (began t g ts)
    have "inj_on fst (used (g, add_mset t ts))"
    proof (cases "carried t = {#}")
      case True
      then show ?thesis using assms(2) began(2) by (simp add: config_ok_def)
    next
      case False
      then obtain i key item where t: "t = Reserve i key item" using begun_task_ok [OF began(4)] by blast
      then have "i \<notin> fst ` used (g, ts)" using began(2,4) by simp
      moreover have "used (g, add_mset t ts) = insert (i, key, item) (used (g, ts))"
        using used_begun [OF began(4) [unfolded began(2)]] by (simp add: t)
      ultimately show ?thesis using assms(2) began(2) by (auto simp: config_ok_def inj_on_insert)
    qed
    moreover have "owed t = {#}" "inserting t = {}" using began(4) by (cases t; simp)+
    ultimately show ?thesis
      using assms(2) messages began(2,3) by (simp add: config_ok_def letters_logged_def)
  next
    case (ran env t r g g' ts)
    have ok: "messages_ok (g, add_mset t ts)" using assms(2) ran(2) by (simp add: config_ok_def)
    have "inj_on fst (used (g', remaining r + ts))"
      using section_used [OF ran(4) ok] assms(2) ran(2) inj_on_subset by (fastforce simp: config_ok_def)
    moreover have "live_idm g' + all_owed (remaining r) + all_owed ts \<subseteq># wal_idm (g_wal g')"
      using section_owed [OF ran(4) messages_ok_inv [OF ok], of "all_owed ts"] assms(2) ran(2)
      by (simp add: config_ok_def add.assoc)
    moreover have "letters_logged (g', remaining r + ts)"
      using letters_logged_section [OF ran(4) ok] assms(2) ran(2) by (simp add: config_ok_def)
    ultimately show ?thesis using messages ran(3) by (simp add: config_ok_def add.assoc)
  next
    case (dropped t g ts)
    have "inj_on fst (used c')"
      by (rule inj_on_subset [of _ "used c"]) (use assms(2) in \<open>auto simp: config_ok_def dropped\<close>)
    moreover have "live_idm g + all_owed ts \<subseteq># live_idm g + (owed t + all_owed ts)" by simp
    then have "live_idm g + all_owed ts \<subseteq># wal_idm (g_wal g)"
      by (rule subset_mset.order_trans) (use assms(2) dropped(2) in \<open>simp add: config_ok_def\<close>)
    ultimately show ?thesis
      using assms(2) messages dropped(2,3) by (simp add: config_ok_def letters_logged_def)
  qed
qed

lemma config_ok_run:
  assumes "group_run display c0 es c" and "config_ok c0"
  shows "config_ok c"
  using assms by (induction rule: group_run.induct) (auto intro: config_ok_step)

lemma config_ok_open:
  assumes "cg_open vt rp rank (Inr []) (Inr []) = Inr g0"
  shows "config_ok (g0, {#})"
  using messages_ok_open [OF assms] assms
  by (auto simp: config_ok_def letters_logged_def live_idm_def cg_live_def cg_dead_def cg_msgs_def wal_msgs_def letters_def
      cg_open_def cg_replay_def dlq_open_def dlq_replay_def)

section \<open>A crash at any point\<close>

text \<open>The messages a call has taken out of the group, or not yet put in, and that the log holds.\<close>

fun recoverable :: "('a, 'v) task \<Rightarrow> 'a msg multiset" where
  "recoverable (PushPending k i key item) = {#(i, key, item)#}"
| "recoverable (ResolveDelivery k i lease reason) = add_mset (lease_msg (i, lease)) (left_over k)"
| "recoverable (InsertLetter k letter) = add_mset (letter_msg (dl_id letter, letter)) (left_over k)"
| "recoverable (LogDeadLettered k i) = left_over k"
| "recoverable _ = {#}"

lemma left_over_ids: "fst ` set_mset (left_over k) = set_mset (left_ids k)"
  by (cases k) (auto simp: image_image lease_msg_def)

lemma recoverable_owed: "m \<in># recoverable t \<Longrightarrow> fst m \<in># owed t \<and> m \<in># carried t"
  using left_over_ids by (cases t) (auto simp: letter_msg_def)

lemma wal_msgs_ids: "fst ` wal_msgs w = set_mset (wal_idm w)"
  by (force simp: wal_msgs_def wal_idm_def)

lemma config_ok_logged:
  assumes "config_ok (g, ts)" and "m \<in> set (cg_live g) \<or> (\<exists>t\<in>#ts. m \<in># recoverable t)"
  shows "m \<in> wal_msgs (g_wal g)"
proof -
  have "fst m \<in># live_idm g + all_owed ts \<and> m \<in> used (g, ts)"
    using assms(2)
  proof
    assume "m \<in> set (cg_live g)"
    then show ?thesis by (auto simp: live_idm_def cg_msgs_def)
  next
    assume "\<exists>t\<in>#ts. m \<in># recoverable t"
    then obtain t where "t \<in># ts" "fst m \<in># owed t" "m \<in># carried t" using recoverable_owed by blast
    then show ?thesis using in_flight_mem [of t ts m] by (auto simp: all_owed_def)
  qed
  moreover from this have "fst m \<in> fst ` wal_msgs (g_wal g)"
    using assms(1) unfolding wal_msgs_ids by (auto simp: config_ok_def dest: mset_subset_eqD)
  then obtain m' where "m' \<in> wal_msgs (g_wal g)" "fst m' = fst m" by auto
  moreover have "inj_on fst (used (g, ts))" using assms(1) by (simp add: config_ok_def)
  ultimately show ?thesis by (metis inj_onD UnI1 used.simps)
qed


text \<open>A second enqueue has written its record and has not pushed its message when the process ends.\<close>

definition sample_cut :: "(string, string) group" where
  "sample_cut = sample_leased \<lparr> g_wal := g_wal sample_leased @ [CgEnqueue (MessageId 2) None ''next''] \<rparr>"

lemma sample_run_cut:
  "\<exists>evs. group_run sample_display (sample_group, {#}) evs (sample_cut, {#PushPending ForEnqueue (MessageId 2) None ''next''#})"
proof -
  have "run_alone sample_display [logging Logged, logging Logged] (Reserve (MessageId 2) None ''next'') sample_leased =
      (Inl (PushPending ForEnqueue (MessageId 2) None ''next''), sample_cut)"
    by (simp add: reserve_key_def cg_log_def sample_cut_def)
  from run_alone_run [OF this, of "{#}"] obtain evs where
    "group_run sample_display (sample_leased, {#Reserve (MessageId 2) None ''next''#}) evs
      (sample_cut, {#PushPending ForEnqueue (MessageId 2) None ''next''#})" by auto
  then show ?thesis using sample_run_overlap group_run_trans by blast
qed


end
