(* ===== verification/Group_Overlap.thy ===== *)
theory Group_Overlap
  imports Group_Concurrency
begin

text \<open>
  Leases and termination of the consumer group (\<^verbatim>\<open>crates/qaas-core/src/consumer_group.rs\<close>) while calls
  overlap: nobody but the holder ends a lease before it expires, nobody else is given its message, and
  in whatever order the sections run, the calls in flight end or wait for a message.
\<close>

section \<open>Leases\<close>

definition same_lease :: "('a, 'v) leased \<Rightarrow> ('a, 'v) leased \<Rightarrow> bool" where
  "same_lease l l' \<longleftrightarrow> l_token l' = l_token l \<and> l_expires_at l' = l_expires_at l \<and> l_item l' = l_item l \<and>
     l_key l' = l_key l \<and> l_delivery_count l' = l_delivery_count l"

text \<open>
  The events that could end a lease: a sweep at or after its expiry, an \<^verbatim>\<open>ack\<close> or \<^verbatim>\<open>nack\<close> with its token.
\<close>

fun spares :: "message_id \<Rightarrow> ('a, 'v) leased \<Rightarrow> ('a, 'v) event \<Rightarrow> bool" where
  "spares i l (Ran env TakeExpired r) \<longleftrightarrow> se_now env < l_expires_at l"
| "spares i l (Ran env (TakeAck j token) r) \<longleftrightarrow> (j, token) \<noteq> (i, l_token l)"
| "spares i l (Ran env (TakeNack j token reason) r) \<longleftrightarrow> (j, token) \<noteq> (i, l_token l)"
| "spares i l _ \<longleftrightarrow> True"

lemma same_lease_refl [simp]: "same_lease l l"
  by (simp add: same_lease_def)

lemma same_lease_trans: "same_lease l l' \<Longrightarrow> same_lease l' l'' \<Longrightarrow> same_lease l l''"
  by (simp add: same_lease_def)

lemma take_lease_other:
  assumes "take_lease j token g = (lease, g')" and "map_of (g_leased g) i = Some l" and "(j, token) \<noteq> (i, l_token l)"
  shows "map_of (g_leased g') i = Some l"
  using assms by (auto simp: take_lease_def split: option.splits if_splits)

lemma unexpired_stays:
  assumes "cg_inv g" and "map_of (g_leased g) i = Some l" and "now < l_expires_at l"
    and "expired_leases rank now g = il # expired"
  shows "map_of (g_leased (remove_leases (fst il # map fst expired) g)) i = Some l"
proof -
  have "i \<notin> fst ` set (expired_leases rank now g)"
  proof
    assume "i \<in> fst ` set (expired_leases rank now g)"
    then obtain l' where l': "(i, l') \<in> set (g_leased g)" "l_expires_at l' \<le> now"
      by (auto simp: expired_leases_def)
    then have "map_of (g_leased g) i = Some l'" using cg_inv_leased [OF assms(1)] by (simp add: hm_lookup_iff)
    with l'(2) assms(2,3) show False by simp
  qed
  then have "i \<notin> set (fst il # map fst expired)" unfolding assms(4) by simp
  then show ?thesis
    using assms(2) unfolding remove_leases_def by (simp add: fold_delete map_of_filter_notin)
qed

lemma section_keeps_lease:
  assumes "section_of display env t g = (r, g')" and "cg_inv g" and "map_of (g_leased g) i = Some l"
    and "spares i l (Ran env t r)"
  shows "(\<exists>l'. map_of (g_leased g') i = Some l' \<and> same_lease l l') \<and> (\<forall>c. r = Inr (AnswerClaim c) \<longrightarrow> c_id c \<noteq> i)"
proof (cases t)
  case TakeExpired
  then show ?thesis
    using assms unexpired_stays [OF assms(2,3), of "se_now env" "se_rank env"]
    by (auto split: list.splits)
next
  case (ResolveDelivery k j lease reason)
  then have "resolve_section env k j lease reason g = (r, g')" using assms(1) by simp
  then have "g_leased g' = g_leased g" by (cases rule: resolve_section_cases) (auto simp: after_resolve_fields(5))
  moreover have "r \<noteq> Inr (AnswerClaim c)" for c
    using \<open>resolve_section env k j lease reason g = (r, g')\<close>
    by (cases rule: resolve_section_cases) (auto elim!: after_resolve.elims)
  ultimately show ?thesis using assms(3) by simp
next
  case (LogDeadLettered k j)
  obtain res g1 where g1: "cg_log (CgDeadLettered j) (se_out env) g = (res, g1)" "after_resolve k res g1 = (r, g')"
    using LogDeadLettered assms(1) by (auto split: prod.splits)
  then have "g_leased g' = g_leased g"
    using g_fields_log(3) [of "CgDeadLettered j" "se_out env" g] by (simp add: after_resolve_fields(5) [OF g1(2)])
  moreover have "r \<noteq> Inr (AnswerClaim c)" for c using g1(2) by (auto elim!: after_resolve.elims)
  ultimately show ?thesis using assms(3) by simp
next
  case Scan
  let ?g = "promote_ready_delayed (se_now env) g"
  have l: "map_of (g_leased ?g) i = Some l" using assms(3) by (simp add: promote_ready_delayed_def)
  have "scan_section display env g = (r, g')" using assms(1) Scan by simp
  then show ?thesis
  proof (cases rule: scan_section_cases)
    case (granted p rest a)
    have "p_id p \<noteq> i"
      using pending_not_leased [of ?g p] granted(1) assms(2) map_of_SomeD [OF l] by force
    then show ?thesis using granted l by (auto simp: grant_lease_def)
  qed (use l in auto)
next
  case (TakeAck j token)
  then show ?thesis
    using assms take_lease_other [of j token g _ _ i l]
    by (auto simp: ack_release_def release_key_def split: prod.splits option.splits)
next
  case (TakeNack j token reason)
  then show ?thesis
    using assms take_lease_other [of j token g _ _ i l] by (auto split: prod.splits option.splits)
next
  case (StoreCheckpoint j token v)
  then show ?thesis
    using assms(1,3) by (auto simp: checkpoint_lease_def update_lease_def same_lease_def split: if_splits option.splits)
next
  case (PublishChunk j token v is_final)
  then show ?thesis
    using assms(1,3) by (auto simp: publish_partial_result_def Let_def same_lease_def split: if_splits option.splits)
qed (use assms(1,3) in \<open>auto simp: reserve_key_def push_pending_def release_key_def cg_log_def cg_notify_def enqueue_answer_def
    split: prod.splits sum.splits option.splits list.splits if_splits bool.splits enqueuer.splits taker.splits\<close>)

lemma spares_same: "same_lease l l' \<Longrightarrow> spares i l' e \<longleftrightarrow> spares i l e"
  by (cases "(i, l, e)" rule: spares.cases) (auto simp: same_lease_def)

lemma step_keeps_lease:
  assumes "group_step display e c c'" and "messages_ok c" and "map_of (g_leased (fst c)) i = Some l" and "spares i l e"
  shows "(\<exists>l'. map_of (g_leased (fst c')) i = Some l' \<and> same_lease l l') \<and>
    (\<forall>env t cl. e = Ran env t (Inr (AnswerClaim cl)) \<longrightarrow> c_id cl \<noteq> i)"
  using assms(1)
proof (cases rule: group_step_cases)
  case (ran env t r g g' ts)
  then show ?thesis
    using section_keeps_lease [OF ran(4) messages_ok_inv [OF assms(2) [unfolded ran(2)]]] assms(3,4) by auto
qed (use assms(3) in auto)

lemma run_keeps_lease:
  assumes "group_run display c es c'" and "messages_ok c" and "map_of (g_leased (fst c)) i = Some l"
    and "\<forall>e\<in>set es. spares i l e"
  shows "(\<exists>l'. map_of (g_leased (fst c')) i = Some l' \<and> same_lease l l') \<and>
    (\<forall>env t cl. Ran env t (Inr (AnswerClaim cl)) \<in> set es \<longrightarrow> c_id cl \<noteq> i)"
  using assms(1,4)
proof (induction rule: group_run.induct)
  case run_none
  then show ?case using assms(3) by auto
next
  case (run_more es c' e c'')
  then obtain l' where l': "map_of (g_leased (fst c')) i = Some l'" "same_lease l l'" by auto
  have "messages_ok c'" using messages_ok_run [OF run_more(1) assms(2)] .
  from step_keeps_lease [OF run_more(2) this l'(1)] run_more(4) spares_same [OF l'(2)]
  have "(\<exists>l''. map_of (g_leased (fst c'')) i = Some l'' \<and> same_lease l' l'') \<and>
    (\<forall>env t cl. e = Ran env t (Inr (AnswerClaim cl)) \<longrightarrow> c_id cl \<noteq> i)" by simp
  then show ?case using run_more(3,4) same_lease_trans [OF l'(2)] by auto
qed


section \<open>Every call ends or waits\<close>

text \<open>
  A bound on the sections a task has ahead of it, but for the number of leases its sweep will find, which
  the first component stands for.
\<close>

fun deliveries_left :: "('a, 'v) resolver \<Rightarrow> nat" where
  "deliveries_left ForNack = 0"
| "deliveries_left (ForSweep expired) = 2 + 3 * length expired"

fun sections_left :: "('a, 'v) task \<Rightarrow> nat \<times> nat" where
  "sections_left (Reserve i key item) = (0, 4)"
| "sections_left (WriteEnqueue k i key item) = (0, 3)"
| "sections_left (ReleaseFailed i key item e) = (0, 1)"
| "sections_left (PushPending k i key item) = (0, 1)"
| "sections_left TakeExpired = (1, 0)"
| "sections_left (ResolveDelivery k i lease reason) = (0, 3 + deliveries_left k)"
| "sections_left (InsertLetter k letter) = (0, 2 + deliveries_left k)"
| "sections_left (LogDeadLettered k i) = (0, 1 + deliveries_left k)"
| "sections_left Scan = (0, 1)"
| "sections_left (Waiting wake_at) = (0, 0)"
| "sections_left (TakeAck i token) = (0, 2)"
| "sections_left (LogAck i) = (0, 1)"
| "sections_left (TakeNack i token reason) = (0, 4)"
| "sections_left (CheckLease i token v) = (0, 3)"
| "sections_left (LogCheckpoint i token v) = (0, 2)"
| "sections_left (StoreCheckpoint i token v) = (0, 1)"
| "sections_left (PublishChunk i token v is_final) = (0, 1)"
| "sections_left (TakeLetter k i) = (0, 5)"
| "sections_left (LogRemove k i letter) = (0, 4)"
| "sections_left (ReleaseLetterKey letter) = (0, 1)"
| "sections_left (CheckLetter i v) = (0, 3)"
| "sections_left (LogVerdict i v) = (0, 2)"
| "sections_left (StoreVerdict i v) = (0, 1)"

definition fewer_sections :: "(('a, 'v) task \<times> ('a, 'v) task) set" where
  "fewer_sections = inv_image (less_than <*lex*> less_than) sections_left"

text \<open>The events of the calls in flight: all but the begin of a call and the wake of a waiting one.\<close>

fun works :: "('a, 'v) event \<Rightarrow> bool" where
  "works (Began t) \<longleftrightarrow> False"
| "works (Ran env (Waiting wake_at) r) \<longleftrightarrow> False"
| "works (Ran env t r) \<longleftrightarrow> True"
| "works (Dropped t) \<longleftrightarrow> True"

lemma wf_fewer_sections: "wf fewer_sections"
  by (simp add: fewer_sections_def wf_lex_prod)

lemma after_resolve_fewer:
  assumes "after_resolve k res g = (Inl t, g')"
  shows "fst (sections_left t) = 0 \<and> snd (sections_left t) < 1 + deliveries_left k"
  using assms by (cases "(k, res, g)" rule: after_resolve.cases) auto

lemma section_fewer:
  assumes "section_of display env t g = (Inl t', g')" and "\<forall>w. t \<noteq> Waiting w"
  shows "(t', t) \<in> fewer_sections"
proof (cases t)
  case (ResolveDelivery k i lease reason)
  then have "resolve_section env k i lease reason g = (Inl t', g')" using assms(1) by simp
  then have "fst (sections_left t') = 0 \<and> snd (sections_left t') < 3 + deliveries_left k"
    by (cases rule: resolve_section_cases) (auto dest: after_resolve_fewer)
  then show ?thesis by (cases "sections_left t'") (simp add: fewer_sections_def ResolveDelivery)
next
  case (LogDeadLettered k i)
  obtain res g1 where "after_resolve k res g1 = (Inl t', g')"
    using LogDeadLettered assms(1) by (auto split: prod.splits)
  from after_resolve_fewer [OF this] show ?thesis
    by (cases "sections_left t'") (simp add: fewer_sections_def LogDeadLettered)
next
  case Scan
  then show ?thesis using assms(1) by (auto elim!: scan_section_cases simp: fewer_sections_def)
qed (use assms in \<open>auto simp: fewer_sections_def
    split: prod.splits sum.splits option.splits list.splits if_splits bool.splits taker.splits\<close>)

lemma works_fewer:
  assumes "group_step display e c c'" and "works e"
  shows "(snd c', snd c) \<in> mult1 fewer_sections"
  using assms(1)
proof (cases rule: group_step_cases)
  case (ran env t r g g' ts)
  then have "\<forall>w. t \<noteq> Waiting w" using assms(2) by auto
  then have "\<forall>t'. t' \<in># remaining r \<longrightarrow> (t', t) \<in> fewer_sections"
    using section_fewer [of display env t g] ran(4) by (cases r) auto
  then show ?thesis unfolding mult1_def by (auto simp: ran(2,3) add.commute)
next
  case (dropped t g ts)
  have "\<forall>t'. t' \<in># {#} \<longrightarrow> (t', t) \<in> fewer_sections" by simp
  then show ?thesis unfolding mult1_def dropped(2,3) by fastforce
qed (use assms(2) in simp)

text \<open>
  C9: every call ends or waits for a message. In whatever order the sections of the calls in flight run, and
  whatever the logs and the clocks do, only finitely many sections run without a new call or a waiting
  claim that wakes; and no call is ever stuck: as long as a task does not wait, its next section can run.
\<close>

theorem overlapping_calls_end:
  "wf {(c', c :: ('a, 'v) config). \<exists>e. works e \<and> group_step display e c c'} \<and>
   (\<forall>(g :: ('a, 'v) group) ts env. \<forall>t\<in>#ts. (\<exists>w. t = Waiting w) \<or>
      (\<exists>r c'. works (Ran env t r) \<and> group_step display (Ran env t r) (g, ts) c'))"
proof (intro conjI allI ballI)
  have "{(c', c :: ('a, 'v) config). \<exists>e. works e \<and> group_step display e c c'} \<subseteq> inv_image (mult1 fewer_sections) snd"
    using works_fewer by force
  then show "wf {(c', c :: ('a, 'v) config). \<exists>e. works e \<and> group_step display e c c'}"
    by (rule wf_subset [OF wf_inv_image [OF wf_mult1 [OF wf_fewer_sections]]])
next
  fix g :: "('a, 'v) group" and ts env and t :: "('a, 'v) task" assume "t \<in># ts"
  then obtain us where ts: "ts = add_mset t us" by (blast dest: multi_member_split)
  obtain r g' where s: "section_of display env t g = (r, g')" by fastforce
  have "group_step display (Ran env t r) (g, ts) (g', remaining r + us)"
    using s by (cases r) (auto simp: ts intro: run_section end_call)
  moreover have "(\<exists>w. t = Waiting w) \<or> works (Ran env t r)" by (cases t) auto
  ultimately show "(\<exists>w. t = Waiting w) \<or> (\<exists>r c'. works (Ran env t r) \<and> group_step display (Ran env t r) (g, ts) c')"
    by blast
qed


theorem overlapping_calls_end_witness:
  "\<exists>r c'. works (Ran (logging Logged) (TakeAck (MessageId 1) (LeaseToken 0)) r) \<and>
     group_step sample_display (Ran (logging Logged) (TakeAck (MessageId 1) (LeaseToken 0)) r)
       (sample_leased, {#TakeAck (MessageId 1) (LeaseToken 0)#}) c'"
  using overlapping_calls_end [of sample_display] by fastforce

end
