(* ===== verification/Group_Conservation.thy ===== *)
theory Group_Conservation
  imports Group_Concurrency
begin

text \<open>
  Conservation in the consumer group (\<^verbatim>\<open>crates/qaas-core/src/consumer_group.rs\<close>) while calls overlap: when
  the logs take every record and no call is dropped, a message leaves the group only by an acknowledgement
  or a purge.
\<close>

text \<open>An event without failure. A panic is excluded too; \<open>delay_for_le_max\<close> shows that the delay has none.\<close>

fun smooth :: "('a, 'v) event \<Rightarrow> bool" where
  "smooth (Began t) \<longleftrightarrow> True"
| "smooth (Ran env t r) \<longleftrightarrow> se_out env = Logged \<and> r \<noteq> Inr AnswerPanic"
| "smooth (Dropped t) \<longleftrightarrow> False"

text \<open>
  The identifiers that leave with an event: a lease taken by \<^verbatim>\<open>ack\<close>, a letter taken by \<^verbatim>\<open>purge\<close>, the message of
  an enqueue that found its key registered or, in a call that began to fail before, could not be written.
\<close>

fun leaving :: "('a, 'v) event \<Rightarrow> message_id set" where
  "leaving (Ran env (Reserve i key item) (Inr a)) = {i}"
| "leaving (Ran env (TakeAck i token) (Inl t)) = {i}"
| "leaving (Ran env (LogRemove ToPurge i letter) (Inr a)) = {i}"
| "leaving (Ran env (ReleaseLetterKey letter) r) = {dl_id letter}"
| "leaving (Ran env (ReleaseFailed i key item e) r) = {i}"
| "leaving e = {}"

lemma log_smooth:
  "cg_log r Logged g = (Inr (), g \<lparr> g_wal := g_wal g @ [r] \<rparr>)"
  "dlq_log d Logged q = (Inr (), q \<lparr> dlq_wal := dlq_wal q @ [d] \<rparr>)"
  by (simp_all add: cg_log_def dlq_log_def)

lemma after_resolve_smooth:
  assumes "after_resolve k (Inr ()) g = (r, g')"
  shows "cg_msgs g' = cg_msgs g" and "in_flight (remaining r) = left_over k"
proof -
  have "cg_msgs g' = cg_msgs g \<and> in_flight (remaining r) = left_over k"
  proof (cases k)
    case (ForSweep expired)
    then show ?thesis using assms by (cases expired) (auto simp: lease_msg_def)
  qed (use assms in auto)
  then show "cg_msgs g' = cg_msgs g" and "in_flight (remaining r) = left_over k" by blast+
qed

lemma section_conserves:
  assumes "section_of display env t g = (r, g')" and "cg_inv g" and "unique_ids (cg_msgs g + carried t)"
    and "smooth (Ran env t r)" and "task_ok t" and "m \<in># cg_msgs g + carried t"
  shows "m \<in># cg_msgs g' + in_flight (remaining r) \<or> fst m \<in> leaving (Ran env t r)"
proof (cases t)
  case (Reserve i key item)
  from assms(1,2) show ?thesis
    by (cases rule: section_keys) (use Reserve assms(6) in auto)
next
  case (WriteEnqueue k i key item)
  then show ?thesis using assms(1,4,6) by (auto simp: log_smooth)
next
  case (PushPending k i key item)
  then show ?thesis using assms(1,6) by (auto simp: cg_msgs_push fresh_pending_def)
next
  case TakeExpired
  then show ?thesis
    using assms(1,6) take_expired_msgs [OF assms(2), of "se_rank env" "se_now env"]
    by (auto split: list.splits)
next
  case (ResolveDelivery k i lease reason)
  then have "resolve_section env k i lease reason g = (r, g')" using assms(1) by simp
  then show ?thesis
  proof (cases rule: resolve_section_cases)
    case (failed e q)
    then show ?thesis using assms(4) by simp
  next
    case (delayed t')
    then show ?thesis
      using after_resolve_smooth [OF delayed] assms(6) by (auto simp: ResolveDelivery cg_msgs_delayed)
  qed (use assms(4,6) in \<open>auto simp: ResolveDelivery\<close>)
next
  case (InsertLetter k letter)
  have "dl_id letter \<notin> cg_ids g"
    using assms(3) by (auto simp: InsertLetter unique_ids_add cg_ids_def letter_msg_def)
  then have "dl_id letter \<notin> fst ` set (dlq_entries (g_dlq g))" using dead_ids [of g] by blast
  then show ?thesis using InsertLetter assms(1,6) by (auto simp: insert_letter_msgs)
next
  case (LogDeadLettered k i)
  then have "after_resolve k (Inr ()) (g \<lparr> g_wal := g_wal g @ [CgDeadLettered i] \<rparr>) = (r, g')"
    using assms(1,4) by (simp add: log_smooth)
  from after_resolve_smooth [OF this] show ?thesis using assms(6) by (auto simp: LogDeadLettered)
next
  case Scan
  then show ?thesis
    using assms(1,6) grant_lease_effect(1) [of "promote_ready_delayed (se_now env) g"] assms(2)
    by (auto elim!: scan_section_cases)
next
  case (TakeAck i token)
  then show ?thesis
    using assms(1,6) take_lease_msgs [OF assms(2), of i token]
    by (auto simp: ack_release_def lease_msg_def split: prod.splits option.splits)
next
  case (LogAck i)
  then show ?thesis using assms(1,4,6) by (auto simp: log_smooth)
next
  case (TakeNack i token reason)
  then show ?thesis
    using assms(1,6) take_lease_msgs [OF assms(2), of i token]
    by (auto split: prod.splits option.splits)
next
  case (LogCheckpoint i token v)
  then show ?thesis using assms(1,4,6) by (auto simp: log_smooth)
next
  case (StoreCheckpoint i token v)
  then show ?thesis
    using assms(1,6) update_lease_msgs [of "\<lambda>l. l \<lparr> l_checkpoint := Some v \<rparr>" i g]
    by (auto simp: checkpoint_lease_def split: if_splits)
next
  case (PublishChunk i token v is_final)
  then show ?thesis using assms(1,6) publish_msgs_eq [of i token v is_final g] by (auto split: prod.splits)
next
  case (TakeLetter k i)
  then show ?thesis
    using assms(1,6) delete_letter_msgs [OF assms(2), of i] by (auto split: option.splits)
next
  case (LogRemove k i letter)
  then show ?thesis
    using assms(1,4,5,6) by (auto simp: log_smooth letter_msg_def split: taker.splits option.splits)
next
  case (LogVerdict i v)
  then show ?thesis using assms(1,4,6) by (auto simp: log_smooth)
next
  case (StoreVerdict i v)
  then show ?thesis using assms(1,6) annotate_letter_msgs [of i v g] by (auto split: prod.splits)
next
  case (ReleaseLetterKey letter)
  then show ?thesis using assms(1,6) by (auto simp: letter_msg_def)
next
  case (ReleaseFailed i key item e)
  then show ?thesis using assms(1,6) by auto
qed (use assms(1,6) in \<open>auto split: if_splits\<close>)

lemma step_conserves:
  assumes "group_step display e (g, ts) (g', ts')" and "messages_ok (g, ts)" and "smooth e"
    and "m \<in># cg_msgs g + in_flight ts"
  shows "m \<in># cg_msgs g' + in_flight ts' \<or> fst m \<in> leaving e"
  using assms(1)
proof (cases rule: group_step_cases)
  case (ran env t r h h' us)
  have "unique_ids (cg_msgs g + carried t)" "task_ok t"
    using assms(2) ran(2) by (auto simp: messages_ok_def intro: unique_ids_subset [of _ "cg_msgs g + (carried t + in_flight us)"])
  then show ?thesis
    using section_conserves [OF _ messages_ok_inv [OF assms(2)], of display env t r g' m] ran assms(3,4) by auto
qed (use assms(3,4) in auto)

lemma run_conserves:
  assumes "group_run display (g, ts) es c" and "messages_ok (g, ts)" and "\<forall>e\<in>set es. smooth e"
    and "m \<in># cg_msgs g + in_flight ts"
  shows "m \<in># cg_msgs (fst c) + in_flight (snd c) \<or> (\<exists>e\<in>set es. fst m \<in> leaving e)"
  using assms(1,3)
proof (induction rule: group_run.induct)
  case run_none
  then show ?case using assms(4) by simp
next
  case (run_more es c e c')
  have ok: "messages_ok c" using messages_ok_run [OF run_more(1) assms(2)] .
  from run_more(3,4) have "m \<in># cg_msgs (fst c) + in_flight (snd c) \<or> (\<exists>e\<in>set es. fst m \<in> leaving e)" by simp
  then show ?case
  proof
    assume "m \<in># cg_msgs (fst c) + in_flight (snd c)"
    then show ?thesis
      using step_conserves [of display e "fst c" "snd c" "fst c'" "snd c'" m] run_more(2,4) ok by auto
  qed auto
qed

text \<open>
  C5: overlapping calls lose nothing. From any state that calls in any interleaving reach, as long as the
  log writes succeed and no call is dropped or panics, every message that was in the group or in the hands
  of a call stays there, with its key and its payload, unless an \<^verbatim>\<open>ack\<close> with its token took its lease, a purge
  removed it from the dead letters, or it was of an enqueue whose key turned out to be registered.
\<close>

theorem overlapping_calls_conserve_messages:
  assumes "cg_open vt rp rank (Inr []) (Inr []) = Inr g0" and "group_run display (g0, {#}) es0 (g, ts)"
    and "group_run display (g, ts) es (g', ts')" and "\<forall>e\<in>set es. smooth e"
    and "m \<in># cg_msgs g + in_flight ts" and "\<forall>e\<in>set es. fst m \<notin> leaving e"
  shows "m \<in># cg_msgs g' + in_flight ts'"
proof -
  have "messages_ok (g, ts)" using messages_ok_run [OF assms(2) messages_ok_open [OF assms(1)]] .
  from run_conserves [OF assms(3) this assms(4,5)] assms(6) show ?thesis by auto
qed

theorem overlapping_calls_conserve_messages_witness:
  "(MessageId 1, Some (IdempotencyKey ''k''), ''job'') \<in># cg_msgs sample_leased + in_flight {#Scan :: (string, string) task#}"
proof -
  have mem: "(MessageId 1, Some (IdempotencyKey ''k''), ''job'') \<in># cg_msgs sample_leased + in_flight ({#} :: (string, string) task multiset)"
    by (simp add: cg_msgs_def sample_live)
  obtain evs0 where "group_run sample_display (sample_group, {#}) evs0 (sample_leased, {#})" using sample_run_leased by blast
  from overlapping_calls_conserve_messages [OF sample_open this sample_sweep_run _ mem] show ?thesis
    by (simp add: sample_sweep_def logging_def)
qed

end
