(* ===== verification/Tool_Registry.thy ===== *)
theory Tool_Registry
  imports Consumer_Group Admission Quota Auth Audit_Log Semantic
begin

text \<open>
  \<^verbatim>\<open>crates/qaas-server/src/mcp.rs\<close>, first part: the registry that holds one consumer group, admission
  controller and embedding index for each queue of each tenant, and one quota and route table for each
  tenant. A handler is a function from the server's state to a result or an error and the new state;
  \<open>tbind\<close> composes handlers the way \<^verbatim>\<open>?\<close> and \<^verbatim>\<open>await\<close> do. A shared handle (\<^verbatim>\<open>Arc\<close>) is the key of its entry:
  a handler reads the entry, runs a method on it and writes it back. A call of a tool is one step here;
  where it waits, it is placed at the moment it stops waiting.
\<close>

section \<open>Errors and results\<close>

datatype throttle_reason = ByQuota quota_reason | ByAdmission admission_reason

text \<open>One constructor for each error the code builds; the numbers and names its text shows are kept.\<close>

datatype mcp_error =
  BadQueueName string | BadMessageId string | BadEmbedding | BadIdempotencyKey | BadTenantId
| QueueRequired | NoRoutes | TenantIdRequired
| QueueLimit string nat u64 | PendingLimit string u64 u64 | Throttled throttle_reason "f64 option" | StdioOnly string
| OpenFailed string io_error | InternalError io_error
| Panicked

datatype error_code = INVALID_PARAMS | INVALID_REQUEST | INTERNAL_ERROR

text \<open>The code an error carries; a panic ends the task and carries none.\<close>

fun code_of :: "mcp_error \<Rightarrow> error_code option" where
  "code_of (QueueLimit _ _ _) = Some INVALID_REQUEST"
| "code_of (PendingLimit _ _ _) = Some INVALID_REQUEST"
| "code_of (Throttled _ _) = Some INVALID_REQUEST"
| "code_of (StdioOnly _) = Some INVALID_REQUEST"
| "code_of (OpenFailed _ _) = Some INTERNAL_ERROR"
| "code_of (InternalError _) = Some INTERNAL_ERROR"
| "code_of Panicked = None"
| "code_of _ = Some INVALID_PARAMS"

definition throttled_to_mcp :: "throttle_reason \<Rightarrow> duration option \<Rightarrow> mcp_error" where
  "throttled_to_mcp reason retry_after = Throttled reason (map_option as_secs_f64 retry_after)"

type_synonym ('s, 'r) tool = "'s \<Rightarrow> (mcp_error + 'r) \<times> 's"

definition treturn :: "'r \<Rightarrow> ('s, 'r) tool" where
  "treturn r s = (Inr r, s)"

definition tfail :: "mcp_error \<Rightarrow> ('s, 'r) tool" where
  "tfail e s = (Inl e, s)"

definition tbind :: "('s, 'a) tool \<Rightarrow> ('a \<Rightarrow> ('s, 'b) tool) \<Rightarrow> ('s, 'b) tool" where
  "tbind m f s = (case m s of (Inl e, s) \<Rightarrow> (Inl e, s) | (Inr a, s) \<Rightarrow> f a s)"

section \<open>Names, keys and paths\<close>

definition DEFAULT_CLAIM_WAIT :: duration where
  "DEFAULT_CLAIM_WAIT = from_secs 5"

definition MAX_CLAIM_WAIT :: duration where
  "MAX_CLAIM_WAIT = from_secs 60"

definition VISIBILITY_TIMEOUT :: duration where
  "VISIBILITY_TIMEOUT = from_secs 30"

definition DEDUP_SIMILARITY_THRESHOLD :: f32 where
  "DEDUP_SIMILARITY_THRESHOLD = f32_round (95 / 100)"

definition DEDUP_TTL :: duration where
  "DEDUP_TTL = from_secs 600"

text \<open>The characters allowed in a queue name are those of a tenant identifier.\<close>

definition valid_queue_name :: "string \<Rightarrow> bool" where
  "valid_queue_name name \<longleftrightarrow> name \<noteq> [] \<and> length name \<le> 128 \<and> list_all tenant_char name"

definition validate_queue_name :: "string \<Rightarrow> ('s, unit) tool" where
  "validate_queue_name name = (if valid_queue_name name then treturn () else tfail (BadQueueName name))"

definition scope_key :: "tenant_id option \<Rightarrow> string \<Rightarrow> string" where
  "scope_key tenant name = (case tenant of Some t \<Rightarrow> tenant_as_str t @ [CHR 0x00] @ name | None \<Rightarrow> name)"

definition tenant_key :: "tenant_id option \<Rightarrow> string" where
  "tenant_key tenant = (case tenant of Some t \<Rightarrow> tenant_as_str t | None \<Rightarrow> [])"

definition tenant_prefix :: "tenant_id \<Rightarrow> string" where
  "tenant_prefix t = tenant_as_str t @ [CHR 0x00]"

definition starts_with :: "string \<Rightarrow> string \<Rightarrow> bool" where
  "starts_with v pre \<longleftrightarrow> take (length pre) v = pre"

definition split_once :: "char \<Rightarrow> string \<Rightarrow> (string \<times> string) option" where
  "split_once c v =
     (if c \<in> set v then Some (takeWhile (\<lambda>d. d \<noteq> c) v, tl (dropWhile (\<lambda>d. d \<noteq> c) v)) else None)"

definition split_scope_key :: "string \<Rightarrow> string \<times> string" where
  "split_scope_key key =
     (case split_once (CHR 0x00) key of Some (tenant, queue) \<Rightarrow> (tenant, queue) | None \<Rightarrow> (''none'', key))"

definition tenant_label :: "tenant_id option \<Rightarrow> string" where
  "tenant_label tenant = (case tenant of None \<Rightarrow> ''none'' | Some t \<Rightarrow> tenant_as_str t)"

text \<open>A path is the list of its components below the data directory.\<close>

definition queue_dir :: "tenant_id option \<Rightarrow> string list" where
  "queue_dir tenant = (case tenant of Some t \<Rightarrow> [tenant_as_str t] | None \<Rightarrow> [])"

definition queue_path :: "tenant_id option \<Rightarrow> string \<Rightarrow> string list" where
  "queue_path tenant name = queue_dir tenant @ [name @ ''.wal'']"

section \<open>The state\<close>

text \<open>The text of a denial, in the words of the error the caller gets.\<close>

datatype denial = DeniedPending string u64 u64 | DeniedAdmission admission_reason

datatype audit_event =
  AuditEnqueue string string "string option" bool "denial option"
| AuditAck string string string bool
| AuditNack string string string bool "string option"

text \<open>
  The groups are a hash map the code iterates over. The gauges and the histogram of the metrics library
  are kept by queue and tenant label.
\<close>

record 'j server =
  sv_groups :: "(string, ('j, 'j) group) hash_map"
  sv_admission :: "string \<rightharpoonup> admission_controller"
  sv_dedup :: "string \<rightharpoonup> message_id embedding_index"
  sv_routes :: "string \<rightharpoonup> string embedding_index"
  sv_quotas :: "string \<rightharpoonup> tenant_quota"
  sv_api_keys :: api_key_store
  sv_audit :: "audit_event audit_logger"
  sv_depth :: "string \<times> string \<rightharpoonup> f64"
  sv_lag :: "string \<times> string \<rightharpoonup> f64"
  sv_latency :: "(string \<times> string \<times> f64) list"

text \<open>The functions of other packages: UUIDs as strings and back, the time in a UUID, SHA-256.\<close>

record tool_lib =
  lib_display :: "128 word \<Rightarrow> string"
  lib_parse :: "string \<Rightarrow> 128 word option"
  lib_unix :: "128 word \<Rightarrow> (u64 \<times> u32) option"
  lib_sha256 :: "string \<Rightarrow> u8 list"

text \<open>
  What the environment decides during a call: clock readings, fresh identifiers, the outcomes of file
  operations, the contents of a queue's two logs when it is opened, the passes that a waiting
  \<^verbatim>\<open>claim\<close> makes before its timer fires, iteration orders, and the sign of a NaN similarity. The
  timer of \<^verbatim>\<open>claim\<close> may fire during a pass: then the task stops there, after some of the expired leases
  it took out have been resolved (\<open>cr_cancelled\<close>).
\<close>

record claim_run =
  cr_passes :: "claim_env list"
  cr_cancelled :: "(claim_env \<times> nat) option"

record 'j tool_env =
  te_quota_now :: instant
  te_status_now :: instant
  te_admission_now :: instant
  te_dedup_now :: instant
  te_insert_now :: instant
  te_route_now :: instant
  te_timestamp :: timestamp
  te_metrics_now :: timestamp
  te_audit_now :: timestamp
  te_fresh_id :: message_id
  te_create_dir :: "unit io_result"
  te_open :: "string list \<Rightarrow> ('j, 'j) cg_record list io_result \<times> ('j, 'j) dlq_wal_record list io_result"
  te_wal_out :: log_outcome
  te_dlq_out :: log_outcome
  te_annotate_out :: log_outcome
  te_resolve :: resolve_env
  te_claim :: "duration \<Rightarrow> claim_run"
  te_id_rank :: "message_id iter_rank"
  te_name_rank :: "string iter_rank"
  te_id_nan :: "message_id \<Rightarrow> bool"
  te_name_nan :: "string \<Rightarrow> bool"
  te_uuids :: "string \<times> string"

definition server_open ::
  "key_record list io_result \<Rightarrow> audit_event audit_record list io_result \<Rightarrow> audit_open_error + 'j server" where
  "server_open keys_opened audit_opened =
     (case keys_open keys_opened of
        Inl e \<Rightarrow> Inl (AuditIo e)
      | Inr api_keys \<Rightarrow>
          (case audit_open audit_DEFAULT audit_opened of
             Inl e \<Rightarrow> Inl e
           | Inr audit \<Rightarrow>
               Inr \<lparr> sv_groups = [], sv_admission = Map.empty, sv_dedup = Map.empty, sv_routes = Map.empty,
                     sv_quotas = Map.empty, sv_api_keys = api_keys, sv_audit = audit, sv_depth = Map.empty,
                     sv_lag = Map.empty, sv_latency = [] \<rparr>))"

section \<open>The registry\<close>

definition registry_quota :: "tenant_id \<Rightarrow> ('j server, tenant_quota) tool" where
  "registry_quota t s =
     (case sv_quotas s (tenant_as_str t) of
        Some quota \<Rightarrow> (Inr quota, s)
      | None \<Rightarrow>
          (let quota = quota_new quota_UNLIMITED in
           (Inr quota, s \<lparr> sv_quotas := (sv_quotas s)(tenant_as_str t \<mapsto> quota) \<rparr>)))"

definition put_quota :: "tenant_id \<Rightarrow> tenant_quota \<Rightarrow> ('j server, unit) tool" where
  "put_quota t quota s = (Inr (), s \<lparr> sv_quotas := (sv_quotas s)(tenant_as_str t \<mapsto> quota) \<rparr>)"

definition count_matching :: "(string, 'g) hash_map \<Rightarrow> tenant_id \<Rightarrow> nat" where
  "count_matching groups t = length (filter (\<lambda>(key, _). starts_with key (tenant_prefix t)) groups)"

definition tenant_queue_count :: "tenant_id \<Rightarrow> ('j server, nat) tool" where
  "tenant_queue_count t s = (Inr (count_matching (sv_groups s) t), s)"

definition tenant_pending_total :: "string iter_rank \<Rightarrow> tenant_id \<Rightarrow> ('j server, u64) tool" where
  "tenant_pending_total rank t s =
     (Inr (fold (\<lambda>(_, g) acc. sat_add acc (usize_to_u64 (cg_len g)))
        (filter (\<lambda>(key, _). starts_with key (tenant_prefix t)) (hm_iter rank (sv_groups s))) 0), s)"

definition put_group :: "tenant_id option \<Rightarrow> string \<Rightarrow> ('j, 'j) group \<Rightarrow> ('j server, unit) tool" where
  "put_group tenant name g s =
     (Inr (), s \<lparr> sv_groups := AList.update (scope_key tenant name) g (sv_groups s) \<rparr>)"

definition lookup_group :: "tenant_id option \<Rightarrow> string \<Rightarrow> ('j server, ('j, 'j) group option) tool" where
  "lookup_group tenant name s = (Inr (map_of (sv_groups s) (scope_key tenant name)), s)"

text \<open>The check of \<^verbatim>\<open>max_queues\<close> before a queue is opened.\<close>

definition check_max_queues :: "tenant_id option \<Rightarrow> ('j server, unit) tool" where
  "check_max_queues tenant =
     (case tenant of
        None \<Rightarrow> treturn ()
      | Some t \<Rightarrow>
          tbind (registry_quota t) (\<lambda>quota.
            case max_queues (tq_config quota) of
              None \<Rightarrow> treturn ()
            | Some limit \<Rightarrow>
                tbind (tenant_queue_count t) (\<lambda>opened.
                  if unat limit \<le> opened then tfail (QueueLimit (tenant_as_str t) opened limit) else treturn ())))"

definition registry_get :: "'j tool_env \<Rightarrow> tenant_id option \<Rightarrow> string \<Rightarrow> ('j server, ('j, 'j) group) tool" where
  "registry_get env tenant name =
     tbind (validate_queue_name name) (\<lambda>_.
     tbind (lookup_group tenant name) (\<lambda>found.
       case found of
         Some g \<Rightarrow> treturn g
       | None \<Rightarrow>
           tbind (check_max_queues tenant) (\<lambda>_.
             case te_create_dir env of
               Inl e \<Rightarrow> tfail (OpenFailed name e)
             | Inr _ \<Rightarrow>
                 (case te_open env (queue_path tenant name) of
                    (opened, dlq_opened) \<Rightarrow>
                      (case cg_open VISIBILITY_TIMEOUT retry_DEFAULT (te_id_rank env) opened dlq_opened of
                         Inl e \<Rightarrow> tfail (OpenFailed name e)
                       | Inr g \<Rightarrow> tbind (put_group tenant name g) (\<lambda>_. treturn g))))))"

definition lookup_admission :: "tenant_id option \<Rightarrow> string \<Rightarrow> ('j server, admission_controller) tool" where
  "lookup_admission tenant name s =
     (case sv_admission s (scope_key tenant name) of
        Some controller \<Rightarrow> (Inr controller, s)
      | None \<Rightarrow>
          (let controller = admission_new admission_UNLIMITED in
           (Inr controller, s \<lparr> sv_admission := (sv_admission s)(scope_key tenant name \<mapsto> controller) \<rparr>)))"

definition registry_admission :: "tenant_id option \<Rightarrow> string \<Rightarrow> ('j server, admission_controller) tool" where
  "registry_admission tenant name = tbind (validate_queue_name name) (\<lambda>_. lookup_admission tenant name)"

definition put_admission :: "tenant_id option \<Rightarrow> string \<Rightarrow> admission_controller \<Rightarrow> ('j server, unit) tool" where
  "put_admission tenant name controller s =
     (Inr (), s \<lparr> sv_admission := (sv_admission s)(scope_key tenant name \<mapsto> controller) \<rparr>)"

definition lookup_dedup :: "tenant_id option \<Rightarrow> string \<Rightarrow> ('j server, message_id embedding_index) tool" where
  "lookup_dedup tenant name s =
     (case sv_dedup s (scope_key tenant name) of
        Some index \<Rightarrow> (Inr index, s)
      | None \<Rightarrow>
          (let index = index_new (Some DEDUP_TTL) in
           (Inr index, s \<lparr> sv_dedup := (sv_dedup s)(scope_key tenant name \<mapsto> index) \<rparr>)))"

definition registry_dedup :: "tenant_id option \<Rightarrow> string \<Rightarrow> ('j server, message_id embedding_index) tool" where
  "registry_dedup tenant name = tbind (validate_queue_name name) (\<lambda>_. lookup_dedup tenant name)"

definition put_dedup :: "tenant_id option \<Rightarrow> string \<Rightarrow> message_id embedding_index \<Rightarrow> ('j server, unit) tool" where
  "put_dedup tenant name index s = (Inr (), s \<lparr> sv_dedup := (sv_dedup s)(scope_key tenant name \<mapsto> index) \<rparr>)"

definition registry_routes :: "tenant_id option \<Rightarrow> ('j server, string embedding_index) tool" where
  "registry_routes tenant s =
     (case sv_routes s (tenant_key tenant) of
        Some routes \<Rightarrow> (Inr routes, s)
      | None \<Rightarrow>
          (let routes = index_new None in
           (Inr routes, s \<lparr> sv_routes := (sv_routes s)(tenant_key tenant \<mapsto> routes) \<rparr>)))"

definition put_routes :: "tenant_id option \<Rightarrow> string embedding_index \<Rightarrow> ('j server, unit) tool" where
  "put_routes tenant routes s = (Inr (), s \<lparr> sv_routes := (sv_routes s)(tenant_key tenant \<mapsto> routes) \<rparr>)"

end
