(* ===== verification/Tool_Server.thy ===== *)
theory Tool_Server
  imports Tool_Registry "HOL-Library.List_Lexorder" "HOL-Library.Char_ord"
begin

text \<open>
  \<^verbatim>\<open>crates/qaas-server/src/mcp.rs\<close>, second part: the tools. Every tool is a pair of a record of arguments and a
  record of results, and a handler (\<^verbatim>\<open>_impl\<close> in the code) that takes the caller's tenant. \<open>tool_call\<close> is the
  dispatch: it authorizes the caller and runs the handler. The body of a message is a JSON value, a type
  parameter here.
\<close>

section \<open>Shared steps\<close>

definition parse_message_id :: "tool_lib \<Rightarrow> string \<Rightarrow> ('s, message_id) tool" where
  "parse_message_id lib v =
     (case lib_parse lib v of None \<Rightarrow> tfail (BadMessageId v) | Some uuid \<Rightarrow> treturn (MessageId uuid))"

fun id_to_string :: "tool_lib \<Rightarrow> message_id \<Rightarrow> string" where
  "id_to_string lib (MessageId uuid) = lib_display lib uuid"

definition io_error_to_mcp :: "io_error \<Rightarrow> mcp_error" where
  "io_error_to_mcp e = InternalError e"

definition lift_io :: "'r io_result \<Rightarrow> ('s, 'r) tool" where
  "lift_io res = (case res of Inl e \<Rightarrow> tfail (io_error_to_mcp e) | Inr r \<Rightarrow> treturn r)"

definition lift_cg :: "'r cg_result \<Rightarrow> ('s, 'r) tool" where
  "lift_cg res =
     (case res of Inl (CgIo e) \<Rightarrow> tfail (io_error_to_mcp e) | Inl CgPanic \<Rightarrow> tfail Panicked | Inr r \<Rightarrow> treturn r)"

text \<open>A method of a group that changes it, called through the handle.\<close>

definition group_call ::
  "tenant_id option \<Rightarrow> string \<Rightarrow> 'r \<times> ('j, 'j) group \<Rightarrow> ('j server, 'r \<times> ('j, 'j) group) tool" where
  "group_call tenant name result =
     (case result of (r, g) \<Rightarrow> tbind (put_group tenant name g) (\<lambda>_. treturn (r, g)))"

definition set_depth :: "string \<times> string \<Rightarrow> f64 \<Rightarrow> ('j server, unit) tool" where
  "set_depth labels v s = (Inr (), s \<lparr> sv_depth := (sv_depth s)(labels \<mapsto> v) \<rparr>)"

definition set_lag :: "string \<times> string \<Rightarrow> f64 \<Rightarrow> ('j server, unit) tool" where
  "set_lag labels v s = (Inr (), s \<lparr> sv_lag := (sv_lag s)(labels \<mapsto> v) \<rparr>)"

definition record_latency :: "string \<Rightarrow> string \<Rightarrow> f64 \<Rightarrow> ('j server, unit) tool" where
  "record_latency queue label v s = (Inr (), s \<lparr> sv_latency := sv_latency s @ [(queue, label, v)] \<rparr>)"

definition record_queue_metrics ::
  "tool_lib \<Rightarrow> 'j tool_env \<Rightarrow> tenant_id option \<Rightarrow> string \<Rightarrow> ('j, 'j) group \<Rightarrow> ('j server, unit) tool" where
  "record_queue_metrics lib env tenant queue g =
     tbind (set_depth (queue, tenant_label tenant) (f64_of_nat (cg_len g))) (\<lambda>_.
       case oldest_pending_age (lib_unix lib) (te_metrics_now env) g of
         None \<Rightarrow> tfail Panicked
       | Some age \<Rightarrow>
           set_lag (queue, tenant_label tenant) (case age of None \<Rightarrow> Fin 0 | Some d \<Rightarrow> as_secs_f64 d))"

definition log_event :: "'j tool_env \<Rightarrow> audit_event \<Rightarrow> ('j server, unit) tool" where
  "log_event env event s = (Inr (), s \<lparr> sv_audit := audit_log (te_audit_now env) event (sv_audit s) \<rparr>)"

definition audit_enqueue ::
  "'j tool_env \<Rightarrow> tenant_id option \<Rightarrow> string \<Rightarrow> string option \<Rightarrow> bool \<Rightarrow> denial option \<Rightarrow> ('j server, unit) tool" where
  "audit_enqueue env tenant queue message_id deduplicated denied =
     log_event env (AuditEnqueue (tenant_label tenant) queue message_id deduplicated denied)"

definition authorize_impl :: "'j tool_env \<Rightarrow> tenant_id option \<Rightarrow> ('j server, tenant_id option) tool" where
  "authorize_impl env tenant =
     (case tenant of
        None \<Rightarrow> treturn tenant
      | Some t \<Rightarrow>
          tbind (registry_quota t) (\<lambda>quota.
            case try_acquire (te_quota_now env) quota of
              (decision, quota) \<Rightarrow>
                tbind (put_quota t quota) (\<lambda>_.
                  case decision of
                    QuotaAllowed _ \<Rightarrow> treturn tenant
                  | QuotaDenied reason retry_after \<Rightarrow> tfail (throttled_to_mcp (ByQuota reason) retry_after))))"

section \<open>The tool enqueue\<close>

record 'j enqueue_params =
  ep_queue :: "string option"
  ep_payload :: 'j
  ep_idempotency_key :: "string option"
  ep_estimated_tokens :: "u64 option"
  ep_estimated_cost :: "f64 option"
  ep_embedding :: "f32 list option"

record enqueue_result =
  er_message_id :: string
  er_queue :: string
  er_deduplicated :: bool
  er_similarity :: "f32 option"
  er_tokens_remaining :: "u64 option"
  er_cost_remaining :: "f64 option"

definition check_embedding :: "f32 list \<Rightarrow> ('s, embedding) tool" where
  "check_embedding values =
     (case embedding_new values of Inl _ \<Rightarrow> tfail BadEmbedding | Inr e \<Rightarrow> treturn e)"

text \<open>\<^verbatim>\<open>Option::map\<close> with a fallible function, then \<^verbatim>\<open>transpose\<close>.\<close>

definition transpose_opt :: "('a \<Rightarrow> ('s, 'b) tool) \<Rightarrow> 'a option \<Rightarrow> ('s, 'b option) tool" where
  "transpose_opt f v = (case v of None \<Rightarrow> treturn None | Some a \<Rightarrow> tbind (f a) (\<lambda>b. treturn (Some b)))"

definition check_idempotency_key :: "string \<Rightarrow> ('s, idempotency_key) tool" where
  "check_idempotency_key v =
     (case idempotency_key_new v of Inl _ \<Rightarrow> tfail BadIdempotencyKey | Inr k \<Rightarrow> treturn k)"

definition resolve_target_queue ::
  "'j tool_env \<Rightarrow> tenant_id option \<Rightarrow> string option \<Rightarrow> embedding option \<Rightarrow> ('j server, string) tool" where
  "resolve_target_queue env tenant explicit_queue embedding =
     (case explicit_queue of
        Some queue \<Rightarrow> treturn queue
      | None \<Rightarrow>
          (case embedding of
             None \<Rightarrow> tfail QueueRequired
           | Some e \<Rightarrow>
               tbind (registry_routes tenant) (\<lambda>routes.
                 case index_nearest (te_name_rank env) (te_name_nan env) (te_route_now env) e routes of
                   (best, routes) \<Rightarrow>
                     tbind (put_routes tenant routes) (\<lambda>_.
                       case best of None \<Rightarrow> tfail NoRoutes | Some (queue, _) \<Rightarrow> treturn queue))))"

text \<open>The closest earlier task, when it is close enough to collapse this one into it.\<close>

definition dedup_match ::
  "'j tool_env \<Rightarrow> tenant_id option \<Rightarrow> string \<Rightarrow> embedding option \<Rightarrow> message_id embedding_index option
   \<Rightarrow> ('j server, (message_id \<times> f32) option \<times> message_id embedding_index option) tool" where
  "dedup_match env tenant queue embedding dedup =
     (case (dedup, embedding) of
        (Some index, Some e) \<Rightarrow>
          (case index_nearest (te_id_rank env) (te_id_nan env) (te_dedup_now env) e index of
             (best, index) \<Rightarrow>
               tbind (put_dedup tenant queue index) (\<lambda>_.
                 treturn
                   (case best of
                      Some (existing_id, similarity) \<Rightarrow>
                        if f64_le DEDUP_SIMILARITY_THRESHOLD similarity then Some (existing_id, similarity) else None
                    | None \<Rightarrow> None, Some index)))
      | _ \<Rightarrow> treturn (None, dedup))"

definition check_max_pending :: "'j tool_env \<Rightarrow> tenant_id option \<Rightarrow> string \<Rightarrow> ('j server, unit) tool" where
  "check_max_pending env tenant queue =
     (case tenant of
        None \<Rightarrow> treturn ()
      | Some t \<Rightarrow>
          tbind (registry_quota t) (\<lambda>quota.
            case max_pending_messages (tq_config quota) of
              None \<Rightarrow> treturn ()
            | Some max_pending \<Rightarrow>
                tbind (tenant_pending_total (te_name_rank env) t) (\<lambda>current.
                  if max_pending \<le> current
                  then tbind (audit_enqueue env tenant queue None False
                                (Some (DeniedPending (tenant_as_str t) current max_pending)))
                         (\<lambda>_. tfail (PendingLimit (tenant_as_str t) current max_pending))
                  else treturn ())))"

definition admit ::
  "'j tool_env \<Rightarrow> tenant_id option \<Rightarrow> string \<Rightarrow> u64 option \<Rightarrow> f64 option \<Rightarrow> admission_controller
   \<Rightarrow> ('j server, u64 option \<times> f64 option) tool" where
  "admit env tenant queue tokens cost controller =
     (case try_admit (case tokens of None \<Rightarrow> 0 | Some n \<Rightarrow> n) (case cost of None \<Rightarrow> Fin 0 | Some c \<Rightarrow> c)
             (te_admission_now env) controller of
        (decision, controller) \<Rightarrow>
          tbind (put_admission tenant queue controller) (\<lambda>_.
            case decision of
              Admitted tokens_remaining cost_remaining \<Rightarrow> treturn (tokens_remaining, cost_remaining)
            | AdmissionDenied reason retry_after \<Rightarrow>
                tbind (audit_enqueue env tenant queue None False (Some (DeniedAdmission reason)))
                  (\<lambda>_. tfail (throttled_to_mcp (ByAdmission reason) retry_after))))"

definition group_enqueue ::
  "'j tool_env \<Rightarrow> 'j \<Rightarrow> idempotency_key option \<Rightarrow> ('j, 'j) group \<Rightarrow> message_id io_result \<times> ('j, 'j) group" where
  "group_enqueue env item key g =
     (case key of
        Some k \<Rightarrow> cg_enqueue_with_key (te_fresh_id env) item k (te_wal_out env) g
      | None \<Rightarrow> cg_enqueue (te_fresh_id env) item (te_wal_out env) g)"

definition remember ::
  "'j tool_env \<Rightarrow> tenant_id option \<Rightarrow> string \<Rightarrow> message_id \<Rightarrow> embedding option \<Rightarrow> message_id embedding_index option
   \<Rightarrow> ('j server, unit) tool" where
  "remember env tenant queue i embedding dedup =
     (case (dedup, embedding) of
        (Some index, Some e) \<Rightarrow> put_dedup tenant queue (index_insert i e (te_insert_now env) index)
      | _ \<Rightarrow> treturn ())"

text \<open>The part of \<^verbatim>\<open>enqueue_impl\<close> after the search for a near duplicate.\<close>

definition enqueue_new ::
  "tool_lib \<Rightarrow> 'j tool_env \<Rightarrow> tenant_id option \<Rightarrow> 'j enqueue_params \<Rightarrow> string \<Rightarrow> ('j, 'j) group
   \<Rightarrow> admission_controller \<Rightarrow> idempotency_key option \<Rightarrow> embedding option \<Rightarrow> message_id embedding_index option
   \<Rightarrow> ('j server, enqueue_result) tool" where
  "enqueue_new lib env tenant params queue g controller key embedding dedup =
     tbind (check_max_pending env tenant queue) (\<lambda>_.
     tbind (admit env tenant queue (ep_estimated_tokens params) (ep_estimated_cost params) controller) (\<lambda>remaining.
     tbind (group_call tenant queue (group_enqueue env (ep_payload params) key g)) (\<lambda>(res, g).
     tbind (lift_io res) (\<lambda>i.
     tbind (remember env tenant queue i embedding dedup) (\<lambda>_.
     tbind (record_queue_metrics lib env tenant queue g) (\<lambda>_.
     tbind (audit_enqueue env tenant queue (Some (id_to_string lib i)) False None) (\<lambda>_.
       treturn \<lparr> er_message_id = id_to_string lib i, er_queue = queue, er_deduplicated = False, er_similarity = None,
                 er_tokens_remaining = fst remaining, er_cost_remaining = snd remaining \<rparr>)))))))"

definition enqueue_impl ::
  "tool_lib \<Rightarrow> 'j tool_env \<Rightarrow> tenant_id option \<Rightarrow> 'j enqueue_params \<Rightarrow> ('j server, enqueue_result) tool" where
  "enqueue_impl lib env tenant params =
     tbind (transpose_opt check_embedding (ep_embedding params)) (\<lambda>embedding.
     tbind (resolve_target_queue env tenant (ep_queue params) embedding) (\<lambda>queue.
     tbind (registry_get env tenant queue) (\<lambda>g.
     tbind (registry_admission tenant queue) (\<lambda>controller.
     tbind (case embedding of
              Some _ \<Rightarrow> tbind (registry_dedup tenant queue) (\<lambda>index. treturn (Some index))
            | None \<Rightarrow> treturn None) (\<lambda>dedup.
     tbind (transpose_opt check_idempotency_key (ep_idempotency_key params)) (\<lambda>key.
     tbind (dedup_match env tenant queue embedding dedup) (\<lambda>(found, dedup).
       case found of
         Some (existing_id, similarity) \<Rightarrow>
           tbind (audit_enqueue env tenant queue (Some (id_to_string lib existing_id)) True None) (\<lambda>_.
             treturn \<lparr> er_message_id = id_to_string lib existing_id, er_queue = queue, er_deduplicated = True,
                       er_similarity = Some similarity, er_tokens_remaining = None, er_cost_remaining = None \<rparr>)
       | None \<Rightarrow> enqueue_new lib env tenant params queue g controller key embedding dedup)))))))"

section \<open>The tool claim\<close>

record claim_params =
  cp_queue :: string
  cp_wait_ms :: "u64 option"

record 'j claim_result =
  cl_available :: bool
  cl_throttled :: bool
  cl_message_id :: "string option"
  cl_lease_token :: "u64 option"
  cl_idempotency_key :: "string option"
  cl_payload :: "'j option"
  cl_delivery_count :: "u32 option"
  cl_checkpoint :: "'j option"

definition nothing_claimed :: "bool \<Rightarrow> 'j claim_result" where
  "nothing_claimed throttled =
     \<lparr> cl_available = False, cl_throttled = throttled, cl_message_id = None, cl_lease_token = None,
       cl_idempotency_key = None, cl_payload = None, cl_delivery_count = None, cl_checkpoint = None \<rparr>"

definition wait_for :: "u64 option \<Rightarrow> duration" where
  "wait_for wait_ms = min (case wait_ms of None \<Rightarrow> DEFAULT_CLAIM_WAIT | Some ms \<Rightarrow> from_millis (unat ms)) MAX_CLAIM_WAIT"

text \<open>The passes of \<^verbatim>\<open>claim\<close> before the timer fires; the last result is the one of the last pass.\<close>

fun claim_passes ::
  "(128 word \<Rightarrow> string) \<Rightarrow> claim_env list \<Rightarrow> ('a, 'v) group \<Rightarrow> ('a, 'v) claim_pass_result \<times> ('a, 'v) group" where
  "claim_passes display [] g = (WaitUntil None, g)"
| "claim_passes display (env # envs) g =
     (case claim_pass display env g of
        (WaitUntil _, g) \<Rightarrow> claim_passes display envs g
      | (r, g) \<Rightarrow> (r, g))"

text \<open>
  A pass that the timer cuts off: the expired leases are out of the map, the first \<open>k\<close> of them are resolved
  (an append that was under way may have reached the file or not: its outcome says which), the others
  are dropped with the future.
\<close>

definition cancelled_pass ::
  "claim_env \<times> nat \<Rightarrow> ('a, 'v) group \<Rightarrow> unit cg_result \<times> ('a, 'v) group" where
  "cancelled_pass c g =
     (case c of (env, k) \<Rightarrow>
        (let expired = expired_leases (ce_rank env) (ce_reclaim_now env) g in
         resolve_all (ce_resolve env) (take k expired) (remove_leases (map fst expired) g)))"

text \<open>\<^verbatim>\<open>tokio::time::timeout(wait, group.claim())\<close>; \<open>WaitUntil\<close> is the elapsed timer.\<close>

definition claim_timeout ::
  "tool_lib \<Rightarrow> claim_run \<Rightarrow> ('j, 'j) group \<Rightarrow> ('j, 'j) claim_pass_result \<times> ('j, 'j) group" where
  "claim_timeout lib run g =
     (case claim_passes (lib_display lib) (cr_passes run) g of
        (WaitUntil _, g) \<Rightarrow>
          (case cr_cancelled run of
             None \<Rightarrow> (WaitUntil None, g)
           | Some c \<Rightarrow>
               (case cancelled_pass c g of
                  (Inl CgPanic, g) \<Rightarrow> (ClaimPanic, g)
                | (_, g) \<Rightarrow> (WaitUntil None, g)))
      | (r, g) \<Rightarrow> (r, g))"

definition claimed_result :: "tool_lib \<Rightarrow> ('j, 'j) claim \<Rightarrow> 'j claim_result" where
  "claimed_result lib c =
     \<lparr> cl_available = True, cl_throttled = False, cl_message_id = Some (id_to_string lib (c_id c)),
       cl_lease_token = Some (token_as_u64 (c_token c)), cl_idempotency_key = Some (key_as_str (c_key c)),
       cl_payload = Some (c_item c), cl_delivery_count = Some (c_delivery_count c), cl_checkpoint = c_checkpoint c \<rparr>"

definition claim_impl ::
  "tool_lib \<Rightarrow> 'j tool_env \<Rightarrow> tenant_id option \<Rightarrow> claim_params \<Rightarrow> ('j server, 'j claim_result) tool" where
  "claim_impl lib env tenant params =
     tbind (registry_get env tenant (cp_queue params)) (\<lambda>g.
     tbind (registry_admission tenant (cp_queue params)) (\<lambda>controller.
       case has_headroom (te_admission_now env) controller of
         (headroom, controller) \<Rightarrow>
           tbind (put_admission tenant (cp_queue params) controller) (\<lambda>_.
             if \<not> headroom then treturn (nothing_claimed True)
             else
               tbind (group_call tenant (cp_queue params) (claim_timeout lib (te_claim env (wait_for (cp_wait_ms params))) g))
                 (\<lambda>(r, g).
                    case r of
                      Claimed c \<Rightarrow>
                        tbind (record_queue_metrics lib env tenant (cp_queue params) g)
                          (\<lambda>_. treturn (claimed_result lib c))
                    | WaitUntil _ \<Rightarrow> treturn (nothing_claimed False)
                    | ClaimPanic \<Rightarrow> tfail Panicked))))"

section \<open>The tools that resolve a delivery\<close>

record ack_params =
  ap_queue :: string
  ap_message_id :: string
  ap_lease_token :: u64

text \<open>What \<^verbatim>\<open>ack_impl\<close> does once the group says that the message is gone.\<close>

definition ack_cleanup ::
  "tool_lib \<Rightarrow> 'j tool_env \<Rightarrow> tenant_id option \<Rightarrow> string \<Rightarrow> message_id \<Rightarrow> ('j, 'j) group \<Rightarrow> ('j server, unit) tool" where
  "ack_cleanup lib env tenant queue i g =
     tbind (registry_dedup tenant queue) (\<lambda>index.
     tbind (put_dedup tenant queue (index_remove i index)) (\<lambda>_.
       case message_timestamp (lib_unix lib) i of
         None \<Rightarrow> tfail Panicked
       | Some enqueued_at \<Rightarrow>
           (let elapsed_ms = sat_sub (ts_millis (te_timestamp env)) (ts_millis enqueued_at) in
            tbind (record_latency queue (tenant_label tenant) (f64_div (f64_of_nat (unat elapsed_ms)) (Fin 1000))) (\<lambda>_.
              record_queue_metrics lib env tenant queue g))))"

definition ack_impl ::
  "tool_lib \<Rightarrow> 'j tool_env \<Rightarrow> tenant_id option \<Rightarrow> ack_params \<Rightarrow> ('j server, bool) tool" where
  "ack_impl lib env tenant params =
     tbind (registry_get env tenant (ap_queue params)) (\<lambda>g.
     tbind (parse_message_id lib (ap_message_id params)) (\<lambda>i.
     tbind (group_call tenant (ap_queue params) (cg_ack i (token_from_u64 (ap_lease_token params)) (te_wal_out env) g))
       (\<lambda>(res, g).
     tbind (lift_io res) (\<lambda>acked.
     tbind (if acked then ack_cleanup lib env tenant (ap_queue params) i g else treturn ()) (\<lambda>_.
     tbind (log_event env (AuditAck (tenant_label tenant) (ap_queue params) (id_to_string lib i) acked)) (\<lambda>_.
       treturn acked))))))"

record nack_params =
  np_queue :: string
  np_message_id :: string
  np_lease_token :: u64
  np_reason :: "string option"

definition nack_impl ::
  "tool_lib \<Rightarrow> 'j tool_env \<Rightarrow> tenant_id option \<Rightarrow> nack_params \<Rightarrow> ('j server, bool) tool" where
  "nack_impl lib env tenant params =
     tbind (registry_get env tenant (np_queue params)) (\<lambda>g.
     tbind (parse_message_id lib (np_message_id params)) (\<lambda>i.
     tbind (group_call tenant (np_queue params)
              (cg_nack (te_resolve env) i (token_from_u64 (np_lease_token params)) (np_reason params) g)) (\<lambda>(res, g).
     tbind (lift_cg res) (\<lambda>nacked.
     tbind (if nacked then record_queue_metrics lib env tenant (np_queue params) g else treturn ()) (\<lambda>_.
     tbind (log_event env
              (AuditNack (tenant_label tenant) (np_queue params) (id_to_string lib i) nacked (np_reason params))) (\<lambda>_.
       treturn nacked))))))"

record 'j checkpoint_params =
  kp_queue :: string
  kp_message_id :: string
  kp_lease_token :: u64
  kp_state :: 'j

definition checkpoint_impl ::
  "tool_lib \<Rightarrow> 'j tool_env \<Rightarrow> tenant_id option \<Rightarrow> 'j checkpoint_params \<Rightarrow> ('j server, bool) tool" where
  "checkpoint_impl lib env tenant params =
     tbind (registry_get env tenant (kp_queue params)) (\<lambda>g.
     tbind (parse_message_id lib (kp_message_id params)) (\<lambda>i.
     tbind (group_call tenant (kp_queue params)
              (cg_checkpoint i (token_from_u64 (kp_lease_token params)) (kp_state params) (te_wal_out env) g)) (\<lambda>(res, g).
       lift_io res)))"

section \<open>Partial results\<close>

record 'j publish_params =
  pp_queue :: string
  pp_message_id :: string
  pp_lease_token :: u64
  pp_data :: 'j
  pp_is_final :: "bool option"

record publish_result =
  pr_published :: bool
  pr_sequence :: "u64 option"

definition publish_partial_result_impl ::
  "tool_lib \<Rightarrow> 'j tool_env \<Rightarrow> tenant_id option \<Rightarrow> 'j publish_params \<Rightarrow> ('j server, publish_result) tool" where
  "publish_partial_result_impl lib env tenant params =
     tbind (registry_get env tenant (pp_queue params)) (\<lambda>g.
     tbind (parse_message_id lib (pp_message_id params)) (\<lambda>i.
     tbind (group_call tenant (pp_queue params)
              (publish_partial_result i (token_from_u64 (pp_lease_token params)) (pp_data params)
                 (case pp_is_final params of None \<Rightarrow> False | Some b \<Rightarrow> b) g)) (\<lambda>(sequence, g).
       treturn \<lparr> pr_published = (sequence \<noteq> None), pr_sequence = sequence \<rparr>)))"

record stream_params =
  sp_queue :: string
  sp_message_id :: string
  sp_after_sequence :: "u64 option"
  sp_wait_ms :: "u64 option"

record 'j stream_result =
  sr_active :: bool
  sr_chunks :: "'j stream_chunk list"

text \<open>The state a watcher sees is the one of its last pass; a pass that waits ends with the timer.\<close>

definition stream_partial_results_impl ::
  "tool_lib \<Rightarrow> 'j tool_env \<Rightarrow> tenant_id option \<Rightarrow> stream_params \<Rightarrow> ('j server, 'j stream_result) tool" where
  "stream_partial_results_impl lib env tenant params =
     tbind (registry_get env tenant (sp_queue params)) (\<lambda>g.
     tbind (parse_message_id lib (sp_message_id params)) (\<lambda>i.
       case partial_results_pass i (case sp_after_sequence params of None \<Rightarrow> 0 | Some n \<Rightarrow> n) g of
         Some (Chunks chunks) \<Rightarrow> treturn \<lparr> sr_active = True, sr_chunks = chunks \<rparr>
       | Some NotActive \<Rightarrow> treturn \<lparr> sr_active = False, sr_chunks = [] \<rparr>
       | None \<Rightarrow> treturn \<lparr> sr_active = True, sr_chunks = [] \<rparr>))"

section \<open>Admission and routes\<close>

definition as_secs :: "duration \<Rightarrow> u64" where
  "as_secs d = of_nat (d div nanos_per_sec)"

record configure_admission_params =
  ca_queue :: string
  ca_tokens_per_window :: "u64 option"
  ca_cost_ceiling_per_window :: "f64 option"
  ca_window_seconds :: "u64 option"

record configure_admission_result =
  car_tokens_per_window :: "u64 option"
  car_cost_ceiling_per_window :: "f64 option"
  car_window_seconds :: u64

definition configure_admission_impl ::
  "tenant_id option \<Rightarrow> configure_admission_params \<Rightarrow> ('j server, configure_admission_result) tool" where
  "configure_admission_impl tenant params =
     tbind (registry_admission tenant (ca_queue params)) (\<lambda>controller.
       let window = from_secs (case ca_window_seconds params of None \<Rightarrow> 3600 | Some secs \<Rightarrow> unat secs);
           config = \<lparr> tokens_per_window = ca_tokens_per_window params,
                      cost_ceiling_per_window = ca_cost_ceiling_per_window params, adm_window = window \<rparr>
       in tbind (put_admission tenant (ca_queue params) (admission_set_config config controller)) (\<lambda>_.
            treturn \<lparr> car_tokens_per_window = tokens_per_window config,
                      car_cost_ceiling_per_window = cost_ceiling_per_window config, car_window_seconds = as_secs window \<rparr>))"

record admission_status_result =
  as_tokens_per_window :: "u64 option"
  as_cost_ceiling_per_window :: "f64 option"
  as_window_seconds :: u64
  as_tokens_used :: u64
  as_cost_used :: f64
  as_tokens_remaining :: "u64 option"
  as_cost_remaining :: "f64 option"

definition admission_status_impl ::
  "'j tool_env \<Rightarrow> tenant_id option \<Rightarrow> string \<Rightarrow> ('j server, admission_status_result) tool" where
  "admission_status_impl env tenant queue =
     tbind (registry_admission tenant queue) (\<lambda>controller.
       let config = adm_config controller in
       case adm_usage (te_admission_now env) controller of
         (usage, controller) \<Rightarrow>
           tbind (put_admission tenant queue controller) (\<lambda>_.
             treturn \<lparr> as_tokens_per_window = tokens_per_window config,
                       as_cost_ceiling_per_window = cost_ceiling_per_window config,
                       as_window_seconds = as_secs (adm_window config),
                       as_tokens_used = tokens_used usage, as_cost_used = cost_used usage,
                       as_tokens_remaining =
                         map_option (\<lambda>limit. sat_sub limit (tokens_used usage)) (tokens_per_window config),
                       as_cost_remaining =
                         map_option (\<lambda>limit. f64_max (f64_sub limit (cost_used usage)) (Fin 0))
                           (cost_ceiling_per_window config) \<rparr>))"

record configure_route_params =
  rp_queue :: string
  rp_embedding :: "f32 list"

definition configure_route_impl ::
  "'j tool_env \<Rightarrow> tenant_id option \<Rightarrow> configure_route_params \<Rightarrow> ('j server, string list) tool" where
  "configure_route_impl env tenant params =
     tbind (validate_queue_name (rp_queue params)) (\<lambda>_.
     tbind (check_embedding (rp_embedding params)) (\<lambda>e.
     tbind (registry_routes tenant) (\<lambda>routes.
       case index_keys (te_name_rank env) (te_route_now env)
              (index_insert (rp_queue params) e (te_insert_now env) routes) of
         (keys, routes) \<Rightarrow> tbind (put_routes tenant routes) (\<lambda>_. treturn (sort keys)))))"

section \<open>Dead letters\<close>

record triage_summary =
  ts_classification :: string
  ts_reason :: string
  ts_triaged_at_ms :: u64

record 'j dead_letter_summary =
  ds_message_id :: string
  ds_payload :: 'j
  ds_delivery_count :: u32
  ds_last_error :: "string option"
  ds_dead_lettered_at_ms :: u64
  ds_checkpoint :: "'j option"
  ds_triage :: "triage_summary option"

primrec classification_name :: "triage_classification \<Rightarrow> string" where
  "classification_name Transient = ''transient''"
| "classification_name Permanent = ''permanent''"

definition summarize :: "tool_lib \<Rightarrow> ('j, 'j) dead_letter \<Rightarrow> 'j dead_letter_summary" where
  "summarize lib d =
     \<lparr> ds_message_id = id_to_string lib (dl_id d), ds_payload = dl_item d, ds_delivery_count = dl_delivery_count d,
       ds_last_error = dl_last_error d, ds_dead_lettered_at_ms = ts_millis (dl_dead_lettered_at d),
       ds_checkpoint = dl_checkpoint d,
       ds_triage =
         map_option (\<lambda>v. \<lparr> ts_classification = classification_name (tv_classification v), ts_reason = tv_reason v,
                           ts_triaged_at_ms = ts_millis (tv_triaged_at v) \<rparr>) (dl_triage d) \<rparr>"

definition list_dead_letters_impl ::
  "tool_lib \<Rightarrow> 'j tool_env \<Rightarrow> tenant_id option \<Rightarrow> string \<Rightarrow> ('j server, 'j dead_letter_summary list) tool" where
  "list_dead_letters_impl lib env tenant queue =
     tbind (registry_get env tenant queue) (\<lambda>g. treturn (map (summarize lib) (cg_dead_letters (te_id_rank env) g)))"

datatype triage_classification_param = TransientParam | PermanentParam

primrec classification_from :: "triage_classification_param \<Rightarrow> triage_classification" where
  "classification_from TransientParam = Transient"
| "classification_from PermanentParam = Permanent"

record triage_params =
  tp_queue :: string
  tp_message_id :: string
  tp_classification :: triage_classification_param
  tp_reason :: string

record triage_result =
  tr_annotated :: bool
  tr_reprocessed :: bool

definition triage_dead_letter_impl ::
  "tool_lib \<Rightarrow> 'j tool_env \<Rightarrow> tenant_id option \<Rightarrow> triage_params \<Rightarrow> ('j server, triage_result) tool" where
  "triage_dead_letter_impl lib env tenant params =
     tbind (registry_get env tenant (tp_queue params)) (\<lambda>g.
     tbind (parse_message_id lib (tp_message_id params)) (\<lambda>i.
       let classification = classification_from (tp_classification params);
           verdict = \<lparr> tv_classification = classification, tv_reason = tp_reason params,
                       tv_triaged_at = te_timestamp env \<rparr>
       in tbind (group_call tenant (tp_queue params) (annotate_dead_letter i verdict (te_annotate_out env) g)) (\<lambda>(res, g).
          tbind (lift_io res) (\<lambda>annotated.
            if \<not> annotated then treturn \<lparr> tr_annotated = False, tr_reprocessed = False \<rparr>
            else
              tbind (if classification = Transient
                     then tbind (group_call tenant (tp_queue params)
                                   (reprocess_dead_letter i (te_dlq_out env) (te_wal_out env) g)) (\<lambda>(res, g). lift_io res)
                     else treturn False) (\<lambda>reprocessed.
                treturn \<lparr> tr_annotated = True, tr_reprocessed = reprocessed \<rparr>)))))"

record dead_letter_action_params =
  da_queue :: string
  da_message_id :: string

definition reprocess_dead_letter_impl ::
  "tool_lib \<Rightarrow> 'j tool_env \<Rightarrow> tenant_id option \<Rightarrow> dead_letter_action_params \<Rightarrow> ('j server, bool) tool" where
  "reprocess_dead_letter_impl lib env tenant params =
     tbind (registry_get env tenant (da_queue params)) (\<lambda>g.
     tbind (parse_message_id lib (da_message_id params)) (\<lambda>i.
     tbind (group_call tenant (da_queue params) (reprocess_dead_letter i (te_dlq_out env) (te_wal_out env) g))
       (\<lambda>(res, g). lift_io res)))"

definition purge_dead_letter_impl ::
  "tool_lib \<Rightarrow> 'j tool_env \<Rightarrow> tenant_id option \<Rightarrow> dead_letter_action_params \<Rightarrow> ('j server, bool) tool" where
  "purge_dead_letter_impl lib env tenant params =
     tbind (registry_get env tenant (da_queue params)) (\<lambda>g.
     tbind (parse_message_id lib (da_message_id params)) (\<lambda>i.
     tbind (group_call tenant (da_queue params) (purge_dead_letter i (te_dlq_out env) g)) (\<lambda>(res, g). lift_io res)))"

section \<open>Keys and quotas\<close>

definition stdio_only :: "string \<Rightarrow> tenant_id option \<Rightarrow> ('s, unit) tool" where
  "stdio_only tool_name caller_tenant = (if caller_tenant \<noteq> None then tfail (StdioOnly tool_name) else treturn ())"

definition check_tenant_id :: "string \<Rightarrow> ('s, tenant_id) tool" where
  "check_tenant_id v = (case tenant_id_new v of Inl _ \<Rightarrow> tfail BadTenantId | Inr t \<Rightarrow> treturn t)"

text \<open>A method of the key store.\<close>

definition key_store_call ::
  "(api_key_store \<Rightarrow> 'r io_result \<times> api_key_store) \<Rightarrow> ('j server, 'r) tool" where
  "key_store_call f s =
     (case f (sv_api_keys s) of (res, api_keys) \<Rightarrow> lift_io res (s \<lparr> sv_api_keys := api_keys \<rparr>))"

record create_api_key_result =
  ck_api_key :: string
  ck_tenant_id :: string

definition create_api_key_impl ::
  "tool_lib \<Rightarrow> 'j tool_env \<Rightarrow> tenant_id option \<Rightarrow> string \<Rightarrow> ('j server, create_api_key_result) tool" where
  "create_api_key_impl lib env caller_tenant tenant_id =
     tbind (stdio_only ''create_api_key'' caller_tenant) (\<lambda>_.
     tbind (check_tenant_id tenant_id) (\<lambda>t.
     tbind (key_store_call (mint (lib_sha256 lib) (fst (te_uuids env)) (snd (te_uuids env)) t (te_wal_out env))) (\<lambda>api_key.
       treturn \<lparr> ck_api_key = api_key, ck_tenant_id = tenant_as_str t \<rparr>)))"

definition revoke_api_key_impl ::
  "tool_lib \<Rightarrow> 'j tool_env \<Rightarrow> tenant_id option \<Rightarrow> string \<Rightarrow> ('j server, bool) tool" where
  "revoke_api_key_impl lib env caller_tenant api_key =
     tbind (stdio_only ''revoke_api_key'' caller_tenant) (\<lambda>_.
       key_store_call (revoke (lib_sha256 lib) api_key (te_wal_out env)))"

record configure_quota_params =
  cq_tenant_id :: string
  cq_max_queues :: "u64 option"
  cq_max_pending_messages :: "u64 option"
  cq_requests_per_window :: "u64 option"
  cq_window_seconds :: "u64 option"

record configure_quota_result =
  qr_tenant_id :: string
  qr_max_queues :: "u64 option"
  qr_max_pending_messages :: "u64 option"
  qr_requests_per_window :: "u64 option"
  qr_window_seconds :: u64

definition configure_tenant_quota_impl ::
  "tenant_id option \<Rightarrow> configure_quota_params \<Rightarrow> ('j server, configure_quota_result) tool" where
  "configure_tenant_quota_impl caller_tenant params =
     tbind (stdio_only ''configure_tenant_quota'' caller_tenant) (\<lambda>_.
     tbind (check_tenant_id (cq_tenant_id params)) (\<lambda>t.
       let window = from_secs (case cq_window_seconds params of None \<Rightarrow> 60 | Some secs \<Rightarrow> unat secs);
           config = \<lparr> max_queues = cq_max_queues params, max_pending_messages = cq_max_pending_messages params,
                      requests_per_window = cq_requests_per_window params, quota_window = window \<rparr>
       in tbind (registry_quota t) (\<lambda>quota.
          tbind (put_quota t (quota_set_config config quota)) (\<lambda>_.
            treturn \<lparr> qr_tenant_id = tenant_as_str t, qr_max_queues = max_queues config,
                      qr_max_pending_messages = max_pending_messages config,
                      qr_requests_per_window = requests_per_window config, qr_window_seconds = as_secs window \<rparr>))))"

record quota_status_result =
  qs_tenant_id :: string
  qs_max_queues :: "u64 option"
  qs_queues_open :: nat
  qs_max_pending_messages :: "u64 option"
  qs_pending_messages :: u64
  qs_requests_per_window :: "u64 option"
  qs_requests_in_window :: u64
  qs_window_seconds :: u64

definition status_tenant :: "tenant_id option \<Rightarrow> string option \<Rightarrow> ('s, tenant_id) tool" where
  "status_tenant caller_tenant tenant_id =
     (case caller_tenant of
        Some t \<Rightarrow> treturn t
      | None \<Rightarrow> (case tenant_id of None \<Rightarrow> tfail TenantIdRequired | Some v \<Rightarrow> check_tenant_id v))"

definition tenant_quota_status_impl ::
  "'j tool_env \<Rightarrow> tenant_id option \<Rightarrow> string option \<Rightarrow> ('j server, quota_status_result) tool" where
  "tenant_quota_status_impl env caller_tenant tenant_id =
     tbind (status_tenant caller_tenant tenant_id) (\<lambda>t.
     tbind (registry_quota t) (\<lambda>quota.
       let config = tq_config quota in
       case requests_in_window (te_status_now env) quota of
         (in_window, quota) \<Rightarrow>
           tbind (put_quota t quota) (\<lambda>_.
           tbind (tenant_queue_count t) (\<lambda>queues_open.
           tbind (tenant_pending_total (te_name_rank env) t) (\<lambda>pending_messages.
             treturn \<lparr> qs_tenant_id = tenant_as_str t, qs_max_queues = max_queues config, qs_queues_open = queues_open,
                       qs_max_pending_messages = max_pending_messages config,
                       qs_pending_messages = pending_messages,
                       qs_requests_per_window = requests_per_window config, qs_requests_in_window = in_window,
                       qs_window_seconds = as_secs (quota_window config) \<rparr>)))))"

section \<open>Dispatch\<close>

datatype 'j tool_request =
  EnqueueTool "'j enqueue_params"
| ClaimTool claim_params
| AckTool ack_params
| NackTool nack_params
| CheckpointTool "'j checkpoint_params"
| PublishPartialResultTool "'j publish_params"
| StreamPartialResultsTool stream_params
| ConfigureAdmissionTool configure_admission_params
| AdmissionStatusTool string
| ConfigureRouteTool configure_route_params
| ListDeadLettersTool string
| TriageDeadLetterTool triage_params
| ReprocessDeadLetterTool dead_letter_action_params
| PurgeDeadLetterTool dead_letter_action_params
| CreateApiKeyTool string
| RevokeApiKeyTool string
| ConfigureTenantQuotaTool configure_quota_params
| TenantQuotaStatusTool "string option"

datatype 'j tool_reply =
  EnqueueReply enqueue_result
| ClaimReply "'j claim_result"
| AckReply bool
| NackReply bool
| CheckpointReply bool
| PublishPartialResultReply publish_result
| StreamPartialResultsReply "'j stream_result"
| ConfigureAdmissionReply configure_admission_result
| AdmissionStatusReply admission_status_result
| ConfigureRouteReply "string list"
| ListDeadLettersReply "'j dead_letter_summary list"
| TriageDeadLetterReply triage_result
| ReprocessDeadLetterReply bool
| PurgeDeadLetterReply bool
| CreateApiKeyReply create_api_key_result
| RevokeApiKeyReply bool
| ConfigureTenantQuotaReply configure_quota_result
| TenantQuotaStatusReply quota_status_result

definition tmap :: "('a \<Rightarrow> 'b) \<Rightarrow> ('s, 'a) tool \<Rightarrow> ('s, 'b) tool" where
  "tmap f m = tbind m (\<lambda>a. treturn (f a))"

fun tool_impl ::
  "tool_lib \<Rightarrow> 'j tool_env \<Rightarrow> tenant_id option \<Rightarrow> 'j tool_request \<Rightarrow> ('j server, 'j tool_reply) tool" where
  "tool_impl lib env tenant (EnqueueTool p) = tmap EnqueueReply (enqueue_impl lib env tenant p)"
| "tool_impl lib env tenant (ClaimTool p) = tmap ClaimReply (claim_impl lib env tenant p)"
| "tool_impl lib env tenant (AckTool p) = tmap AckReply (ack_impl lib env tenant p)"
| "tool_impl lib env tenant (NackTool p) = tmap NackReply (nack_impl lib env tenant p)"
| "tool_impl lib env tenant (CheckpointTool p) = tmap CheckpointReply (checkpoint_impl lib env tenant p)"
| "tool_impl lib env tenant (PublishPartialResultTool p) =
     tmap PublishPartialResultReply (publish_partial_result_impl lib env tenant p)"
| "tool_impl lib env tenant (StreamPartialResultsTool p) =
     tmap StreamPartialResultsReply (stream_partial_results_impl lib env tenant p)"
| "tool_impl lib env tenant (ConfigureAdmissionTool p) =
     tmap ConfigureAdmissionReply (configure_admission_impl tenant p)"
| "tool_impl lib env tenant (AdmissionStatusTool queue) =
     tmap AdmissionStatusReply (admission_status_impl env tenant queue)"
| "tool_impl lib env tenant (ConfigureRouteTool p) = tmap ConfigureRouteReply (configure_route_impl env tenant p)"
| "tool_impl lib env tenant (ListDeadLettersTool queue) =
     tmap ListDeadLettersReply (list_dead_letters_impl lib env tenant queue)"
| "tool_impl lib env tenant (TriageDeadLetterTool p) =
     tmap TriageDeadLetterReply (triage_dead_letter_impl lib env tenant p)"
| "tool_impl lib env tenant (ReprocessDeadLetterTool p) =
     tmap ReprocessDeadLetterReply (reprocess_dead_letter_impl lib env tenant p)"
| "tool_impl lib env tenant (PurgeDeadLetterTool p) =
     tmap PurgeDeadLetterReply (purge_dead_letter_impl lib env tenant p)"
| "tool_impl lib env tenant (CreateApiKeyTool t) = tmap CreateApiKeyReply (create_api_key_impl lib env tenant t)"
| "tool_impl lib env tenant (RevokeApiKeyTool k) = tmap RevokeApiKeyReply (revoke_api_key_impl lib env tenant k)"
| "tool_impl lib env tenant (ConfigureTenantQuotaTool p) =
     tmap ConfigureTenantQuotaReply (configure_tenant_quota_impl tenant p)"
| "tool_impl lib env tenant (TenantQuotaStatusTool t) =
     tmap TenantQuotaStatusReply (tenant_quota_status_impl env tenant t)"

definition tool_call ::
  "tool_lib \<Rightarrow> 'j tool_env \<Rightarrow> tenant_id option \<Rightarrow> 'j tool_request \<Rightarrow> ('j server, 'j tool_reply) tool" where
  "tool_call lib env tenant request =
     tbind (authorize_impl env tenant) (\<lambda>tenant. tool_impl lib env tenant request)"

text \<open>
  A request over HTTP: the middleware of \<^verbatim>\<open>http_auth.rs\<close> resolves the credential, and the call runs with
  the tenant it found; a request it refuses never reaches a tool.
\<close>

definition http_call ::
  "tool_lib \<Rightarrow> (u8 list \<Rightarrow> string option) \<Rightarrow> ('k \<Rightarrow> string \<Rightarrow> string option) \<Rightarrow> 'k option \<Rightarrow> 'j tool_env
   \<Rightarrow> u8 list option \<Rightarrow> 'j tool_request \<Rightarrow> 'j server \<Rightarrow> (mcp_error + 'j tool_reply) http_outcome \<times> 'j server" where
  "http_call lib to_str decode jwt_key env authorization request s =
     (case require_tenant (lib_sha256 lib) to_str decode (\<lambda>t. tool_call lib env (Some t) request s)
             \<lparr> as_api_keys = sv_api_keys s, as_jwt_key = jwt_key \<rparr> authorization of
        Unauthorized m \<Rightarrow> (Unauthorized m, s)
      | NextRan (res, s) \<Rightarrow> (NextRan res, s))"

end
