(* ===== verification/Tool_Logic.thy ===== *)
theory Tool_Logic
  imports Tool_Server Group_Invariants
begin

text \<open>
  A small program logic for the tools. \<open>triple E P m Q\<close> says that \<open>m\<close>, started in a state with \<open>P\<close>, ends with a
  result and \<open>Q\<close> or with an error and \<open>E\<close>. The locale \<open>handler_laws\<close> is the contract between an invariant of the
  server and the writes that the tools make: an invariant that obeys its laws is kept by every tool call.
  The theories that follow interpret it, once for each invariant.
\<close>

section \<open>Triples\<close>

fun outcome :: "('s \<Rightarrow> bool) \<Rightarrow> ('r \<Rightarrow> 's \<Rightarrow> bool) \<Rightarrow> (mcp_error + 'r) \<times> 's \<Rightarrow> bool" where
  "outcome E Q (Inl e, s) \<longleftrightarrow> E s"
| "outcome E Q (Inr r, s) \<longleftrightarrow> Q r s"

definition triple :: "('s \<Rightarrow> bool) \<Rightarrow> ('s \<Rightarrow> bool) \<Rightarrow> ('s, 'r) tool \<Rightarrow> ('r \<Rightarrow> 's \<Rightarrow> bool) \<Rightarrow> bool" where
  "triple E P m Q \<longleftrightarrow> (\<forall>s. P s \<longrightarrow> outcome E Q (m s))"

lemma outcome_iff: "outcome E Q x \<longleftrightarrow> (\<forall>e. fst x = Inl e \<longrightarrow> E (snd x)) \<and> (\<forall>r. fst x = Inr r \<longrightarrow> Q r (snd x))"
  by (cases x; cases "fst x") auto

lemma tbind_unfold: "tbind m f s = (case fst (m s) of Inl e \<Rightarrow> (Inl e, snd (m s)) | Inr a \<Rightarrow> f a (snd (m s)))"
  by (simp add: tbind_def split: prod.split sum.split)

lemma triple_return: "(\<And>s. P s \<Longrightarrow> Q r s) \<Longrightarrow> triple E P (treturn r) Q"
  by (simp add: triple_def treturn_def)

lemma triple_fail: "(\<And>s. P s \<Longrightarrow> E s) \<Longrightarrow> triple E P (tfail e) Q"
  by (simp add: triple_def tfail_def)

lemma triple_bind:
  assumes m: "triple E P m R" and f: "\<And>r. triple E (R r) (f r) Q"
  shows "triple E P (tbind m f) Q"
  unfolding triple_def
proof (intro allI impI)
  fix s assume "P s"
  then have m: "outcome E R (m s)" using m by (simp add: triple_def)
  show "outcome E Q (tbind m f s)"
  proof (cases "fst (m s)")
    case (Inl e)
    then show ?thesis using m by (simp add: tbind_unfold outcome_iff)
  next
    case (Inr r)
    then have "R r (snd (m s))" using m by (simp add: outcome_iff)
    then have "outcome E Q (f r (snd (m s)))" using f [of r] by (simp add: triple_def)
    then show ?thesis using Inr by (simp add: tbind_unfold)
  qed
qed

lemma tbind_assoc: "tbind (tbind m f) g = tbind m (\<lambda>x. tbind (f x) g)"
  by (rule ext) (simp add: tbind_unfold split: sum.split)

lemma triple_post:
  assumes "triple E P m R" and "\<And>r s. R r s \<Longrightarrow> Q r s"
  shows "triple E P m Q"
  using assms by (simp add: triple_def outcome_iff)

lemma triple_pre: "triple E R m Q \<Longrightarrow> (\<And>s. P s \<Longrightarrow> R s) \<Longrightarrow> triple E P m Q"
  unfolding triple_def by blast

lemma triple_if:
  "(c \<Longrightarrow> triple E P m Q) \<Longrightarrow> (\<not> c \<Longrightarrow> triple E P n Q) \<Longrightarrow> triple E P (if c then m else n) Q"
  by simp

lemma tmap_triple: "triple E P m (\<lambda>_. Q) \<Longrightarrow> triple E P (tmap f m) (\<lambda>_. Q)"
  unfolding tmap_def by (rule triple_bind) (auto intro: triple_return)

lemma triple_snd:
  assumes "triple E P m (\<lambda>_. E)" and "P s"
  shows "E (snd (m s))"
  using assms by (cases "fst (m s)") (auto simp: triple_def outcome_iff)

text \<open>A step that always succeeds.\<close>

lemma triple_det: "(\<And>s. P s \<Longrightarrow> fst (m s) = Inr (r s) \<and> Q (r s) (snd (m s))) \<Longrightarrow> triple E P m Q"
  by (simp add: triple_def outcome_iff)

section \<open>What a handler may do\<close>

definition current :: "tenant_id option \<Rightarrow> string \<Rightarrow> ('j, 'j) group \<Rightarrow> 'j server \<Rightarrow> bool" where
  "current tenant name g s \<longleftrightarrow> map_of (sv_groups s) (scope_key tenant name) = Some g"

definition quota_of :: "tenant_id \<Rightarrow> 'j server \<Rightarrow> tenant_quota" where
  "quota_of t s = (case sv_quotas s (tenant_as_str t) of None \<Rightarrow> quota_new quota_UNLIMITED | Some quota \<Rightarrow> quota)"

text \<open>The condition in the middle of a handler: the invariant, and what the handle still refers to.\<close>

definition held :: "('j server \<Rightarrow> bool) \<Rightarrow> tenant_id option \<Rightarrow> string \<Rightarrow> ('j, 'j) group option \<Rightarrow> 'j server \<Rightarrow> bool" where
  "held J tenant name handle s \<longleftrightarrow> J s \<and> (case handle of None \<Rightarrow> True | Some g \<Rightarrow> current tenant name g s)"

lemma held_None: "held J tenant name None = J"
  by (rule ext) (simp add: held_def)

lemma held_inv: "held J tenant name handle s \<Longrightarrow> J s"
  by (simp add: held_def)

lemma held_update:
  assumes "held J tenant name handle s" and "J s \<Longrightarrow> K s'" and "sv_groups s' = sv_groups s"
  shows "held K tenant name handle s'"
  using assms by (auto simp: held_def current_def split: option.splits)

lemma registry_get_current:
  assumes "fst (registry_get env tenant name s) = Inr g"
  shows "valid_queue_name name \<and> current tenant name g (snd (registry_get env tenant name s))"
proof -
  have valid: "valid_queue_name name"
    using assms by (auto simp: registry_get_def tbind_unfold validate_queue_name_def tfail_def split: if_splits)
  show ?thesis
  proof (cases "map_of (sv_groups s) (scope_key tenant name)")
    case (Some g')
    then show ?thesis
      using assms valid
      by (simp add: registry_get_def tbind_unfold validate_queue_name_def treturn_def lookup_group_def current_def)
  next
    case None
    then show ?thesis
      using assms valid
      by (auto simp: registry_get_def tbind_unfold validate_queue_name_def treturn_def tfail_def lookup_group_def current_def
          put_group_def map_of_update split: sum.splits prod.splits)
  qed
qed

text \<open>The three ways in which \<^verbatim>\<open>get\<close> can change the state.\<close>

definition touch_quota :: "tenant_id option \<Rightarrow> 'j server \<Rightarrow> 'j server" where
  "touch_quota tenant s = (case tenant of None \<Rightarrow> s | Some t \<Rightarrow> s \<lparr> sv_quotas := (sv_quotas s)(tenant_as_str t \<mapsto> quota_of t s) \<rparr>)"

lemma touch_quota_groups [simp]: "sv_groups (touch_quota tenant s) = sv_groups s"
  by (simp add: touch_quota_def split: option.split)

definition opened_group :: "'j tool_env \<Rightarrow> tenant_id option \<Rightarrow> string \<Rightarrow> ('j, 'j) group \<Rightarrow> bool" where
  "opened_group env tenant name g \<longleftrightarrow>
     (case te_open env (queue_path tenant name) of
        (opened, dlq_opened) \<Rightarrow> cg_open VISIBILITY_TIMEOUT retry_DEFAULT (te_id_rank env) opened dlq_opened = Inr g)"

definition within_queue_limit :: "tenant_id option \<Rightarrow> 'j server \<Rightarrow> bool" where
  "within_queue_limit tenant s \<longleftrightarrow>
     (\<forall>t limit. tenant = Some t \<longrightarrow> max_queues (tq_config (quota_of t s)) = Some limit \<longrightarrow> count_matching (sv_groups s) t < unat limit)"

lemma check_max_queues_eq:
  "check_max_queues tenant s =
     (if within_queue_limit tenant s then (Inr (), touch_quota tenant s)
      else (Inl (QueueLimit (tenant_as_str (the tenant)) (count_matching (sv_groups s) (the tenant))
              (the (max_queues (tq_config (quota_of (the tenant) s))))), touch_quota tenant s))"
  by (auto simp: check_max_queues_def within_queue_limit_def touch_quota_def tbind_unfold registry_quota_def quota_of_def
      tenant_queue_count_def treturn_def tfail_def Let_def fun_upd_triv map_upd_triv not_less split: option.splits)

lemma registry_get_cases:
  obtains (same) "snd (registry_get env tenant name s) = s"
  | (checked) "snd (registry_get env tenant name s) = touch_quota tenant s"
  | (opened) g where "valid_queue_name name" and "map_of (sv_groups s) (scope_key tenant name) = None"
      and "within_queue_limit tenant s" and "opened_group env tenant name g"
      and "snd (registry_get env tenant name s) =
        (touch_quota tenant s) \<lparr> sv_groups := AList.update (scope_key tenant name) g (sv_groups s) \<rparr>"
proof (cases "valid_queue_name name \<and> map_of (sv_groups s) (scope_key tenant name) = None \<and> within_queue_limit tenant s")
  case True
  obtain o1 d1 where logs: "te_open env (queue_path tenant name) = (o1, d1)" by fastforce
  show ?thesis
  proof (cases "te_create_dir env")
    case (Inl e)
    then show ?thesis
      using True checked
      by (simp add: registry_get_def tbind_unfold validate_queue_name_def treturn_def tfail_def lookup_group_def check_max_queues_eq)
  next
    case (Inr u)
    show ?thesis
    proof (cases "cg_open VISIBILITY_TIMEOUT retry_DEFAULT (te_id_rank env) o1 d1")
      case (Inl e)
      then show ?thesis
        using True checked logs \<open>te_create_dir env = Inr u\<close>
        by (simp add: registry_get_def tbind_unfold validate_queue_name_def treturn_def tfail_def lookup_group_def check_max_queues_eq)
    next
      case (Inr g)
      then show ?thesis
        using True opened [of g] logs \<open>te_create_dir env = Inr u\<close>
        by (simp add: registry_get_def tbind_unfold validate_queue_name_def treturn_def tfail_def lookup_group_def check_max_queues_eq
            put_group_def opened_group_def)
    qed
  qed
next
  case False
  then consider "\<not> valid_queue_name name" | g where "valid_queue_name name" "map_of (sv_groups s) (scope_key tenant name) = Some g"
    | "valid_queue_name name" "map_of (sv_groups s) (scope_key tenant name) = None" "\<not> within_queue_limit tenant s"
    by (cases "map_of (sv_groups s) (scope_key tenant name)") auto
  then show ?thesis
  proof cases
    case 1
    then show ?thesis using same by (simp add: registry_get_def tbind_unfold validate_queue_name_def tfail_def)
  next
    case 2
    then show ?thesis
      using same by (simp add: registry_get_def tbind_unfold validate_queue_name_def treturn_def lookup_group_def)
  next
    case 3
    then show ?thesis
      using checked
      by (simp add: registry_get_def tbind_unfold validate_queue_name_def treturn_def lookup_group_def check_max_queues_eq)
  qed
qed

lemma registry_get_source:
  assumes "registry_get env tenant name s = (Inr g, s')"
  shows "case map_of (sv_groups s) (scope_key tenant name) of
    Some open_group \<Rightarrow> g = open_group | None \<Rightarrow> opened_group env tenant name g"
proof -
  have "valid_queue_name name" using registry_get_current [of env tenant name s g] assms by simp
  then show ?thesis
    using assms
    by (auto simp: registry_get_def tbind_def validate_queue_name_def treturn_def tfail_def lookup_group_def check_max_queues_eq
        put_group_def opened_group_def split: option.splits sum.splits prod.splits if_splits)
qed

text \<open>The changes of a group that a tool other than \<^verbatim>\<open>enqueue\<close> makes.\<close>

fun resolving_call :: "('a, 'v) cg_call \<Rightarrow> bool" where
  "resolving_call (GEnqueue i item key out) \<longleftrightarrow> False"
| "resolving_call (GClaim env) \<longleftrightarrow> False"
| "resolving_call _ \<longleftrightarrow> True"

definition group_moves :: "tool_lib \<Rightarrow> 'j tool_env \<Rightarrow> ('j, 'j) group \<Rightarrow> ('j, 'j) group \<Rightarrow> bool" where
  "group_moves lib env g g' \<longleftrightarrow>
     (\<exists>c. resolving_call c \<and> g' = cg_step (lib_display lib) c g) \<or>
     (\<exists>wait. g' = snd (claim_timeout lib (te_claim env wait) g))"

lemma group_moves_calls:
  "group_moves lib env g (snd (cg_ack i token out g))"
  "group_moves lib env g (snd (cg_nack renv i token reason g))"
  "group_moves lib env g (snd (cg_checkpoint i token v out g))"
  "group_moves lib env g (snd (publish_partial_result i token v final g))"
  "group_moves lib env g (snd (annotate_dead_letter i verdict out g))"
  "group_moves lib env g (snd (reprocess_dead_letter i dlq_out out g))"
  "group_moves lib env g (snd (purge_dead_letter i dlq_out g))"
  "group_moves lib env g (snd (claim_timeout lib (te_claim env wait) g))"
proof -
  have move: "resolving_call c \<Longrightarrow> g' = cg_step (lib_display lib) c g \<Longrightarrow> group_moves lib env g g'" for c g'
    unfolding group_moves_def by blast
  show "group_moves lib env g (snd (cg_ack i token out g))" by (rule move [of "GAck i token out"]) simp_all
  show "group_moves lib env g (snd (cg_nack renv i token reason g))" by (rule move [of "GNack renv i token reason"]) simp_all
  show "group_moves lib env g (snd (cg_checkpoint i token v out g))" by (rule move [of "GCheckpoint i token v out"]) simp_all
  show "group_moves lib env g (snd (publish_partial_result i token v final g))"
    by (rule move [of "GPublish i token v final"]) simp_all
  show "group_moves lib env g (snd (annotate_dead_letter i verdict out g))" by (rule move [of "GAnnotate i verdict out"]) simp_all
  show "group_moves lib env g (snd (reprocess_dead_letter i dlq_out out g))"
    by (rule move [of "GReprocess i dlq_out out"]) simp_all
  show "group_moves lib env g (snd (purge_dead_letter i dlq_out g))" by (rule move [of "GPurge i dlq_out"]) simp_all
  show "group_moves lib env g (snd (claim_timeout lib (te_claim env wait) g))" unfolding group_moves_def by blast
qed

text \<open>The requests over the trusted connection that name a tenant.\<close>

fun request_ok :: "(tenant_id \<Rightarrow> bool) \<Rightarrow> (tenant_id \<Rightarrow> bool) \<Rightarrow> tenant_id option \<Rightarrow> 'j tool_request \<Rightarrow> bool" where
  "request_ok quotas configs None (ConfigureTenantQuotaTool p) \<longleftrightarrow>
     (\<forall>t. tenant_id_new (cq_tenant_id p) = Inr t \<longrightarrow> configs t)"
| "request_ok quotas configs None (TenantQuotaStatusTool (Some v)) \<longleftrightarrow>
     (\<forall>t. tenant_id_new v = Inr t \<longrightarrow> quotas t)"
| "request_ok quotas configs tenant request \<longleftrightarrow> True"

text \<open>
  An invariant \<open>I i b\<close> has two stages: \<open>b\<close> is false until the call has used its fresh message identifier.
  \<open>ok\<close> says for which callers and environments the laws hold, \<open>quota_ok\<close> and \<open>config_ok\<close> which quotas may be
  refreshed and which may be configured.
\<close>

locale handler_laws =
  fixes ok :: "'i \<Rightarrow> tool_lib \<Rightarrow> 'j tool_env \<Rightarrow> tenant_id option \<Rightarrow> bool"
    and I :: "'i \<Rightarrow> bool \<Rightarrow> 'j server \<Rightarrow> bool"
    and quota_ok :: "'i \<Rightarrow> tenant_id \<Rightarrow> bool"
    and config_ok :: "'i \<Rightarrow> tenant_id \<Rightarrow> bool"
  assumes used: "I i b s \<Longrightarrow> I i True s"
    and own_quota: "ok i lib env (Some t) \<Longrightarrow> quota_ok i t"
    and get_law: "ok i lib env tenant \<Longrightarrow> I i b s \<Longrightarrow> I i b (snd (registry_get env tenant name s))"
    and enqueue_law: "ok i lib env tenant \<Longrightarrow> valid_queue_name name \<Longrightarrow> I i False s \<Longrightarrow> current tenant name g s
      \<Longrightarrow> I i True (snd (put_group tenant name (snd (group_enqueue env item key g)) s))"
    and group_law: "ok i lib env tenant \<Longrightarrow> valid_queue_name name \<Longrightarrow> I i b s \<Longrightarrow> current tenant name g s
      \<Longrightarrow> group_moves lib env g g' \<Longrightarrow> I i True (snd (put_group tenant name g' s))"
    and admission_law: "ok i lib env tenant \<Longrightarrow> valid_queue_name name \<Longrightarrow> I i b s
      \<Longrightarrow> I i b (s \<lparr> sv_admission := (sv_admission s)(scope_key tenant name \<mapsto> controller) \<rparr>)"
    and dedup_law: "ok i lib env tenant \<Longrightarrow> valid_queue_name name \<Longrightarrow> I i b s
      \<Longrightarrow> I i b (s \<lparr> sv_dedup := (sv_dedup s)(scope_key tenant name \<mapsto> index) \<rparr>)"
    and routes_law: "ok i lib env tenant \<Longrightarrow> I i b s
      \<Longrightarrow> I i b (s \<lparr> sv_routes := (sv_routes s)(tenant_key tenant \<mapsto> routes) \<rparr>)"
    and quota_law: "quota_ok i t \<Longrightarrow> tq_config quota = tq_config (quota_of t s) \<Longrightarrow> I i b s
      \<Longrightarrow> I i b (s \<lparr> sv_quotas := (sv_quotas s)(tenant_as_str t \<mapsto> quota) \<rparr>)"
    and config_law: "ok i lib env None \<Longrightarrow> config_ok i t \<Longrightarrow> I i b s
      \<Longrightarrow> I i b (s \<lparr> sv_quotas := (sv_quotas s)(tenant_as_str t \<mapsto> quota) \<rparr>)"
    and keys_law: "ok i lib env None \<Longrightarrow> I i b s \<Longrightarrow> I i b (s \<lparr> sv_api_keys := store \<rparr>)"
    and depth_law: "I i b s \<Longrightarrow> I i b (s \<lparr> sv_depth := depth \<rparr>)"
    and lag_law: "I i b s \<Longrightarrow> I i b (s \<lparr> sv_lag := lag \<rparr>)"
    and latency_law: "I i b s \<Longrightarrow> I i b (s \<lparr> sv_latency := latency \<rparr>)"
    and audit_law: "I i b s \<Longrightarrow> I i b (s \<lparr> sv_audit := audit \<rparr>)"
begin

lemma get_bind:
  assumes ok: "ok i lib env tenant"
    and f: "\<And>g. valid_queue_name name \<Longrightarrow> triple E (held (I i b) tenant name (Some g)) (f g) Q"
    and E: "\<And>s. I i b s \<Longrightarrow> E s"
  shows "triple E (I i b) (tbind (registry_get env tenant name) f) Q"
proof (rule triple_bind [where R = "\<lambda>g s. held (I i b) tenant name (Some g) s \<and> valid_queue_name name"])
  show "triple E (I i b) (registry_get env tenant name) (\<lambda>g s. held (I i b) tenant name (Some g) s \<and> valid_queue_name name)"
    unfolding triple_def
  proof (intro allI impI)
    fix s assume "I i b s"
    then have inv: "I i b (snd (registry_get env tenant name s))" by (rule get_law [OF ok])
    then show "outcome E (\<lambda>g s. held (I i b) tenant name (Some g) s \<and> valid_queue_name name) (registry_get env tenant name s)"
      using registry_get_current [of env tenant name s] E by (auto simp: held_def outcome_iff)
  qed
  show "triple E (\<lambda>s. held (I i b) tenant name (Some g) s \<and> valid_queue_name name) (f g) Q" for g
    using f [of g] by (auto simp: triple_def)
qed

lemma group_bind:
  assumes ok: "ok i lib env tenant" and valid: "valid_queue_name name" and moves: "group_moves lib env g (snd res)"
    and f: "triple E (held (I i True) tenant name (Some (snd res))) (f res) Q"
  shows "triple E (held (I i b) tenant name (Some g)) (tbind (group_call tenant name res) f) Q"
proof (rule triple_bind [where R = "\<lambda>r s. r = res \<and> held (I i True) tenant name (Some (snd res)) s"])
  show "triple E (held (I i b) tenant name (Some g)) (group_call tenant name res)
      (\<lambda>r s. r = res \<and> held (I i True) tenant name (Some (snd res)) s)"
  proof (rule triple_det [where r = "\<lambda>_. res"])
    fix s assume held: "held (I i b) tenant name (Some g) s"
    then have "I i True (snd (put_group tenant name (snd res) s))"
      using group_law [OF ok valid _ _ moves] by (auto simp: held_def)
    then show "fst (group_call tenant name res s) = Inr res \<and>
        (res = res \<and> held (I i True) tenant name (Some (snd res)) (snd (group_call tenant name res s)))"
      by (simp add: group_call_def tbind_unfold treturn_def put_group_def held_def current_def map_of_update
          case_prod_beta)
  qed
  show "triple E (\<lambda>s. r = res \<and> held (I i True) tenant name (Some (snd res)) s) (f r) Q" for r
    using f by (auto simp: triple_def)
qed

lemma enqueue_bind:
  assumes ok: "ok i lib env tenant" and valid: "valid_queue_name name" and res: "res = group_enqueue env item key g"
    and f: "triple E (held (I i True) tenant name (Some (snd res))) (f res) Q"
  shows "triple E (held (I i False) tenant name (Some g)) (tbind (group_call tenant name res) f) Q"
proof (rule triple_bind [where R = "\<lambda>r s. r = res \<and> held (I i True) tenant name (Some (snd res)) s"])
  show "triple E (held (I i False) tenant name (Some g)) (group_call tenant name res)
      (\<lambda>r s. r = res \<and> held (I i True) tenant name (Some (snd res)) s)"
  proof (rule triple_det [where r = "\<lambda>_. res"])
    fix s assume held: "held (I i False) tenant name (Some g) s"
    then have "I i True (snd (put_group tenant name (snd res) s))"
      using enqueue_law [OF ok valid] by (auto simp: held_def res)
    then show "fst (group_call tenant name res s) = Inr res \<and>
        (res = res \<and> held (I i True) tenant name (Some (snd res)) (snd (group_call tenant name res s)))"
      by (simp add: group_call_def tbind_unfold treturn_def put_group_def held_def current_def map_of_update
          case_prod_beta)
  qed
  show "triple E (\<lambda>s. r = res \<and> held (I i True) tenant name (Some (snd res)) s) (f r) Q" for r
    using f by (auto simp: triple_def)
qed

lemma write_held:
  assumes "\<And>s. I i b s \<Longrightarrow> I i b (w s)" and "\<And>s. sv_groups (w s) = sv_groups s" and "\<And>s. m s = (Inr (r s), w s)"
  shows "triple (I i True) (held (I i b) tenant name handle) m (\<lambda>_. held (I i b) tenant name handle)"
proof (rule triple_det [where r = r])
  fix s assume "held (I i b) tenant name handle s"
  then have "held (I i b) tenant name handle (w s)" by (rule held_update) (rule assms(1), assumption, rule assms(2))
  then show "fst (m s) = Inr (r s) \<and> held (I i b) tenant name handle (snd (m s))" by (simp add: assms(3))
qed

lemma held_end: "held (I i b) tenant name handle s \<Longrightarrow> I i True s"
  by (rule used [OF held_inv])

lemma fail_held [intro]: "triple (I i True) (held (I i b) tenant name handle) (tfail e) Q"
  by (rule triple_fail) (rule held_end)

lemma fail_plain: "triple (I i True) (I i b) (tfail e) Q"
  by (rule triple_fail) (rule used)

lemma return_held [intro]: "triple (I i True) (held (I i b) tenant name handle) (treturn r) (\<lambda>_. held (I i b) tenant name handle)"
  by (rule triple_return)

lemma return_end [intro]: "triple (I i True) (held (I i b) tenant name handle) (treturn r) (\<lambda>_. I i True)"
  by (rule triple_return) (rule held_end)

lemma lift_held [intro]:
  "triple (I i True) (held (I i b) tenant name handle) (lift_io res) (\<lambda>_. held (I i b) tenant name handle)"
  "triple (I i True) (held (I i b) tenant name handle) (lift_cg res') (\<lambda>_. held (I i b) tenant name handle)"
  by (auto simp: lift_io_def lift_cg_def split: sum.split cg_error.split)

lemma parse_held [intro]:
  "triple (I i True) (held (I i b) tenant name handle) (parse_message_id lib v) (\<lambda>_. held (I i b) tenant name handle)"
  "triple (I i True) (held (I i b) tenant name handle) (validate_queue_name q) (\<lambda>_. held (I i b) tenant name handle)"
  "triple (I i True) (held (I i b) tenant name handle) (check_embedding e) (\<lambda>_. held (I i b) tenant name handle)"
  "triple (I i True) (held (I i b) tenant name handle) (check_idempotency_key v) (\<lambda>_. held (I i b) tenant name handle)"
  "triple (I i True) (held (I i b) tenant name handle) (check_tenant_id v) (\<lambda>_. held (I i b) tenant name handle)"
  "triple (I i True) (held (I i b) tenant name handle) (stdio_only v t) (\<lambda>_. held (I i b) tenant name handle)"
  by (auto simp: parse_message_id_def validate_queue_name_def check_embedding_def check_idempotency_key_def
      check_tenant_id_def stdio_only_def split: option.split sum.split)

lemma transpose_held [intro]:
  assumes "\<And>a. triple (I i True) (held (I i b) tenant name handle) (f a) (\<lambda>_. held (I i b) tenant name handle)"
  shows "triple (I i True) (held (I i b) tenant name handle) (transpose_opt f v) (\<lambda>_. held (I i b) tenant name handle)"
  unfolding transpose_opt_def
  by (cases v) (auto intro: triple_bind [OF assms])

lemma metric_held [intro]:
  "triple (I i True) (held (I i b) tenant name handle) (set_depth labels v) (\<lambda>_. held (I i b) tenant name handle)"
  "triple (I i True) (held (I i b) tenant name handle) (set_lag labels v) (\<lambda>_. held (I i b) tenant name handle)"
  "triple (I i True) (held (I i b) tenant name handle) (record_latency q label v) (\<lambda>_. held (I i b) tenant name handle)"
  "triple (I i True) (held (I i b) tenant name handle) (log_event env event) (\<lambda>_. held (I i b) tenant name handle)"
  by (rule write_held [where r = "\<lambda>_. ()"];
      auto simp: set_depth_def set_lag_def record_latency_def log_event_def intro: depth_law lag_law latency_law audit_law)+

lemma admission_held:
  assumes "ok i lib env tenant" and "valid_queue_name name"
  shows "triple (I i True) (held (I i b) tenant name handle) (lookup_admission tenant name) (\<lambda>_. held (I i b) tenant name handle)"
    and "triple (I i True) (held (I i b) tenant name handle) (put_admission tenant name controller)
      (\<lambda>_. held (I i b) tenant name handle)"
proof -
  let ?new = "admission_new admission_UNLIMITED"
  let ?w = "\<lambda>s. if sv_admission s (scope_key tenant name) = None
    then s \<lparr> sv_admission := (sv_admission s)(scope_key tenant name \<mapsto> ?new) \<rparr> else s"
  show "triple (I i True) (held (I i b) tenant name handle) (lookup_admission tenant name) (\<lambda>_. held (I i b) tenant name handle)"
    by (rule write_held [where w = ?w and r = "\<lambda>s. case sv_admission s (scope_key tenant name) of None \<Rightarrow> ?new | Some c \<Rightarrow> c"])
      (auto simp: lookup_admission_def Let_def intro: admission_law [OF assms] split: option.split)
  show "triple (I i True) (held (I i b) tenant name handle) (put_admission tenant name controller)
      (\<lambda>_. held (I i b) tenant name handle)"
    by (rule write_held [where r = "\<lambda>_. ()"]) (auto simp: put_admission_def intro: admission_law [OF assms])
qed

lemma dedup_held:
  assumes "ok i lib env tenant" and "valid_queue_name name"
  shows "triple (I i True) (held (I i b) tenant name handle) (lookup_dedup tenant name) (\<lambda>_. held (I i b) tenant name handle)"
    and "triple (I i True) (held (I i b) tenant name handle) (put_dedup tenant name index)
      (\<lambda>_. held (I i b) tenant name handle)"
proof -
  let ?w = "\<lambda>s. if sv_dedup s (scope_key tenant name) = None
    then s \<lparr> sv_dedup := (sv_dedup s)(scope_key tenant name \<mapsto> index_new (Some DEDUP_TTL)) \<rparr> else s"
  show "triple (I i True) (held (I i b) tenant name handle) (lookup_dedup tenant name) (\<lambda>_. held (I i b) tenant name handle)"
    by (rule write_held [where w = ?w and
          r = "\<lambda>s. case sv_dedup s (scope_key tenant name) of None \<Rightarrow> index_new (Some DEDUP_TTL) | Some c \<Rightarrow> c"])
      (auto simp: lookup_dedup_def Let_def intro: dedup_law [OF assms] split: option.split)
  show "triple (I i True) (held (I i b) tenant name handle) (put_dedup tenant name index)
      (\<lambda>_. held (I i b) tenant name handle)"
    by (rule write_held [where r = "\<lambda>_. ()"]) (auto simp: put_dedup_def intro: dedup_law [OF assms])
qed

lemma routes_held:
  assumes "ok i lib env tenant"
  shows "triple (I i True) (held (I i b) tenant name handle) (registry_routes tenant) (\<lambda>_. held (I i b) tenant name handle)"
    and "triple (I i True) (held (I i b) tenant name handle) (put_routes tenant routes) (\<lambda>_. held (I i b) tenant name handle)"
proof -
  let ?w = "\<lambda>s. if sv_routes s (tenant_key tenant) = None
    then s \<lparr> sv_routes := (sv_routes s)(tenant_key tenant \<mapsto> index_new None) \<rparr> else s"
  show "triple (I i True) (held (I i b) tenant name handle) (registry_routes tenant) (\<lambda>_. held (I i b) tenant name handle)"
    by (rule write_held [where w = ?w and
          r = "\<lambda>s. case sv_routes s (tenant_key tenant) of None \<Rightarrow> index_new None | Some c \<Rightarrow> c"])
      (auto simp: registry_routes_def Let_def intro: routes_law [OF assms] split: option.split)
  show "triple (I i True) (held (I i b) tenant name handle) (put_routes tenant routes) (\<lambda>_. held (I i b) tenant name handle)"
    by (rule write_held [where r = "\<lambda>_. ()"]) (auto simp: put_routes_def intro: routes_law [OF assms])
qed

lemma quota_held:
  assumes "quota_ok i t"
  shows "triple (I i True) (held (I i b) tenant name handle) (registry_quota t) (\<lambda>_. held (I i b) tenant name handle)"
    and "triple (I i True) (held (I i b) tenant name handle) (tenant_queue_count t) (\<lambda>_. held (I i b) tenant name handle)"
    and "triple (I i True) (held (I i b) tenant name handle) (tenant_pending_total rank t) (\<lambda>_. held (I i b) tenant name handle)"
proof -
  let ?w = "\<lambda>s. if sv_quotas s (tenant_as_str t) = None
    then s \<lparr> sv_quotas := (sv_quotas s)(tenant_as_str t \<mapsto> quota_new quota_UNLIMITED) \<rparr> else s"
  have "I i b (?w s)" if "I i b s" for s using that quota_law [OF assms _ that] by (auto simp: quota_of_def)
  then show "triple (I i True) (held (I i b) tenant name handle) (registry_quota t) (\<lambda>_. held (I i b) tenant name handle)"
    by (rule write_held [where w = ?w and r = "quota_of t"])
      (auto simp: registry_quota_def quota_of_def Let_def split: option.split)
  show "triple (I i True) (held (I i b) tenant name handle) (tenant_queue_count t) (\<lambda>_. held (I i b) tenant name handle)"
    "triple (I i True) (held (I i b) tenant name handle) (tenant_pending_total rank t) (\<lambda>_. held (I i b) tenant name handle)"
    by (auto simp: tenant_queue_count_def tenant_pending_total_def triple_def)
qed

text \<open>A quota that is read, refreshed without a change of its configuration, and written back.\<close>

lemma quota_bind:
  assumes quota: "quota_ok i t" and config: "\<And>quota. tq_config (snd (refresh quota)) = tq_config quota"
    and f: "\<And>q. triple (I i True) (I i b) (f q (fst (refresh q))) Q"
  shows "triple (I i True) (I i b)
    (tbind (registry_quota t) (\<lambda>q. case refresh q of (r, q') \<Rightarrow> tbind (put_quota t q') (\<lambda>_. f q r))) Q"
  (is "triple _ _ ?m _")
proof -
  have m: "?m s = f (quota_of t s) (fst (refresh (quota_of t s)))
      (s \<lparr> sv_quotas := (sv_quotas s)(tenant_as_str t \<mapsto> snd (refresh (quota_of t s))) \<rparr>)" for s
    by (simp add: tbind_unfold registry_quota_def put_quota_def quota_of_def Let_def case_prod_beta split: option.split)
  show ?thesis
    unfolding triple_def
  proof (intro allI impI)
    fix s assume "I i b s"
    then have "I i b (s \<lparr> sv_quotas := (sv_quotas s)(tenant_as_str t \<mapsto> snd (refresh (quota_of t s))) \<rparr>)"
      by (rule quota_law [OF quota config])
    then show "outcome (I i True) Q (?m s)" using f [of "quota_of t s"] unfolding m by (simp add: triple_def)
  qed
qed

lemma validate_bind:
  assumes "valid_queue_name q \<Longrightarrow> triple (I i True) (held (I i b) tenant name handle) (f ()) Q"
  shows "triple (I i True) (held (I i b) tenant name handle) (tbind (validate_queue_name q) f) Q"
proof (cases "valid_queue_name q")
  case True
  then have "tbind (validate_queue_name q) f = f ()"
    by (intro ext) (simp add: validate_queue_name_def tbind_unfold treturn_def)
  then show ?thesis using assms True by simp
next
  case False
  then have "tbind (validate_queue_name q) f = tfail (BadQueueName q)"
    by (intro ext) (simp add: validate_queue_name_def tbind_unfold tfail_def)
  then show ?thesis by (simp add: fail_held)
qed

lemmas read_held = fail_held return_held return_end lift_held parse_held transpose_held metric_held

lemma record_queue_metrics_held [intro]:
  "triple (I i True) (held (I i b) tenant name handle) (record_queue_metrics lib env t q g)
     (\<lambda>_. held (I i b) tenant name handle)"
  unfolding record_queue_metrics_def
  by (rule triple_bind [OF metric_held(1)]) (auto split: option.split intro!: read_held)

lemma audit_enqueue_held [intro]:
  "triple (I i True) (held (I i b) tenant name handle) (audit_enqueue env t q m d e) (\<lambda>_. held (I i b) tenant name handle)"
  unfolding audit_enqueue_def by (rule metric_held)

lemma authorize_impl_triple:
  assumes "ok i lib env tenant"
  shows "triple (I i True) (I i b) (authorize_impl env tenant) (\<lambda>r s. r = tenant \<and> I i b s)"
proof (cases tenant)
  case None
  then show ?thesis by (simp add: authorize_impl_def triple_return)
next
  case (Some t)
  have q: "quota_ok i t" using assms own_quota by (simp add: Some)
  have config: "tq_config (snd (try_acquire now quota)) = tq_config quota" for now quota
    by (simp add: try_acquire_def Let_def split: option.split)
  show ?thesis
    unfolding authorize_impl_def Some option.case
  proof (rule quota_bind [OF q config])
    show "triple (I i True) (I i b)
        (case fst (try_acquire (te_quota_now env) quota) of
           QuotaAllowed _ \<Rightarrow> treturn (Some t)
         | QuotaDenied reason retry_after \<Rightarrow> tfail (throttled_to_mcp (ByQuota reason) retry_after))
        (\<lambda>r s. r = Some t \<and> I i b s)" for quota
      by (cases "fst (try_acquire (te_quota_now env) quota)") (auto intro: triple_return triple_fail used)
  qed
qed

lemma resolve_target_queue_triple:
  assumes "ok i lib env tenant"
  shows "triple (I i True) (I i b) (resolve_target_queue env tenant q e) (\<lambda>_. I i b)"
proof -
  have "triple (I i True) (held (I i b) tenant [] None) (resolve_target_queue env tenant q e) (\<lambda>_. held (I i b) tenant [] None)"
    unfolding resolve_target_queue_def
    by (auto split: option.split prod.split
        intro!: read_held triple_bind [OF routes_held(1) [OF assms]] triple_bind [OF routes_held(2) [OF assms]])
  then show ?thesis by (simp add: held_None)
qed

lemma dedup_match_held:
  assumes "ok i lib env tenant" and "valid_queue_name name"
  shows "triple (I i True) (held (I i b) tenant name handle) (dedup_match env tenant name e d) (\<lambda>_. held (I i b) tenant name handle)"
  unfolding dedup_match_def
  by (auto split: option.split prod.split intro!: read_held triple_bind [OF dedup_held(2) [OF assms]])

lemma remember_held:
  assumes "ok i lib env tenant" and "valid_queue_name name"
  shows "triple (I i True) (held (I i b) tenant name handle) (remember env tenant name m e d) (\<lambda>_. held (I i b) tenant name handle)"
  unfolding remember_def by (auto split: option.split prod.split intro!: read_held dedup_held(2) [OF assms])

lemma check_max_pending_held:
  assumes "ok i lib env tenant"
  shows "triple (I i True) (held (I i b) tenant name handle) (check_max_pending env tenant q) (\<lambda>_. held (I i b) tenant name handle)"
proof (cases tenant)
  case None
  then show ?thesis by (simp add: check_max_pending_def return_held)
next
  case (Some t)
  have q: "quota_ok i t" using assms own_quota by (simp add: Some)
  show ?thesis
    unfolding check_max_pending_def Some option.case
    by (auto split: option.split intro!: read_held triple_bind [OF quota_held(1) [OF q]] triple_bind [OF quota_held(3) [OF q]]
        triple_bind [OF audit_enqueue_held])
qed

lemma admit_held:
  assumes "ok i lib env tenant" and "valid_queue_name name"
  shows "triple (I i True) (held (I i b) tenant name handle) (admit env tenant name tokens cost c)
    (\<lambda>_. held (I i b) tenant name handle)"
  unfolding admit_def
  by (auto split: prod.split admission_decision.split
      intro!: read_held triple_bind [OF admission_held(2) [OF assms]] triple_bind [OF audit_enqueue_held])

lemma enqueue_new_triple:
  assumes "ok i lib env tenant" and "valid_queue_name name"
  shows "triple (I i True) (held (I i False) tenant name (Some g)) (enqueue_new lib env tenant params name g c key e d)
    (\<lambda>_. I i True)"
  unfolding enqueue_new_def
  by (rule triple_bind [OF check_max_pending_held [OF assms(1)]] triple_bind [OF admit_held [OF assms]]
        enqueue_bind [OF assms refl])+
    (auto simp: case_prod_beta intro!: read_held triple_bind [OF lift_held(1)] triple_bind [OF remember_held [OF assms]]
        triple_bind [OF record_queue_metrics_held] triple_bind [OF audit_enqueue_held])

lemma enqueue_impl_triple:
  assumes ok: "ok i lib env tenant"
  shows "triple (I i True) (I i False) (enqueue_impl lib env tenant params) (\<lambda>_. I i True)"
proof -
  have dedup: "triple (I i True) (held (I i False) tenant q handle)
      (case e of Some _ \<Rightarrow> tbind (registry_dedup tenant q) (\<lambda>index. treturn (Some index)) | None \<Rightarrow> treturn None)
      (\<lambda>_. held (I i False) tenant q handle)"
    if "valid_queue_name q" for q handle and e :: "embedding option"
    unfolding registry_dedup_def tbind_assoc
    by (cases e) (auto intro!: return_held validate_bind triple_bind [OF dedup_held(1) [OF ok that]])
  have rest: "triple (I i True) (held (I i False) tenant q (Some g))
      (tbind (registry_admission tenant q) (\<lambda>controller.
       tbind (case e of Some _ \<Rightarrow> tbind (registry_dedup tenant q) (\<lambda>index. treturn (Some index)) | None \<Rightarrow> treturn None) (\<lambda>dedup.
       tbind (transpose_opt check_idempotency_key (ep_idempotency_key params)) (\<lambda>key.
       tbind (dedup_match env tenant q e dedup) (\<lambda>(found, dedup).
         case found of
           Some (existing_id, similarity) \<Rightarrow>
             tbind (audit_enqueue env tenant q (Some (id_to_string lib existing_id)) True None) (\<lambda>_. treturn (r existing_id similarity))
         | None \<Rightarrow> enqueue_new lib env tenant params q g controller key e dedup))))) (\<lambda>_. I i True)"
    if "valid_queue_name q" for q g e and r :: "message_id \<Rightarrow> f64 \<Rightarrow> enqueue_result"
    unfolding registry_admission_def registry_dedup_def tbind_assoc
    by (rule validate_bind, rule triple_bind [OF admission_held(1) [OF ok that]],
        rule triple_bind [OF dedup [unfolded registry_dedup_def tbind_assoc, OF that]])
      (auto split: option.split prod.split
        intro!: return_end parse_held triple_bind [OF transpose_held]
          triple_bind [OF dedup_match_held [OF ok that]] triple_bind [OF audit_enqueue_held] enqueue_new_triple [OF ok that])
  have "triple (I i True) (held (I i False) tenant [] None) (transpose_opt check_embedding v) (\<lambda>_. held (I i False) tenant [] None)" for v
    by (rule transpose_held) (rule parse_held)
  then have embedding: "triple (I i True) (I i False) (transpose_opt check_embedding v) (\<lambda>_. I i False)" for v by (simp add: held_None)
  show ?thesis
    unfolding enqueue_impl_def
    by (rule triple_bind [OF embedding], rule triple_bind [OF resolve_target_queue_triple [OF ok]], rule get_bind [OF ok], rule rest)
      (auto intro: used)
qed

lemma claim_impl_triple:
  assumes ok: "ok i lib env tenant"
  shows "triple (I i True) (I i b) (claim_impl lib env tenant params) (\<lambda>_. I i True)"
proof -
  have rest: "triple (I i True) (held (I i b) tenant q (Some g))
      (tbind (group_call tenant q (claim_timeout lib (te_claim env wait) g)) (\<lambda>(r, g).
         case r of
           Claimed c \<Rightarrow> tbind (record_queue_metrics lib env tenant q g) (\<lambda>_. treturn (claimed_result lib c))
         | WaitUntil _ \<Rightarrow> treturn (nothing_claimed False)
         | ClaimPanic \<Rightarrow> tfail Panicked)) (\<lambda>_. I i True)" if "valid_queue_name q" for q g wait
    by (rule group_bind [OF ok that group_moves_calls(8)])
      (auto split: prod.split claim_pass_result.split intro!: read_held triple_bind [OF record_queue_metrics_held])
  show ?thesis
    unfolding claim_impl_def registry_admission_def tbind_assoc
    by (rule get_bind [OF ok], rule validate_bind, rule triple_bind [OF admission_held(1) [OF ok]])
      (auto split: prod.split intro!: rest read_held triple_bind [OF admission_held(2) [OF ok]] intro: used)
qed

lemma ack_cleanup_held:
  assumes "ok i lib env tenant" and "valid_queue_name name"
  shows "triple (I i True) (held (I i b) tenant name handle) (ack_cleanup lib env tenant name m g) (\<lambda>_. held (I i b) tenant name handle)"
  unfolding ack_cleanup_def registry_dedup_def tbind_assoc
  by (rule validate_bind, rule triple_bind [OF dedup_held(1) [OF assms]], rule triple_bind [OF dedup_held(2) [OF assms]])
    (auto simp: Let_def split: option.split intro!: fail_held record_queue_metrics_held triple_bind [OF metric_held(3)])

lemma ack_impl_triple:
  assumes ok: "ok i lib env tenant"
  shows "triple (I i True) (I i b) (ack_impl lib env tenant params) (\<lambda>_. I i True)"
proof -
  have cleanup: "triple (I i True) (held (I i True) tenant q handle) (if acked then ack_cleanup lib env tenant q m g else treturn ())
      (\<lambda>_. held (I i True) tenant q handle)" if "valid_queue_name q" for q handle acked m g
    by (auto intro: return_held ack_cleanup_held [OF ok that])
  have rest: "triple (I i True) (held (I i b) tenant q (Some g))
      (tbind (group_call tenant q (cg_ack m token out g)) (\<lambda>(res, g).
       tbind (lift_io res) (\<lambda>acked.
       tbind (if acked then ack_cleanup lib env tenant q m g else treturn ()) (\<lambda>_.
       tbind (log_event env (AuditAck label q name acked)) (\<lambda>_. treturn acked))))) (\<lambda>_. I i True)"
    if "valid_queue_name q" for q g m token out label name
    by (rule group_bind [OF ok that group_moves_calls(1)])
      (auto split: prod.split intro!: return_end triple_bind [OF lift_held(1)] triple_bind [OF cleanup [OF that]]
        triple_bind [OF metric_held(4)])
  show ?thesis
    unfolding ack_impl_def by (rule get_bind [OF ok], rule triple_bind [OF parse_held(1)], rule rest) (auto intro: used)
qed

lemma nack_impl_triple:
  assumes ok: "ok i lib env tenant"
  shows "triple (I i True) (I i b) (nack_impl lib env tenant params) (\<lambda>_. I i True)"
proof -
  have metrics: "triple (I i True) (held (I i True) tenant q handle) (if nacked then record_queue_metrics lib env tenant q g else treturn ())
      (\<lambda>_. held (I i True) tenant q handle)" for q handle nacked g
    by (auto intro: return_held record_queue_metrics_held)
  have rest: "triple (I i True) (held (I i b) tenant q (Some g))
      (tbind (group_call tenant q (cg_nack renv m token reason g)) (\<lambda>(res, g).
       tbind (lift_cg res) (\<lambda>nacked.
       tbind (if nacked then record_queue_metrics lib env tenant q g else treturn ()) (\<lambda>_.
       tbind (log_event env (AuditNack label q name nacked reason)) (\<lambda>_. treturn nacked))))) (\<lambda>_. I i True)"
    if "valid_queue_name q" for q g renv m token reason label name
    by (rule group_bind [OF ok that group_moves_calls(2)])
      (auto split: prod.split intro!: return_end triple_bind [OF lift_held(2)] triple_bind [OF metrics]
        triple_bind [OF metric_held(4)])
  show ?thesis
    unfolding nack_impl_def by (rule get_bind [OF ok], rule triple_bind [OF parse_held(1)], rule rest) (auto intro: used)
qed

text \<open>The handlers that only make one call of the group.\<close>

lemma one_call_triple:
  assumes ok: "ok i lib env tenant" and moves: "\<And>m g. group_moves lib env g (snd (f m g))"
    and g: "\<And>q handle r. triple (I i True) (held (I i True) tenant q handle) (h r) (\<lambda>_. I i True)"
  shows "triple (I i True) (I i b)
    (tbind (registry_get env tenant q) (\<lambda>g. tbind (parse_message_id lib v) (\<lambda>m.
       tbind (group_call tenant q (f m g)) (\<lambda>(res, g). h res)))) (\<lambda>_. I i True)"
  by (rule get_bind [OF ok], rule triple_bind [OF parse_held(1)], rule group_bind [OF ok _ moves])
    (auto split: prod.split intro!: g intro: used)

lemma lift_end: "triple (I i True) (held (I i b) tenant q handle) (lift_io res) (\<lambda>_. I i True)"
  by (rule triple_post [OF lift_held(1)]) (rule held_end)

lemma single_call_triples:
  assumes ok: "ok i lib env tenant"
  shows "triple (I i True) (I i b) (checkpoint_impl lib env tenant p1) (\<lambda>_. I i True)"
    and "triple (I i True) (I i b) (publish_partial_result_impl lib env tenant p2) (\<lambda>_. I i True)"
    and "triple (I i True) (I i b) (reprocess_dead_letter_impl lib env tenant p3) (\<lambda>_. I i True)"
    and "triple (I i True) (I i b) (purge_dead_letter_impl lib env tenant p3) (\<lambda>_. I i True)"
  unfolding checkpoint_impl_def publish_partial_result_impl_def reprocess_dead_letter_impl_def purge_dead_letter_impl_def
  by (rule one_call_triple [OF ok]; intro group_moves_calls lift_end return_end)+

lemma read_only_triples:
  assumes ok: "ok i lib env tenant"
  shows "triple (I i True) (I i b) (stream_partial_results_impl lib env tenant p1) (\<lambda>_. I i True)"
    and "triple (I i True) (I i b) (list_dead_letters_impl lib env tenant q) (\<lambda>_. I i True)"
  unfolding stream_partial_results_impl_def list_dead_letters_impl_def
  by (rule get_bind [OF ok];
      auto split: option.split partial_results_poll.split intro!: return_end triple_bind [OF parse_held(1)] intro: used)+

lemma triage_dead_letter_impl_triple:
  assumes ok: "ok i lib env tenant"
  shows "triple (I i True) (I i b) (triage_dead_letter_impl lib env tenant params) (\<lambda>_. I i True)"
proof -
  have second: "triple (I i True) (held (I i True) tenant q (Some g))
      (tbind (if transient then tbind (group_call tenant q (reprocess_dead_letter m o1 o2 g)) (\<lambda>(res, g). lift_io res) else treturn False)
         (\<lambda>reprocessed. treturn (r reprocessed))) (\<lambda>_. I i True)"
    if "valid_queue_name q" for q g transient m o1 o2 and r :: "bool \<Rightarrow> triage_result"
  proof (cases transient)
    case True
    then have t: "transient = True" by simp
    show ?thesis
      unfolding t if_True tbind_assoc
      by (rule group_bind [OF ok that group_moves_calls(6)])
        (auto split: prod.split intro!: return_end triple_bind [OF lift_held(1)])
  next
    case False
    then show ?thesis by (auto intro!: return_end triple_bind [OF return_held])
  qed
  have rest: "triple (I i True) (held (I i b) tenant q (Some g))
      (tbind (group_call tenant q (annotate_dead_letter m verdict out g)) (\<lambda>(res, g).
       tbind (lift_io res) (\<lambda>annotated.
         if \<not> annotated then treturn r0
         else tbind (if transient then tbind (group_call tenant q (reprocess_dead_letter m o1 o2 g)) (\<lambda>(res, g). lift_io res) else treturn False)
           (\<lambda>reprocessed. treturn (r reprocessed))))) (\<lambda>_. I i True)"
    if "valid_queue_name q" for q g m verdict out r0 transient o1 o2 and r :: "bool \<Rightarrow> triage_result"
    by (rule group_bind [OF ok that group_moves_calls(5)], unfold case_prod_beta, rule triple_bind [OF lift_held(1)],
        rule triple_if, rule return_end, rule second [unfolded case_prod_beta, OF that])
  show ?thesis
    unfolding triage_dead_letter_impl_def Let_def
    by (rule get_bind [OF ok], rule triple_bind [OF parse_held(1)], rule rest) (auto intro: used)
qed

lemma admission_triples:
  assumes ok: "ok i lib env tenant"
  shows "triple (I i True) (I i b) (configure_admission_impl tenant p1) (\<lambda>_. I i True)"
    and "triple (I i True) (I i b) (admission_status_impl env tenant q) (\<lambda>_. I i True)"
proof -
  have "triple (I i True) (held (I i b) tenant (ca_queue p1) None) (configure_admission_impl tenant p1) (\<lambda>_. I i True)"
    unfolding configure_admission_impl_def registry_admission_def tbind_assoc Let_def
    by (rule validate_bind, rule triple_bind [OF admission_held(1) [OF ok]])
      (auto intro!: return_end triple_bind [OF admission_held(2) [OF ok]])
  then show "triple (I i True) (I i b) (configure_admission_impl tenant p1) (\<lambda>_. I i True)" by (simp add: held_None)
  have "triple (I i True) (held (I i b) tenant q None) (admission_status_impl env tenant q) (\<lambda>_. I i True)"
    unfolding admission_status_impl_def registry_admission_def tbind_assoc Let_def
    by (rule validate_bind, rule triple_bind [OF admission_held(1) [OF ok]])
      (auto split: prod.split intro!: return_end triple_bind [OF admission_held(2) [OF ok]])
  then show "triple (I i True) (I i b) (admission_status_impl env tenant q) (\<lambda>_. I i True)" by (simp add: held_None)
qed

lemma configure_route_impl_triple:
  assumes ok: "ok i lib env tenant"
  shows "triple (I i True) (I i b) (configure_route_impl env tenant params) (\<lambda>_. I i True)"
proof -
  have "triple (I i True) (held (I i b) tenant (rp_queue params) None) (configure_route_impl env tenant params) (\<lambda>_. I i True)"
    unfolding configure_route_impl_def
    by (rule validate_bind, rule triple_bind [OF parse_held(3)], rule triple_bind [OF routes_held(1) [OF ok]])
      (auto split: prod.split intro!: return_end triple_bind [OF routes_held(2) [OF ok]])
  then show ?thesis by (simp add: held_None)
qed

lemma key_triples:
  assumes ok: "ok i lib env tenant"
  shows "triple (I i True) (I i b) (create_api_key_impl lib env tenant v) (\<lambda>_. I i True)"
    and "triple (I i True) (I i b) (revoke_api_key_impl lib env tenant v) (\<lambda>_. I i True)"
proof -
  have store: "triple (I i True) (held (I i b) tenant [] None) (key_store_call f) (\<lambda>_. held (I i b) tenant [] None)"
    if "tenant = None" for f :: "api_key_store \<Rightarrow> 'r io_result \<times> api_key_store"
    unfolding triple_def
  proof (intro allI impI)
    fix s assume "held (I i b) tenant [] None s"
    then have "held (I i b) tenant [] None (s \<lparr> sv_api_keys := snd (f (sv_api_keys s)) \<rparr>)"
      using keys_law ok that by (auto simp: held_None)
    then show "outcome (I i True) (\<lambda>_. held (I i b) tenant [] None) (key_store_call f s)"
      using lift_held(1) [of i b tenant "[]" None "fst (f (sv_api_keys s))"]
      by (simp add: key_store_call_def triple_def case_prod_beta)
  qed
  show "triple (I i True) (I i b) (create_api_key_impl lib env tenant v) (\<lambda>_. I i True)"
  proof (cases tenant)
    case None
    have "triple (I i True) (held (I i b) tenant [] None) (create_api_key_impl lib env tenant v) (\<lambda>_. I i True)"
      unfolding create_api_key_impl_def
      by (rule triple_bind [OF parse_held(6)], rule triple_bind [OF parse_held(5)], rule triple_bind [OF store [OF None]], rule return_end)
    then show ?thesis by (simp add: held_None)
  next
    case (Some t)
    then have "create_api_key_impl lib env tenant v = tfail (StdioOnly ''create_api_key'')"
      by (intro ext) (simp add: create_api_key_impl_def tbind_unfold stdio_only_def tfail_def)
    then show ?thesis by (simp add: fail_plain)
  qed
  show "triple (I i True) (I i b) (revoke_api_key_impl lib env tenant v) (\<lambda>_. I i True)"
  proof (cases tenant)
    case None
    have "triple (I i True) (held (I i b) tenant [] None) (revoke_api_key_impl lib env tenant v) (\<lambda>_. I i True)"
      unfolding revoke_api_key_impl_def
      by (rule triple_bind [OF parse_held(6)], rule triple_post [OF store [OF None]], rule held_end)
    then show ?thesis by (simp add: held_None)
  next
    case (Some t)
    then have "revoke_api_key_impl lib env tenant v = tfail (StdioOnly ''revoke_api_key'')"
      by (intro ext) (simp add: revoke_api_key_impl_def tbind_unfold stdio_only_def tfail_def)
    then show ?thesis by (simp add: fail_plain)
  qed
qed

lemma configure_tenant_quota_impl_triple:
  assumes ok: "ok i lib env tenant" and req: "request_ok (quota_ok i) (config_ok i) tenant (ConfigureTenantQuotaTool p)"
  shows "triple (I i True) (I i b) (configure_tenant_quota_impl tenant p) (\<lambda>_. I i True)"
proof (cases tenant)
  case (Some t)
  then have "(configure_tenant_quota_impl tenant p :: ('j server, configure_quota_result) tool) = tfail (StdioOnly ''configure_tenant_quota'')"
    by (intro ext) (simp add: configure_tenant_quota_impl_def tbind_unfold stdio_only_def tfail_def)
  then show ?thesis by (simp add: fail_plain)
next
  case None
  show ?thesis
  proof (cases "tenant_id_new (cq_tenant_id p)")
    case (Inl e)
    then have "(configure_tenant_quota_impl tenant p :: ('j server, configure_quota_result) tool) = tfail BadTenantId"
      by (intro ext) (simp add: None configure_tenant_quota_impl_def tbind_unfold stdio_only_def check_tenant_id_def tfail_def treturn_def)
    then show ?thesis by (simp add: fail_plain)
  next
    case (Inr t)
    let ?window = "from_secs (case cq_window_seconds p of None \<Rightarrow> 60 | Some secs \<Rightarrow> unat secs)"
    let ?config = "\<lparr> max_queues = cq_max_queues p, max_pending_messages = cq_max_pending_messages p,
      requests_per_window = cq_requests_per_window p, quota_window = ?window \<rparr>"
    have config: "config_ok i t" using req by (simp add: None Inr)
    have "snd (configure_tenant_quota_impl tenant p s) =
        (s :: 'j server) \<lparr> sv_quotas := (sv_quotas s)(tenant_as_str t \<mapsto> quota_set_config ?config (quota_of t s)) \<rparr>" for s
      by (simp add: None Inr configure_tenant_quota_impl_def tbind_unfold stdio_only_def check_tenant_id_def treturn_def
          registry_quota_def put_quota_def quota_of_def Let_def split: option.split)
    moreover have "I i b (s \<lparr> sv_quotas := (sv_quotas s)(tenant_as_str t \<mapsto> q) \<rparr>)" if "I i b s" for s q
      using config_law [OF _ config that] ok by (simp add: None)
    ultimately show ?thesis by (auto simp: triple_def outcome_iff intro: used)
  qed
qed

lemma tenant_quota_status_impl_triple:
  assumes ok: "ok i lib env tenant" and req: "request_ok (quota_ok i) (config_ok i) tenant (TenantQuotaStatusTool v)"
  shows "triple (I i True) (I i b) (tenant_quota_status_impl env tenant v) (\<lambda>_. I i True)"
proof -
  have status: "triple (I i True) (I i b) (status_tenant tenant v) (\<lambda>t s. quota_ok i t \<and> I i b s)"
  proof (cases tenant)
    case (Some t)
    then show ?thesis using ok own_quota by (auto simp: status_tenant_def intro: triple_return)
  next
    case None
    show ?thesis
    proof (cases v)
      case None
      then show ?thesis using \<open>tenant = None\<close> by (auto simp: status_tenant_def intro: triple_fail used)
    next
      case (Some w)
      then show ?thesis
        using \<open>tenant = None\<close> req
        by (cases "tenant_id_new w") (auto simp: status_tenant_def check_tenant_id_def intro: triple_fail triple_return used)
    qed
  qed
  have config: "tq_config (snd (requests_in_window now quota)) = tq_config quota" for now quota
    by (simp add: requests_in_window_def Let_def)
  have tail: "triple (I i True) (I i b) (tbind (tenant_queue_count t) (\<lambda>queues_open.
      tbind (tenant_pending_total rank t) (\<lambda>pending. treturn (r queues_open pending)))) (\<lambda>_. I i True)"
    if "quota_ok i t" for t rank and r :: "nat \<Rightarrow> u64 \<Rightarrow> quota_status_result"
  proof -
    have "triple (I i True) (held (I i b) None [] None) (tbind (tenant_queue_count t) (\<lambda>queues_open.
        tbind (tenant_pending_total rank t) (\<lambda>pending. treturn (r queues_open pending)))) (\<lambda>_. I i True)"
      by (rule triple_bind [OF quota_held(2) [OF that]], rule triple_bind [OF quota_held(3) [OF that]], rule return_end)
    then show ?thesis by (simp only: held_None)
  qed
  show ?thesis
    unfolding tenant_quota_status_impl_def Let_def
  proof (rule triple_bind [OF status])
    fix t
    show "triple (I i True) (\<lambda>s. quota_ok i t \<and> I i b s) (tbind (registry_quota t) (\<lambda>quota.
        case requests_in_window (te_status_now env) quota of
          (in_window, quota') \<Rightarrow> tbind (put_quota t quota') (\<lambda>_.
            tbind (tenant_queue_count t) (\<lambda>queues_open.
            tbind (tenant_pending_total (te_name_rank env) t) (\<lambda>pending.
              treturn \<lparr> qs_tenant_id = tenant_as_str t, qs_max_queues = max_queues (tq_config quota), qs_queues_open = queues_open,
                        qs_max_pending_messages = max_pending_messages (tq_config quota), qs_pending_messages = pending,
                        qs_requests_per_window = requests_per_window (tq_config quota), qs_requests_in_window = in_window,
                        qs_window_seconds = as_secs (quota_window (tq_config quota)) \<rparr>))))) (\<lambda>_. I i True)" (is "triple _ _ ?m _")
    proof (cases "quota_ok i t")
      case True
      have "triple (I i True) (I i b) ?m (\<lambda>_. I i True)" by (rule quota_bind [OF True config]) (rule tail [OF True])
      then show ?thesis by (rule triple_pre) simp
    qed (simp add: triple_def)
  qed
qed

lemma tool_impl_triple:
  assumes "ok i lib env tenant" and "request_ok (quota_ok i) (config_ok i) tenant request"
  shows "triple (I i True) (I i False) (tool_impl lib env tenant request) (\<lambda>_. I i True)"
  using assms
  by (cases request)
    (auto simp only: tool_impl.simps intro!: tmap_triple enqueue_impl_triple claim_impl_triple ack_impl_triple nack_impl_triple
      single_call_triples read_only_triples triage_dead_letter_impl_triple admission_triples configure_route_impl_triple
      key_triples configure_tenant_quota_impl_triple tenant_quota_status_impl_triple)

text \<open>The conclusion of the contract.\<close>

lemma tool_call_keeps:
  assumes "ok i lib env tenant" and "request_ok (quota_ok i) (config_ok i) tenant request" and "I i False s"
  shows "I i True (snd (tool_call lib env tenant request s))"
proof -
  have "triple (I i True) (I i False) (tool_call lib env tenant request) (\<lambda>_. I i True)"
    unfolding tool_call_def
  proof (rule triple_bind [OF authorize_impl_triple [OF assms(1)]])
    show "triple (I i True) (\<lambda>s. r = tenant \<and> I i False s) (tool_impl lib env r request) (\<lambda>_. I i True)" for r
      using tool_impl_triple [OF assms(1,2)] by (auto simp: triple_def)
  qed
  then show ?thesis using assms(3) by (rule triple_snd)
qed

end

end
