(* ===== verification/Tool_Isolation.thy ===== *)
theory Tool_Isolation
  imports Tool_Logic
begin

text \<open>
  Tenant isolation. \<open>tenant_view a\<close> is everything in the server's state that belongs to tenant \<open>a\<close>. A call of
  another tenant leaves it unchanged (an interpretation of \<open>handler_laws\<close>), and what a call of \<open>a\<close> returns and
  does to it depends on nothing else; the locale \<open>separation\<close> concludes that a tenant cannot tell whether the
  others exist.
\<close>

section \<open>Names and paths\<close>

definition no_nul :: "string \<Rightarrow> bool" where
  "no_nul v \<longleftrightarrow> CHR 0x00 \<notin> set v"

lemma tenant_char_nul: "\<not> tenant_char (CHR 0x00)"
  by (simp add: tenant_char_def is_ascii_alphanumeric_def)

lemma valid_name_no_nul: "valid_queue_name name \<Longrightarrow> no_nul name"
  using tenant_char_nul by (auto simp: valid_queue_name_def no_nul_def list_all_iff)

lemma valid_tenant_no_nul: "valid_tenant t \<Longrightarrow> no_nul (tenant_as_str t) \<and> tenant_as_str t \<noteq> []"
  using tenant_char_nul
  by (cases t) (auto simp: valid_tenant_def tenant_id_new_def no_nul_def list_all_iff split: if_splits)

lemma tenant_as_str_inj [simp]: "tenant_as_str a = tenant_as_str b \<longleftrightarrow> a = b"
  by (cases a; cases b) simp

lemma starts_with_iff: "starts_with v pre \<longleftrightarrow> (\<exists>w. v = pre @ w)"
  unfolding starts_with_def by (metis append_eq_conv_conj append_take_drop_id)

lemma nul_split:
  assumes "no_nul u" and "no_nul v" and "u @ CHR 0x00 # x = v @ CHR 0x00 # y"
  shows "u = v \<and> x = y"
  using assms
proof (induction u arbitrary: v)
  case Nil
  then show ?case by (cases v) (auto simp: no_nul_def)
next
  case (Cons c u)
  then show ?case by (cases v) (auto simp: no_nul_def)
qed

definition valid_caller :: "tenant_id option \<Rightarrow> bool" where
  "valid_caller tenant \<longleftrightarrow> (\<forall>t. tenant = Some t \<longrightarrow> valid_tenant t)"

lemma scope_key_owner:
  assumes "valid_tenant a" and "valid_caller tenant" and "valid_queue_name name"
  shows "starts_with (scope_key tenant name) (tenant_prefix a) \<longleftrightarrow> tenant = Some a"
proof (cases tenant)
  case None
  have "no_nul name" using valid_name_no_nul assms(3) .
  then have "\<not> starts_with name (tenant_prefix a)" by (auto simp: starts_with_iff tenant_prefix_def no_nul_def)
  then show ?thesis by (simp add: scope_key_def None)
next
  case (Some t)
  have "no_nul (tenant_as_str t)" "no_nul (tenant_as_str a)" using valid_tenant_no_nul assms by (simp_all add: Some valid_caller_def)
  then show ?thesis
    using nul_split [of "tenant_as_str t" "tenant_as_str a" name]
    by (auto simp: scope_key_def Some starts_with_iff tenant_prefix_def)
qed

lemma scope_key_inj:
  assumes "valid_caller t1" and "valid_caller t2" and "valid_queue_name n1" and "valid_queue_name n2"
    and "scope_key t1 n1 = scope_key t2 n2"
  shows "t1 = t2 \<and> n1 = n2"
proof -
  have "t1 = t2"
  proof (cases t1; cases t2)
    fix a assume "t1 = None" "t2 = Some a"
    then show ?thesis using scope_key_owner [of a t1 n1] scope_key_owner [of a t2 n2] assms by (simp add: valid_caller_def)
  next
    fix a assume "t1 = Some a" "t2 = None"
    then show ?thesis using scope_key_owner [of a t1 n1] scope_key_owner [of a t2 n2] assms by (simp add: valid_caller_def)
  next
    fix a b assume "t1 = Some a" "t2 = Some b"
    then show ?thesis using scope_key_owner [of a t1 n1] scope_key_owner [of a t2 n2] assms by (simp add: valid_caller_def)
  qed simp
  then show ?thesis using assms(5) by (auto simp: scope_key_def split: option.splits)
qed

section \<open>What belongs to a tenant\<close>

record 'j tenant_part =
  vw_groups :: "(string, ('j, 'j) group) hash_map"
  vw_admission :: "string \<rightharpoonup> admission_controller"
  vw_dedup :: "string \<rightharpoonup> message_id embedding_index"
  vw_routes :: "string embedding_index option"
  vw_quota :: tenant_quota

definition own_key :: "tenant_id \<Rightarrow> string \<Rightarrow> bool" where
  "own_key a key \<longleftrightarrow> starts_with key (tenant_prefix a)"

definition tenant_view :: "tenant_id \<Rightarrow> 'j server \<Rightarrow> 'j tenant_part" where
  "tenant_view a s =
     \<lparr> vw_groups = filter (\<lambda>kg. own_key a (fst kg)) (sv_groups s),
       vw_admission = sv_admission s |` {key. own_key a key},
       vw_dedup = sv_dedup s |` {key. own_key a key},
       vw_routes = sv_routes s (tenant_as_str a),
       vw_quota = quota_of a s \<rparr>"

lemma filter_update:
  "filter (\<lambda>kg. P (fst kg)) (AList.update k v xs) =
     (if P k then AList.update k v (filter (\<lambda>kg. P (fst kg)) xs) else filter (\<lambda>kg. P (fst kg)) xs)"
  by (induction xs) auto

lemma map_of_filter_key: "map_of (filter (\<lambda>kg. P (fst kg)) xs) k = (if P k then map_of xs k else None)"
  by (induction xs) auto

lemma restrict_upd: "(m(k \<mapsto> v)) |` A = (if k \<in> A then (m |` A)(k \<mapsto> v) else m |` A)"
  by (auto simp: restrict_map_def)

lemma tenant_view_groups:
  "tenant_view a (s \<lparr> sv_groups := AList.update key g (sv_groups s) \<rparr>) =
     (if own_key a key then (tenant_view a s) \<lparr> vw_groups := AList.update key g (vw_groups (tenant_view a s)) \<rparr>
      else tenant_view a s)"
  by (simp add: tenant_view_def filter_update quota_of_def)

lemma tenant_view_admission:
  "tenant_view a (s \<lparr> sv_admission := (sv_admission s)(key \<mapsto> c) \<rparr>) =
     (if own_key a key then (tenant_view a s) \<lparr> vw_admission := (vw_admission (tenant_view a s))(key \<mapsto> c) \<rparr>
      else tenant_view a s)"
  by (simp add: tenant_view_def restrict_upd quota_of_def)

lemma tenant_view_dedup:
  "tenant_view a (s \<lparr> sv_dedup := (sv_dedup s)(key \<mapsto> c) \<rparr>) =
     (if own_key a key then (tenant_view a s) \<lparr> vw_dedup := (vw_dedup (tenant_view a s))(key \<mapsto> c) \<rparr>
      else tenant_view a s)"
  by (simp add: tenant_view_def restrict_upd quota_of_def)

lemma tenant_view_routes:
  "tenant_view a (s \<lparr> sv_routes := (sv_routes s)(key \<mapsto> c) \<rparr>) =
     (if key = tenant_as_str a then (tenant_view a s) \<lparr> vw_routes := Some c \<rparr> else tenant_view a s)"
  by (simp add: tenant_view_def quota_of_def)

lemma tenant_view_quotas:
  "tenant_view a (s \<lparr> sv_quotas := (sv_quotas s)(tenant_as_str t \<mapsto> q) \<rparr>) =
     (if t = a then (tenant_view a s) \<lparr> vw_quota := q \<rparr> else tenant_view a s)"
  by (simp add: tenant_view_def quota_of_def)

lemma tenant_view_other [simp]:
  "tenant_view a (s \<lparr> sv_api_keys := x1 \<rparr>) = tenant_view a s"
  "tenant_view a (s \<lparr> sv_depth := x2 \<rparr>) = tenant_view a s"
  "tenant_view a (s \<lparr> sv_lag := x3 \<rparr>) = tenant_view a s"
  "tenant_view a (s \<lparr> sv_latency := x4 \<rparr>) = tenant_view a s"
  "tenant_view a (s \<lparr> sv_audit := x5 \<rparr>) = tenant_view a s"
  by (simp_all add: tenant_view_def quota_of_def)

lemma tenant_view_touch: "tenant_view a (touch_quota tenant s) = tenant_view a s"
  by (auto simp: touch_quota_def tenant_view_quotas split: option.split) (simp add: tenant_view_def)

lemma tenant_view_opened:
  "tenant_view a ((touch_quota tenant s) \<lparr> sv_groups := AList.update key g (sv_groups s) \<rparr>) =
     (if own_key a key then (tenant_view a s) \<lparr> vw_groups := AList.update key g (vw_groups (tenant_view a s)) \<rparr>
      else tenant_view a s)"
  using tenant_view_groups [where s = "touch_quota tenant s"] by (simp add: tenant_view_touch)

lemmas tenant_view_simps = tenant_view_groups tenant_view_admission tenant_view_dedup tenant_view_routes tenant_view_quotas

section \<open>The calls of others\<close>

definition other_caller :: "tenant_id \<Rightarrow> tenant_id option \<Rightarrow> bool" where
  "other_caller a tenant \<longleftrightarrow> valid_tenant a \<and> valid_caller tenant \<and> tenant \<noteq> Some a"

lemma other_caller_key:
  "other_caller a tenant \<Longrightarrow> valid_queue_name name \<Longrightarrow> \<not> own_key a (scope_key tenant name)"
  using scope_key_owner by (simp add: other_caller_def own_key_def)

lemma other_caller_tenant: "other_caller a tenant \<Longrightarrow> tenant_key tenant \<noteq> tenant_as_str a"
  using valid_tenant_no_nul [of a] by (auto simp: other_caller_def tenant_key_def split: option.splits)

interpretation others: handler_laws
  "\<lambda>av lib env tenant. other_caller (fst av) tenant"
  "\<lambda>av b s. tenant_view (fst av) s = snd av"
  "\<lambda>av t. t \<noteq> fst av"
  "\<lambda>av t. t \<noteq> fst av"
proof (unfold_locales, goal_cases)
  case (3 av lib env tenant b s name)
  show ?case
    by (rule registry_get_cases [of env tenant name s])
      (use 3 other_caller_key [of "fst av" tenant name] in \<open>simp_all add: tenant_view_touch tenant_view_opened\<close>)
qed (auto simp: tenant_view_simps put_group_def other_caller_key other_caller_tenant other_caller_def)

section \<open>The calls of the tenant itself\<close>

definition consistent :: "('s \<Rightarrow> 'v) \<Rightarrow> ('s, 'r) tool \<Rightarrow> bool" where
  "consistent view m \<longleftrightarrow>
     (\<forall>s t. view s = view t \<longrightarrow> fst (m s) = fst (m t) \<and> view (snd (m s)) = view (snd (m t)))"

lemma consistent_return [simp]: "consistent view (treturn r)"
  by (simp add: consistent_def treturn_def)

lemma consistent_fail [simp]: "consistent view (tfail e)"
  by (simp add: consistent_def tfail_def)

lemma consistent_bind:
  assumes "consistent view m" and "\<And>r. consistent view (f r)"
  shows "consistent view (tbind m f)"
  unfolding consistent_def
proof (intro allI impI)
  fix s t assume "view s = view t"
  then have m: "fst (m s) = fst (m t)" "view (snd (m s)) = view (snd (m t))" using assms(1) unfolding consistent_def by blast+
  show "fst (tbind m f s) = fst (tbind m f t) \<and> view (snd (tbind m f s)) = view (snd (tbind m f t))"
  proof (cases "fst (m t)")
    case (Inl e)
    then show ?thesis using m by (simp add: tbind_unfold)
  next
    case (Inr r)
    have "fst (f r (snd (m s))) = fst (f r (snd (m t))) \<and> view (snd (f r (snd (m s)))) = view (snd (f r (snd (m t))))"
      using assms(2) [of r] m(2) unfolding consistent_def by blast
    then show ?thesis using m Inr by (simp add: tbind_unfold)
  qed
qed

lemma consistent_tmap: "consistent view m \<Longrightarrow> consistent view (tmap f m)"
  unfolding tmap_def by (rule consistent_bind) simp_all

lemma consistent_pure [simp]:
  "consistent view (validate_queue_name name)" "consistent view (parse_message_id lib v)" "consistent view (lift_io res)"
  "consistent view (lift_cg res')" "consistent view (check_embedding e)" "consistent view (check_idempotency_key v)"
  "consistent view (check_tenant_id v)" "consistent view (stdio_only v t)" "consistent view (status_tenant t w)"
  by (auto simp: validate_queue_name_def parse_message_id_def lift_io_def lift_cg_def check_embedding_def
      check_idempotency_key_def check_tenant_id_def stdio_only_def status_tenant_def split: option.split sum.split cg_error.split)

lemma consistent_transpose: "(\<And>x. consistent view (f x)) \<Longrightarrow> consistent view (transpose_opt f v)"
  by (cases v) (auto simp: transpose_opt_def intro: consistent_bind)

lemma own_scope_key [simp]: "own_key a (scope_key (Some a) name)"
  by (simp add: own_key_def starts_with_iff scope_key_def tenant_prefix_def)

lemma tenant_key_Some [simp]: "tenant_key (Some a) = tenant_as_str a"
  by (simp add: tenant_key_def)

text \<open>What a tenant's own call reads is in the view.\<close>

lemma view_reads:
  "map_of (sv_groups s) (scope_key (Some a) name) = map_of (vw_groups (tenant_view a s)) (scope_key (Some a) name)"
  "sv_admission s (scope_key (Some a) name) = vw_admission (tenant_view a s) (scope_key (Some a) name)"
  "sv_dedup s (scope_key (Some a) name) = vw_dedup (tenant_view a s) (scope_key (Some a) name)"
  "sv_routes s (tenant_as_str a) = vw_routes (tenant_view a s)"
  "quota_of a s = vw_quota (tenant_view a s)"
  "count_matching (sv_groups s) a = length (vw_groups (tenant_view a s))"
  "filter (\<lambda>(key, _). starts_with key (tenant_prefix a)) (hm_iter rank (sv_groups s)) =
     hm_iter rank (vw_groups (tenant_view a s))"
  by (simp_all add: tenant_view_def map_of_filter_key restrict_map_def)
    (simp_all add: count_matching_def own_key_def hm_iter_def filter_sort case_prod_beta')

lemma registry_quota_eq:
  "registry_quota t s = (Inr (quota_of t s), s \<lparr> sv_quotas := (sv_quotas s)(tenant_as_str t \<mapsto> quota_of t s) \<rparr>)"
  by (simp add: registry_quota_def quota_of_def Let_def map_upd_triv split: option.split)

lemma consistent_registry [simp]:
  "consistent (tenant_view a) (lookup_group (Some a) name)"
  "consistent (tenant_view a) (put_group (Some a) name g)"
  "consistent (tenant_view a) (lookup_admission (Some a) name)"
  "consistent (tenant_view a) (put_admission (Some a) name c)"
  "consistent (tenant_view a) (lookup_dedup (Some a) name)"
  "consistent (tenant_view a) (put_dedup (Some a) name index)"
  "consistent (tenant_view a) (registry_routes (Some a))"
  "consistent (tenant_view a) (put_routes (Some a) routes)"
  "consistent (tenant_view a) (registry_quota a)"
  "consistent (tenant_view a) (put_quota a q)"
  "consistent (tenant_view a) (tenant_queue_count a)"
  "consistent (tenant_view a) (tenant_pending_total rank a)"
  by (simp_all add: consistent_def lookup_group_def put_group_def lookup_admission_def put_admission_def lookup_dedup_def
      put_dedup_def registry_routes_def put_routes_def registry_quota_eq put_quota_def tenant_queue_count_def
      tenant_pending_total_def view_reads tenant_view_simps Let_def split: option.split)

lemma consistent_observing [simp]:
  "consistent (tenant_view a) (set_depth labels v)"
  "consistent (tenant_view a) (set_lag labels v)"
  "consistent (tenant_view a) (record_latency q label v)"
  "consistent (tenant_view a) (log_event env event)"
  by (simp_all add: consistent_def set_depth_def set_lag_def record_latency_def log_event_def)

lemma consistent_key_store:
  "consistent (tenant_view a) (tbind (stdio_only v (Some a)) (\<lambda>_. m))"
  by (simp add: consistent_def tbind_unfold stdio_only_def tfail_def)


lemma consistent_get: "consistent (tenant_view a) (registry_get env (Some a) name)"
proof -
  have "consistent (tenant_view a) (check_max_queues (Some a))"
    by (auto simp: check_max_queues_def intro!: consistent_bind split: option.split)
  then show ?thesis
    unfolding registry_get_def by (auto intro!: consistent_bind split: option.split sum.split prod.split)
qed

lemma consistent_steps [simp]:
  "consistent (tenant_view a) (registry_admission (Some a) name)"
  "consistent (tenant_view a) (registry_dedup (Some a) name)"
  "consistent (tenant_view a) (group_call (Some a) name res)"
  "consistent (tenant_view a) (record_queue_metrics lib env tenant name g)"
  "consistent (tenant_view a) (audit_enqueue env tenant name m d e)"
  "consistent (tenant_view a) (resolve_target_queue env (Some a) q emb)"
  "consistent (tenant_view a) (dedup_match env (Some a) name emb ix)"
  "consistent (tenant_view a) (remember env (Some a) name i emb ix)"
  "consistent (tenant_view a) (admit env (Some a) name tokens cost c)"
  "consistent (tenant_view a) (check_max_pending env (Some a) name)"
  "consistent (tenant_view a) (authorize_impl env (Some a))"
  by (auto simp: registry_admission_def registry_dedup_def group_call_def record_queue_metrics_def audit_enqueue_def
      resolve_target_queue_def dedup_match_def remember_def admit_def check_max_pending_def authorize_impl_def
      intro!: consistent_bind split: option.split prod.split admission_decision.split quota_decision.split)

lemma consistent_cleanup [simp]: "consistent (tenant_view a) (ack_cleanup lib env (Some a) name i g)"
  by (auto simp: ack_cleanup_def Let_def intro!: consistent_bind split: option.split)

lemma consistent_enqueue:
  "consistent (tenant_view a) (enqueue_new lib env (Some a) params name g c key emb ix)"
  "consistent (tenant_view a) (enqueue_impl lib env (Some a) params)"
proof -
  show new: "consistent (tenant_view a) (enqueue_new lib env (Some a) params name g c key emb ix)" for name g c key emb ix
    by (auto simp: enqueue_new_def intro!: consistent_bind split: prod.split)
  show "consistent (tenant_view a) (enqueue_impl lib env (Some a) params)"
    unfolding enqueue_impl_def
    by (auto intro!: consistent_bind consistent_transpose consistent_get new split: option.split prod.split)
qed

lemma consistent_handlers:
  "consistent (tenant_view a) (claim_impl lib env (Some a) p1)"
  "consistent (tenant_view a) (ack_impl lib env (Some a) p2)"
  "consistent (tenant_view a) (nack_impl lib env (Some a) p3)"
  "consistent (tenant_view a) (checkpoint_impl lib env (Some a) p4)"
  "consistent (tenant_view a) (publish_partial_result_impl lib env (Some a) p5)"
  "consistent (tenant_view a) (stream_partial_results_impl lib env (Some a) p6)"
  "consistent (tenant_view a) (configure_admission_impl (Some a) p7)"
  "consistent (tenant_view a) (admission_status_impl env (Some a) q)"
  "consistent (tenant_view a) (configure_route_impl env (Some a) p8)"
  "consistent (tenant_view a) (list_dead_letters_impl lib env (Some a) q)"
  "consistent (tenant_view a) (triage_dead_letter_impl lib env (Some a) p9)"
  "consistent (tenant_view a) (reprocess_dead_letter_impl lib env (Some a) p10)"
  "consistent (tenant_view a) (purge_dead_letter_impl lib env (Some a) p10)"
  unfolding claim_impl_def ack_impl_def nack_impl_def checkpoint_impl_def publish_partial_result_impl_def
    stream_partial_results_impl_def configure_admission_impl_def admission_status_impl_def configure_route_impl_def
    list_dead_letters_impl_def triage_dead_letter_impl_def reprocess_dead_letter_impl_def purge_dead_letter_impl_def Let_def
  by (auto intro!: consistent_bind consistent_get split: prod.split claim_pass_result.split option.split
      partial_results_poll.split)

lemma tbind_return [simp]: "tbind (treturn r) f = f r"
  by (rule ext) (simp add: tbind_unfold treturn_def)

lemma consistent_quota_status:
  fixes env :: "'j tool_env"
  assumes "(status_tenant tenant w :: ('j server, tenant_id) tool) = treturn a"
  shows "consistent (tenant_view a) (tenant_quota_status_impl env tenant w)"
  unfolding tenant_quota_status_impl_def assms tbind_return Let_def
  by (auto intro!: consistent_bind split: prod.split)

lemma consistent_configure_quota:
  assumes "tenant_id_new (cq_tenant_id p) = Inr a"
  shows "consistent (tenant_view a) (configure_tenant_quota_impl tenant p)"
  unfolding configure_tenant_quota_impl_def check_tenant_id_def assms sum.case tbind_return Let_def
  by (auto intro!: consistent_bind)

lemma consistent_stdio_tools:
  "consistent (tenant_view a) (create_api_key_impl lib env (Some a) v)"
  "consistent (tenant_view a) (revoke_api_key_impl lib env (Some a) v)"
  "consistent (tenant_view a) (configure_tenant_quota_impl (Some a) p)"
  unfolding create_api_key_impl_def revoke_api_key_impl_def configure_tenant_quota_impl_def
  by (rule consistent_key_store)+

lemma authorize_caller: "authorize_impl env tenant s = (Inr r, s') \<Longrightarrow> r = tenant"
  by (cases tenant) (auto simp: authorize_impl_def tbind_unfold registry_quota_eq put_quota_def treturn_def tfail_def
      split: prod.splits quota_decision.splits)

lemma authorize_returns_caller: "tbind (authorize_impl env tenant) f = tbind (authorize_impl env tenant) (\<lambda>_. f tenant)"
proof (rule ext)
  fix s
  have "r = tenant" if "fst (authorize_impl env tenant s) = Inr r" for r
    using authorize_caller [of env tenant s r "snd (authorize_impl env tenant s)"] that by (simp add: prod_eq_iff)
  then show "tbind (authorize_impl env tenant) f s = tbind (authorize_impl env tenant) (\<lambda>_. f tenant) s"
    by (cases "fst (authorize_impl env tenant s)") (simp_all add: tbind_unfold)
qed

lemma consistent_own_call: "consistent (tenant_view a) (tool_call lib env (Some a) request)"
proof -
  have "consistent (tenant_view a) (tool_impl lib env (Some a) request)"
    by (cases request)
      (simp_all only: tool_impl.simps, auto intro!: consistent_tmap consistent_enqueue consistent_handlers consistent_stdio_tools
        consistent_quota_status simp: status_tenant_def)
  then show ?thesis
    unfolding tool_call_def authorize_returns_caller [where f = "\<lambda>t. tool_impl lib env t request"] by (simp add: consistent_bind)
qed

section \<open>Separation\<close>

fun run_calls :: "('c \<Rightarrow> 's \<Rightarrow> 'o \<times> 's) \<Rightarrow> 'c list \<Rightarrow> 's \<Rightarrow> ('c \<times> 'o) list \<times> 's" where
  "run_calls step [] s = ([], s)"
| "run_calls step (c # cs) s =
     (case step c s of (r, s) \<Rightarrow> (case run_calls step cs s of (rs, s) \<Rightarrow> ((c, r) # rs, s)))"

text \<open>
  The contract of a system whose domains cannot influence each other: a call that does not concern a domain
  leaves its view alone, and a call that does is a function of that view.
\<close>

locale separation =
  fixes step :: "'c \<Rightarrow> 's \<Rightarrow> 'o \<times> 's"
    and view :: "'d \<Rightarrow> 's \<Rightarrow> 'v"
    and domain_ok :: "'d \<Rightarrow> bool"
    and call_ok :: "'c \<Rightarrow> bool"
    and concerns :: "'d \<Rightarrow> 'c \<Rightarrow> bool"
  assumes locally_respects:
      "domain_ok d \<Longrightarrow> call_ok c \<Longrightarrow> \<not> concerns d c \<Longrightarrow> view d (snd (step c s)) = view d s"
    and step_consistent:
      "domain_ok d \<Longrightarrow> call_ok c \<Longrightarrow> concerns d c \<Longrightarrow> view d s = view d t
        \<Longrightarrow> fst (step c s) = fst (step c t) \<and> view d (snd (step c s)) = view d (snd (step c t))"
begin

lemma noninterference:
  assumes "domain_ok d" and "\<forall>c\<in>set cs. call_ok c" and "view d s = view d t"
  shows "filter (\<lambda>cr. concerns d (fst cr)) (fst (run_calls step cs s)) = fst (run_calls step (filter (concerns d) cs) t) \<and>
    view d (snd (run_calls step cs s)) = view d (snd (run_calls step (filter (concerns d) cs) t))"
  using assms(2,3)
proof (induction cs arbitrary: s t)
  case (Cons c cs)
  have ok: "call_ok c" "\<forall>c\<in>set cs. call_ok c" using Cons.prems by simp_all
  show ?case
  proof (cases "concerns d c")
    case True
    have eq: "fst (step c s) = fst (step c t)" "view d (snd (step c s)) = view d (snd (step c t))"
      using step_consistent [OF assms(1) ok(1) True Cons.prems(2)] by simp_all
    show ?thesis using Cons.IH [OF ok(2) eq(2)] True eq(1) by (simp add: case_prod_beta)
  next
    case False
    have "view d (snd (step c s)) = view d t" using locally_respects [OF assms(1) ok(1) False] Cons.prems(2) by simp
    from Cons.IH [OF ok(2) this] show ?thesis using False by (simp add: case_prod_beta)
  qed
qed simp

end

type_synonym 'j server_call = "'j tool_env \<times> tenant_id option \<times> 'j tool_request"

fun server_step :: "tool_lib \<Rightarrow> 'j server_call \<Rightarrow> 'j server \<Rightarrow> (mcp_error + 'j tool_reply) \<times> 'j server" where
  "server_step lib (env, tenant, request) s = tool_call lib env tenant request s"

text \<open>
  The calls that concern a tenant: its own, and those of the operator over the trusted connection that set or
  read its quota.
\<close>

fun names_tenant :: "tenant_id \<Rightarrow> 'j tool_request \<Rightarrow> bool" where
  "names_tenant a (ConfigureTenantQuotaTool p) \<longleftrightarrow> cq_tenant_id p = tenant_as_str a"
| "names_tenant a (TenantQuotaStatusTool (Some v)) \<longleftrightarrow> v = tenant_as_str a"
| "names_tenant a request \<longleftrightarrow> False"

fun concerns_tenant :: "tenant_id \<Rightarrow> 'j server_call \<Rightarrow> bool" where
  "concerns_tenant a (env, tenant, request) \<longleftrightarrow> tenant = Some a \<or> tenant = None \<and> names_tenant a request"

fun valid_call :: "'j server_call \<Rightarrow> bool" where
  "valid_call (env, tenant, request) \<longleftrightarrow> valid_caller tenant"

lemma tenant_id_new_str: "tenant_id_new v = Inr t \<Longrightarrow> v = tenant_as_str t"
  by (auto simp: tenant_id_new_def split: if_splits)

lemma operator_call_consistent:
  assumes "valid_tenant a" and "names_tenant a request"
  shows "consistent (tenant_view a) (tool_call lib env None request)"
proof -
  have new: "tenant_id_new (tenant_as_str a) = Inr a" using assms(1) by (simp add: valid_tenant_def)
  have "tool_call lib env None request = tool_impl lib env None request"
    by (rule ext) (simp add: tool_call_def authorize_impl_def)
  moreover have "consistent (tenant_view a) (tool_impl lib env None request)"
    using assms(2) new
    by (cases "(a, request)" rule: names_tenant.cases)
      (auto intro!: consistent_tmap consistent_configure_quota consistent_quota_status simp: status_tenant_def check_tenant_id_def)
  ultimately show ?thesis by simp
qed

interpretation tenants: separation "server_step lib" tenant_view valid_tenant valid_call concerns_tenant for lib
proof (unfold_locales, goal_cases)
  case (1 a c s)
  obtain env tenant request where c: "c = (env, tenant, request)" by (cases c)
  have other: "other_caller a tenant" using 1 by (simp add: c other_caller_def)
  have "request_ok (\<lambda>t. t \<noteq> a) (\<lambda>t. t \<noteq> a) tenant request"
    using 1(3) by (cases "(\<lambda>t. t \<noteq> a, \<lambda>t. t \<noteq> a, tenant, request)" rule: request_ok.cases) (auto simp: c dest: tenant_id_new_str)
  then show ?case using others.tool_call_keeps [of "(a, tenant_view a s)" tenant request s] other by (simp add: c)
next
  case (2 a c s t)
  obtain env tenant request where c: "c = (env, tenant, request)" by (cases c)
  have "consistent (tenant_view a) (tool_call lib env tenant request)"
    using 2 operator_call_consistent consistent_own_call by (auto simp: c)
  then show ?case using 2(4) unfolding c server_step.simps consistent_def by blast
qed



definition sample_lib :: tool_lib where
  "sample_lib = \<lparr> lib_display = (\<lambda>u. ''id''), lib_parse = (\<lambda>v. if v = ''id'' then Some 1 else None),
     lib_unix = (\<lambda>u. Some (0, 0)), lib_sha256 = sample_sha \<rparr>"

definition sample_env :: "string tool_env" where
  "sample_env =
     \<lparr> te_quota_now = 0, te_status_now = 0, te_admission_now = 0, te_dedup_now = 0, te_insert_now = 0, te_route_now = 0,
       te_timestamp = Timestamp 5, te_metrics_now = Timestamp 5, te_audit_now = Timestamp 5, te_fresh_id = MessageId 1,
       te_create_dir = Inr (), te_open = (\<lambda>_. (Inr [], Inr [])), te_wal_out = Logged, te_dlq_out = Logged,
       te_annotate_out = Logged, te_resolve = sample_resolve,
       te_claim = (\<lambda>_. \<lparr> cr_passes = [sample_claim 0], cr_cancelled = None \<rparr>), te_id_rank = (\<lambda>_. 0),
       te_name_rank = (\<lambda>_. 0), te_id_nan = (\<lambda>_. True), te_name_nan = (\<lambda>_. True), te_uuids = (''u1'', ''u2'') \<rparr>"

definition sample_server :: "string server" where
  "sample_server =
     \<lparr> sv_groups = [], sv_admission = Map.empty, sv_dedup = Map.empty, sv_routes = Map.empty, sv_quotas = Map.empty,
       sv_api_keys = \<lparr> ks_keys = Map.empty, ks_wal = [] \<rparr>,
       sv_audit = \<lparr> au_capacity = 4096, au_channel = [], au_workers = [None, None, None, None], au_wal = [], au_dropped = 0,
                    au_written = 0 \<rparr>,
       sv_depth = Map.empty, sv_lag = Map.empty, sv_latency = [] \<rparr>"

lemma sample_server_opens: "server_open (Inr []) (Inr []) = Inr sample_server"
  by (simp add: server_open_def keys_open_def audit_open_def audit_DEFAULT_def sample_server_def numeral_eq_Suc)

definition sample_enqueue_params :: "string enqueue_params" where
  "sample_enqueue_params = \<lparr> ep_queue = Some ''q'', ep_payload = ''job'', ep_idempotency_key = Some ''k'',
     ep_estimated_tokens = None, ep_estimated_cost = None, ep_embedding = None \<rparr>"

definition sample_calls :: "string server_call list" where
  "sample_calls =
     [(sample_env, Some (TenantId ''b''), EnqueueTool sample_enqueue_params),
      (sample_env, Some (TenantId ''a''), EnqueueTool sample_enqueue_params),
      (sample_env, Some (TenantId ''b''), ClaimTool \<lparr> cp_queue = ''q'', cp_wait_ms = None \<rparr>),
      (sample_env, None, TenantQuotaStatusTool (Some ''b'')),
      (sample_env, Some (TenantId ''a''), ClaimTool \<lparr> cp_queue = ''q'', cp_wait_ms = None \<rparr>)]"

lemma sample_valid:
  "valid_tenant (TenantId ''a'')" "valid_tenant (TenantId ''b'')" "valid_queue_name ''q''"
  by code_simp+


text \<open>The file of a queue's dead letters, next to its log.\<close>

definition queue_dlq_path :: "tenant_id option \<Rightarrow> string \<Rightarrow> string list" where
  "queue_dlq_path tenant name = queue_dir tenant @ [dlq_file_name (Some (name @ ''.wal''))]"

text \<open>
  No two queues share a file or an entry of the server's maps, whatever their owners and names, and no queue's files are
  the key store or the audit log. The operator's queues are directly in the data directory, a tenant's in a
  directory of its own, and a name is never a path: it has no separator, no dot and no null byte.
\<close>

lemma queue_files_disjoint:
  assumes "valid_caller t1" and "valid_caller t2" and "valid_queue_name n1" and "valid_queue_name n2"
  shows "(queue_path t1 n1 = queue_path t2 n2 \<longleftrightarrow> t1 = t2 \<and> n1 = n2) \<and>
    (queue_dlq_path t1 n1 = queue_dlq_path t2 n2 \<longleftrightarrow> t1 = t2 \<and> n1 = n2) \<and>
    (scope_key t1 n1 = scope_key t2 n2 \<longleftrightarrow> t1 = t2 \<and> n1 = n2) \<and>
    queue_dlq_path t1 n1 \<noteq> queue_path t2 n2 \<and>
    queue_path t1 n1 \<notin> {[''api_keys.log''], [''audit.log'']} \<and>
    queue_dlq_path t1 n1 \<notin> {[''api_keys.log''], [''audit.log'']} \<and>
    (\<forall>c\<in>set n1. c \<noteq> CHR ''/'' \<and> c \<noteq> CHR ''.'' \<and> c \<noteq> CHR 0x00)"
proof -
  have dir: "queue_dir t = queue_dir t' \<longleftrightarrow> t = t'" for t t' by (auto simp: queue_dir_def split: option.splits)
  have path: "queue_path t n = queue_path t' n' \<longleftrightarrow> t = t' \<and> n = n'" for t t' n n' by (auto simp: queue_path_def dir)
  have dlq: "queue_dlq_path t n = queue_dlq_path t' n' \<longleftrightarrow> t = t' \<and> n = n'" for t t' n n'
    by (auto simp: queue_dlq_path_def dlq_file_name_def dir)
  have chars: "\<forall>c\<in>set n1. c \<noteq> CHR ''/'' \<and> c \<noteq> CHR ''.'' \<and> c \<noteq> CHR 0x00"
    using assms(3) by (auto simp: valid_queue_name_def list_all_iff tenant_char_def is_ascii_alphanumeric_def)
  define kind where "kind p = take 3 (rev (last p))" for p :: "string list"
  have kinds: "kind (queue_path t n) = ''law''" "kind (queue_dlq_path t n) = ''qld''"
    "kind [''api_keys.log''] = ''gol''" "kind [''audit.log''] = ''gol''" for t n
    by (simp_all add: kind_def queue_path_def queue_dlq_path_def dlq_file_name_def)
  have ne: "p \<noteq> q" if "kind p \<noteq> kind q" for p q using that by auto
  have apart: "queue_dlq_path t1 n1 \<noteq> queue_path t2 n2" "queue_path t1 n1 \<notin> {[''api_keys.log''], [''audit.log'']}"
    "queue_dlq_path t1 n1 \<notin> {[''api_keys.log''], [''audit.log'']}"
    unfolding insert_iff de_Morgan_disj by (intro conjI ne; simp add: kinds)+
  show ?thesis using path dlq chars apart scope_key_inj [OF assms] by blast
qed

lemma queue_files_disjoint_witness:
  "queue_path (Some (TenantId ''a'')) ''q'' \<noteq> queue_path None ''q'' \<and>
   scope_key (Some (TenantId ''a'')) ''q'' \<noteq> scope_key (Some (TenantId ''b'')) ''q''"
  using queue_files_disjoint [of "Some (TenantId ''a'')" None "''q''" "''q''"]
    queue_files_disjoint [of "Some (TenantId ''a'')" "Some (TenantId ''b'')" "''q''" "''q''"]
  by (simp add: sample_valid valid_caller_def)

end
