(* ===== verification/Tool_Limits.thy ===== *)
theory Tool_Limits
  imports Tool_Isolation
begin

text \<open>
  Invariants of the server, each an interpretation of \<open>handler_laws\<close>: the ceiling on a tenant's queues, the
  tools reserved for the trusted connection, and the queues themselves, which are consumer groups that only
  ever change by calls of their own methods. Then what an enqueue that succeeds has done.
\<close>

section \<open>The ceiling on queues\<close>

lemma count_update:
  "count_matching (AList.update key g groups) t =
     count_matching groups t + (if own_key t key \<and> map_of groups key = None then 1 else 0)"
  by (induction groups) (auto simp: count_matching_def own_key_def)

lemma quota_of_upd: "quota_of a (s \<lparr> sv_quotas := (sv_quotas s)(tenant_as_str t \<mapsto> q) \<rparr>) = (if a = t then q else quota_of a s)"
  by (simp add: quota_of_def)

lemma quota_of_same [simp]:
  "quota_of a (s \<lparr> sv_groups := x0 \<rparr>) = quota_of a s"
  "quota_of a (s \<lparr> sv_admission := x1 \<rparr>) = quota_of a s"
  "quota_of a (s \<lparr> sv_dedup := x2 \<rparr>) = quota_of a s"
  "quota_of a (s \<lparr> sv_routes := x3 \<rparr>) = quota_of a s"
  "quota_of a (s \<lparr> sv_api_keys := x4 \<rparr>) = quota_of a s"
  "quota_of a (s \<lparr> sv_depth := x5 \<rparr>) = quota_of a s"
  "quota_of a (s \<lparr> sv_lag := x6 \<rparr>) = quota_of a s"
  "quota_of a (s \<lparr> sv_latency := x7 \<rparr>) = quota_of a s"
  "quota_of a (s \<lparr> sv_audit := x8 \<rparr>) = quota_of a s"
  by (simp_all add: quota_of_def)

lemma quota_of_touch [simp]: "quota_of a (touch_quota tenant s) = quota_of a s"
  by (auto simp: touch_quota_def quota_of_upd split: option.split)

definition queue_bound :: "tenant_id \<times> u64 \<times> nat \<Rightarrow> 'j server \<Rightarrow> bool" where
  "queue_bound alm s \<longleftrightarrow> (case alm of (a, limit, m) \<Rightarrow>
     max_queues (tq_config (quota_of a s)) = Some limit \<and> count_matching (sv_groups s) a \<le> m)"

interpretation queue_ceiling: handler_laws
  "\<lambda>alm lib env tenant. valid_tenant (fst alm) \<and> valid_caller tenant \<and> unat (fst (snd alm)) \<le> snd (snd alm)"
  "\<lambda>alm b s. queue_bound alm s"
  "\<lambda>alm t. True"
  "\<lambda>alm t. t \<noteq> fst alm"
proof (unfold_locales, goal_cases)
  case (3 alm lib env tenant b s name)
  obtain a limit m where alm: "alm = (a, limit, m)" by (cases alm)
  show ?case
  proof (rule registry_get_cases [of env tenant name s])
    fix g
    assume *: "valid_queue_name name" "map_of (sv_groups s) (scope_key tenant name) = None" "within_queue_limit tenant s"
      "snd (registry_get env tenant name s) =
        (touch_quota tenant s) \<lparr> sv_groups := AList.update (scope_key tenant name) g (sv_groups s) \<rparr>"
    have owner: "own_key a (scope_key tenant name) \<longleftrightarrow> tenant = Some a"
      using scope_key_owner [OF _ _ *(1)] 3(1) by (simp add: own_key_def alm)
    have "count_matching (sv_groups s) a < unat limit" if "tenant = Some a"
      using *(3) 3(2) that by (simp add: within_queue_limit_def queue_bound_def alm)
    then show ?case using 3 by (auto simp: * alm queue_bound_def count_update owner)
  qed (use 3 in \<open>simp_all add: queue_bound_def alm\<close>)
next
  case (4 alm lib env tenant name s g item key)
  then show ?case by (simp add: queue_bound_def put_group_def count_update current_def case_prod_beta)
next
  case (5 alm lib env tenant name b s g g')
  then show ?case by (simp add: queue_bound_def put_group_def count_update current_def case_prod_beta)
next
  case (9 alm t q s b)
  then show ?case by (cases alm) (auto simp: queue_bound_def quota_of_upd)
next
  case (10 alm lib env t b s q)
  then show ?case by (cases alm) (auto simp: queue_bound_def quota_of_upd)
qed (simp_all add: queue_bound_def case_prod_beta)

section \<open>What only the operator may do\<close>

definition management :: "api_key_store \<times> (tenant_id \<Rightarrow> quota_config) \<Rightarrow> 'j server \<Rightarrow> bool" where
  "management kc s \<longleftrightarrow> sv_api_keys s = fst kc \<and> (\<forall>t. tq_config (quota_of t s) = snd kc t)"

lemma touch_quota_keys [simp]: "sv_api_keys (touch_quota tenant s) = sv_api_keys s"
  by (simp add: touch_quota_def split: option.split)

interpretation operator_only: handler_laws
  "\<lambda>kc lib env tenant. tenant \<noteq> None"
  "\<lambda>kc b s. management kc s"
  "\<lambda>kc t. True"
  "\<lambda>kc t. True"
proof (unfold_locales, goal_cases)
  case (3 kc lib env tenant b s name)
  then show ?case by (cases rule: registry_get_cases [of env tenant name s]) (simp_all add: management_def)
next
  case (9 kc t q s b)
  then show ?case by (auto simp: management_def quota_of_upd)
qed (simp_all add: management_def put_group_def)

section \<open>The queues\<close>

text \<open>A group that was opened by the registry and has changed only by calls of its methods.\<close>

definition served_group :: "tool_lib \<Rightarrow> ('j, 'j) group \<Rightarrow> bool" where
  "served_group lib g \<longleftrightarrow>
     (\<exists>rank opened dlq_opened g0. cg_open VISIBILITY_TIMEOUT retry_DEFAULT rank opened dlq_opened = Inr g0 \<and>
        cg_reach (lib_display lib) g0 g)"

definition scoped_key :: "string \<Rightarrow> bool" where
  "scoped_key key \<longleftrightarrow> (\<exists>tenant name. valid_caller tenant \<and> valid_queue_name name \<and> key = scope_key tenant name)"

definition queues_served :: "tool_lib \<times> message_id \<Rightarrow> bool \<Rightarrow> 'j server \<Rightarrow> bool" where
  "queues_served li used s \<longleftrightarrow> distinct (map fst (sv_groups s)) \<and>
     (\<forall>key g. (key, g) \<in> set (sv_groups s) \<longrightarrow>
        scoped_key key \<and> served_group (fst li) g \<and> (used \<or> snd li \<notin> cg_ids g))"

text \<open>No timer of a \<^verbatim>\<open>claim\<close> fires in the middle of a pass, and the fresh identifier is not in a log.\<close>

definition env_ok :: "'j tool_env \<Rightarrow> bool" where
  "env_ok env \<longleftrightarrow> (\<forall>wait. cr_cancelled (te_claim env wait) = None) \<and>
     (\<forall>tenant name g. opened_group env tenant name g \<longrightarrow> te_fresh_id env \<notin> cg_ids g)"

lemma served_step: "served_group lib g \<Longrightarrow> fresh_call c g \<Longrightarrow> served_group lib (cg_step (lib_display lib) c g)"
  unfolding served_group_def by (blast intro: cg_reach.call)

lemma served_claims: "served_group lib g \<Longrightarrow> served_group lib (snd (claim_passes (lib_display lib) envs g))"
proof (induction envs arbitrary: g)
  case (Cons env envs)
  have "served_group lib (snd (claim_pass (lib_display lib) env g))" using served_step [OF Cons.prems, of "GClaim env"] by simp
  then show ?case using Cons.IH by (auto split: prod.split claim_pass_result.split)
qed simp

lemma served_moves:
  assumes "served_group lib g" and "group_moves lib env g g'" and "env_ok env"
  shows "served_group lib g'"
proof -
  have "fresh_call c g" if "resolving_call c" for c :: "('a, 'a) cg_call" using that by (cases c) simp_all
  moreover have "snd (claim_timeout lib (te_claim env wait) g) = snd (claim_passes (lib_display lib) (cr_passes (te_claim env wait)) g)"
    for wait using assms(3) by (simp add: claim_timeout_def env_ok_def split: prod.split claim_pass_result.split)
  ultimately show ?thesis
    using assms(1,2) served_step [OF assms(1)] served_claims [OF assms(1)] by (auto simp: group_moves_def)
qed

lemma served_update:
  assumes "queues_served li b s" and "scoped_key key" and "served_group (fst li) g" and "used \<or> snd li \<notin> cg_ids g" and "b \<longrightarrow> used"
  shows "queues_served li used (s' \<lparr> sv_groups := AList.update key g (sv_groups s) \<rparr>)"
proof -
  have d: "distinct (map fst (sv_groups s))" using assms(1) by (simp add: queues_served_def)
  have "(k, h) = (key, g) \<or> (k, h) \<in> set (sv_groups s)" if "(k, h) \<in> set (AList.update key g (sv_groups s))" for k h
  proof -
    have "map_of (AList.update key g (sv_groups s)) k = Some h"
      by (rule map_of_is_SomeI [OF distinct_update [OF d] that])
    then show ?thesis by (auto simp: update_conv' split: if_splits dest: map_of_SomeD)
  qed
  then show ?thesis
    using assms d by (auto simp: queues_served_def distinct_update)
qed

interpretation queue_groups: handler_laws
  "\<lambda>li lib env tenant. lib = fst li \<and> te_fresh_id env = snd li \<and> env_ok env \<and> valid_caller tenant"
  queues_served
  "\<lambda>li t. True"
  "\<lambda>li t. True"
proof (unfold_locales, goal_cases)
  case (1 li b s)
  then show ?case by (auto simp: queues_served_def)
next
  case (3 li lib env tenant b s name)
  show ?case
  proof (rule registry_get_cases [of env tenant name s])
    fix g
    assume *: "valid_queue_name name" "opened_group env tenant name g"
      "snd (registry_get env tenant name s) =
        (touch_quota tenant s) \<lparr> sv_groups := AList.update (scope_key tenant name) g (sv_groups s) \<rparr>"
    have "served_group (fst li) g"
      using *(2) cg_reach.start [of "lib_display (fst li)" g]
      unfolding served_group_def opened_group_def by (auto split: prod.splits)
    moreover have "scoped_key (scope_key tenant name)" using 3(1) *(1) by (auto simp: scoped_key_def)
    moreover have "snd li \<notin> cg_ids g" using 3(1) *(2) by (auto simp: env_ok_def)
    ultimately show ?case unfolding *(3) using served_update [OF 3(2)] by blast
  qed (use 3 in \<open>simp_all add: queues_served_def\<close>)
next
  case (4 li lib env tenant name s g item key)
  then have g: "served_group (fst li) g" "snd li \<notin> cg_ids g"
    by (auto simp: queues_served_def current_def dest!: map_of_SomeD)
  have "snd (group_enqueue env item key g) = cg_step (lib_display (fst li)) (GEnqueue (te_fresh_id env) item key (te_wal_out env)) g"
    by (simp add: group_enqueue_def cg_enqueue_def cg_enqueue_with_key_def split: option.split)
  then have "served_group (fst li) (snd (group_enqueue env item key g))" using g 4(1) served_step [OF g(1), of "GEnqueue (te_fresh_id env) item key (te_wal_out env)"] by simp
  then show ?case
    using served_update [OF 4(3), where used = True and s' = s] 4(1,2) by (auto simp: put_group_def scoped_key_def)
next
  case (5 li lib env tenant name b s g g')
  then have "served_group (fst li) g'"
    using served_moves by (fastforce simp: queues_served_def current_def dest!: map_of_SomeD)
  then show ?case
    using served_update [OF 5(3), where used = True and s' = s] 5(1,2) by (auto simp: put_group_def scoped_key_def)
qed (simp_all add: queues_served_def)

section \<open>Properties of runs\<close>

lemma request_ok_True: "request_ok (\<lambda>t. True) (\<lambda>t. True) tenant request"
  by (cases "(\<lambda>t :: tenant_id. True, \<lambda>t :: tenant_id. True, tenant, request)" rule: request_ok.cases) simp_all

lemma calls_keep:
  assumes "\<And>c s. c \<in> set calls \<Longrightarrow> P s \<Longrightarrow> P (snd (step c s))" and "P s"
  shows "P (snd (run_calls step calls s))"
  using assms
proof (induction calls arbitrary: s)
  case (Cons c cs)
  have "P (snd (step c s))" using Cons.prems by simp
  then show ?case using Cons.IH [of "snd (step c s)"] Cons.prems(1) by (simp add: case_prod_beta)
qed simp

fun configures :: "tenant_id \<Rightarrow> 'j server_call \<Rightarrow> bool" where
  "configures a (env, tenant, ConfigureTenantQuotaTool p) \<longleftrightarrow> cq_tenant_id p = tenant_as_str a"
| "configures a _ \<longleftrightarrow> False"

text \<open>
  C17: the ceiling on queues holds. Whatever the tools are called with and by whom, as long as the operator
  does not change it a tenant never has more queues open than its \<^verbatim>\<open>max_queues\<close>, or than it had when the
  ceiling was set below that number.
\<close>

theorem max_queues_enforced:
  assumes "valid_tenant a" and "\<forall>c\<in>set calls. valid_call c \<and> \<not> configures a c"
    and "max_queues (tq_config (quota_of a s)) = Some limit"
  shows "count_matching (sv_groups (snd (run_calls (server_step lib) calls s))) a
    \<le> max (count_matching (sv_groups s) a) (unat limit)"
proof -
  let ?m = "max (count_matching (sv_groups s) a) (unat limit)"
  have "queue_bound (a, limit, ?m) (snd (run_calls (server_step lib) calls s))"
  proof (rule calls_keep)
    fix c and s :: "'a server"
    assume c: "c \<in> set calls" and bound: "queue_bound (a, limit, ?m) s"
    obtain env tenant request where eq: "c = (env, tenant, request)" by (cases c)
    have "\<not> configures a c" using assms(2) c by blast
    then have "request_ok (\<lambda>t. True) (\<lambda>t. t \<noteq> a) tenant request"
      by (cases "(\<lambda>t :: tenant_id. True, \<lambda>t. t \<noteq> a, tenant, request)" rule: request_ok.cases)
        (auto simp: eq dest: tenant_id_new_str)
    then show "queue_bound (a, limit, ?m) (snd (server_step lib c s))"
      using queue_ceiling.tool_call_keeps [of "(a, limit, ?m)" tenant request s lib env] assms(1,2) c bound by (auto simp: eq)
  qed (simp add: queue_bound_def assms(3))
  then show ?thesis by (simp add: queue_bound_def)
qed

text \<open>
  C16: over HTTP nothing can be administered. A request whose credential is not accepted changes nothing at all; one
  that is accepted runs as the tenant of its credential, and whatever tool it calls, the keys and every
  tenant's configured quota stay as they are.
\<close>

theorem http_cannot_administer:
  "let (res, s') = http_call lib to_str decode jwt_key env authorization request s in
     sv_api_keys s' = sv_api_keys s \<and> (\<forall>t. tq_config (quota_of t s') = tq_config (quota_of t s)) \<and>
     (case res of
        Unauthorized m \<Rightarrow> s' = s
      | NextRan r \<Rightarrow> \<exists>t. tool_call lib env (Some t) request s = (r, s') \<and>
          (\<exists>credential. authenticate (lib_sha256 lib) credential (sv_api_keys s) = Some t \<or>
             (\<exists>key. jwt_key = Some key \<and> verify_jwt decode credential key = Some t)))"
proof -
  let ?kc = "(sv_api_keys s, \<lambda>t. tq_config (quota_of t s))"
  have keeps: "management ?kc (snd (tool_call lib env (Some t) request s))" for t
    by (rule operator_only.tool_call_keeps) (simp_all add: management_def request_ok_True)
  show ?thesis
  proof (cases "fst (http_call lib to_str decode jwt_key env authorization request s)")
    case (Unauthorized m)
    then have "http_call lib to_str decode jwt_key env authorization request s = (Unauthorized m, s)"
      by (auto simp: http_call_def split: http_outcome.splits prod.splits)
    then show ?thesis by simp
  next
    case (NextRan r)
    then obtain s' where run: "http_call lib to_str decode jwt_key env authorization request s = (NextRan r, s')"
      by (metis prod.collapse)
    then have ran: "require_tenant (lib_sha256 lib) to_str decode (\<lambda>t. tool_call lib env (Some t) request s)
        \<lparr> as_api_keys = sv_api_keys s, as_jwt_key = jwt_key \<rparr> authorization = NextRan (r, s')"
      by (auto simp: http_call_def split: http_outcome.splits prod.splits)
    then obtain t credential where t: "tool_call lib env (Some t) request s = (r, s')"
        "authenticate (lib_sha256 lib) credential (sv_api_keys s) = Some t \<or>
          (\<exists>key. jwt_key = Some key \<and> verify_jwt decode credential key = Some t)"
      by (auto simp: require_tenant_def split: option.splits)
    then show ?thesis using keeps [of t] by (auto simp: run management_def)
  qed
qed

inductive server_reach :: "tool_lib \<Rightarrow> 'j server \<Rightarrow> 'j server \<Rightarrow> bool" for lib s0 where
  started: "server_reach lib s0 s0"
| called: "server_reach lib s0 s \<Longrightarrow> valid_caller tenant \<Longrightarrow> env_ok env
    \<Longrightarrow> \<forall>(key, g)\<in>set (sv_groups s). te_fresh_id env \<notin> cg_ids g
    \<Longrightarrow> server_reach lib s0 (snd (tool_call lib env tenant request s))"

lemma server_reach_served:
  assumes "server_reach lib s0 s" and "sv_groups s0 = []"
  shows "distinct (map fst (sv_groups s)) \<and> (\<forall>key g. (key, g) \<in> set (sv_groups s) \<longrightarrow> scoped_key key \<and> served_group lib g)"
  using assms(1)
proof induction
  case started
  then show ?case by (simp add: assms(2))
next
  case (called s tenant env request)
  have "queues_served (lib, te_fresh_id env) False s" using called by (auto simp: queues_served_def)
  then have "queues_served (lib, te_fresh_id env) True (snd (tool_call lib env tenant request s))"
    using called by (intro queue_groups.tool_call_keeps) (simp_all add: request_ok_True)
  then show ?case by (auto simp: queues_served_def)
qed



theorem max_queues_enforced_witness:
  "let s = sample_server \<lparr> sv_quotas := [''a'' \<mapsto> quota_new (quota_UNLIMITED \<lparr> max_queues := Some 1 \<rparr>)] \<rparr> in
   count_matching (sv_groups (snd (run_calls (server_step sample_lib) sample_calls s))) (TenantId ''a'') \<le> 1"
proof -
  let ?s = "sample_server \<lparr> sv_quotas := [''a'' \<mapsto> quota_new (quota_UNLIMITED \<lparr> max_queues := Some 1 \<rparr>)] \<rparr>"
  have "\<forall>c\<in>set sample_calls. valid_call c \<and> \<not> configures (TenantId ''a'') c"
    by (simp add: sample_calls_def valid_caller_def sample_valid)
  moreover have "max_queues (tq_config (quota_of (TenantId ''a'') ?s)) = Some 1" by (simp add: quota_of_def quota_new_def)
  moreover have "count_matching (sv_groups ?s) (TenantId ''a'') = 0" by (simp add: count_matching_def sample_server_def)
  ultimately show ?thesis
    using max_queues_enforced [of "TenantId ''a''" sample_calls ?s 1 sample_lib] by (simp add: sample_valid)
qed

lemmas tool_eval = tbind_def treturn_def tfail_def tmap_def tool_call_def authorize_impl_def registry_quota_eq put_quota_def
  registry_get_def validate_queue_name_def lookup_group_def check_max_queues_eq within_queue_limit_def touch_quota_def
  put_group_def cg_open_def cg_replay_def dlq_open_def dlq_replay_def dlq_ids_and_keys_def hm_iter_def seed_dedup_def
  list_dead_letters_impl_def Let_def

lemmas sample_eval = tool_eval sample_env_def sample_lib_def sample_server_def sample_valid quota_of_def quota_new_def
  quota_UNLIMITED_def try_acquire_def quota_evict_expired_def scope_key_def

definition sample_after :: "string server" where
  "sample_after = snd (tool_call sample_lib sample_env (Some (TenantId ''a'')) (ListDeadLettersTool ''q'') sample_server)"

lemma sample_after_keys: "map fst (sv_groups sample_after) = [''a'' @ [CHR 0x00] @ ''q'']"
  by (simp add: sample_after_def sample_eval)

lemma sample_env_ok: "env_ok sample_env"
proof -
  have "te_fresh_id sample_env \<notin> cg_ids g" if "opened_group sample_env tenant name g" for tenant name g
    using that by (auto simp: opened_group_def sample_env_def cg_open_def cg_replay_def dlq_open_def dlq_replay_def cg_ids_def
        cg_msgs_def cg_live_def cg_dead_def)
  then show ?thesis by (simp add: env_ok_def) (simp add: sample_env_def)
qed

lemma sample_after_reached: "server_reach sample_lib sample_server sample_after"
  unfolding sample_after_def
  by (rule server_reach.called [OF server_reach.started])
    (simp_all add: valid_caller_def sample_valid sample_env_ok sample_server_def)


end
