(* ===== verification/Tool_Types.thy ===== *)
theory Tool_Types
  imports Tool_Limits
begin

text \<open>
  The types of the registry (\<^verbatim>\<open>crates/qaas-server/src/mcp.rs\<close>, \<^verbatim>\<open>QueueRegistry\<close>). Its maps are keyed by plain
  strings; what their comments call a scoped key, a tenant key or a tenant is a subset of the strings. The
  invariant says that nothing else is ever stored, an interpretation of \<open>handler_laws\<close>.
\<close>

definition tenant_string :: "string \<Rightarrow> bool" where
  "tenant_string v \<longleftrightarrow> (\<exists>t. valid_tenant t \<and> v = tenant_as_str t)"

definition registry_typed :: "'j server \<Rightarrow> bool" where
  "registry_typed s \<longleftrightarrow>
     distinct (map fst (sv_groups s)) \<and> (\<forall>key\<in>fst ` set (sv_groups s). scoped_key key) \<and>
     (\<forall>key\<in>dom (sv_admission s). scoped_key key) \<and> (\<forall>key\<in>dom (sv_dedup s). scoped_key key) \<and>
     (\<forall>key\<in>dom (sv_routes s). key = [] \<or> tenant_string key) \<and> (\<forall>key\<in>dom (sv_quotas s). tenant_string key)"

lemma scoped_keyI: "valid_caller tenant \<Longrightarrow> valid_queue_name name \<Longrightarrow> scoped_key (scope_key tenant name)"
  unfolding scoped_key_def by blast

lemma typed_touch: "registry_typed s \<Longrightarrow> valid_caller tenant \<Longrightarrow> registry_typed (touch_quota tenant s)"
  by (auto simp: registry_typed_def touch_quota_def tenant_string_def valid_caller_def split: option.splits)

lemma typed_groups:
  "registry_typed s \<Longrightarrow> scoped_key key \<Longrightarrow> registry_typed (s \<lparr> sv_groups := AList.update key g (sv_groups s) \<rparr>)"
  by (auto simp: registry_typed_def distinct_update keys_update image_iff dest: bspec)

interpretation typed_registry: handler_laws
  "\<lambda>(u :: unit) lib env tenant. valid_caller tenant"
  "\<lambda>u b s. registry_typed s"
  "\<lambda>u t. valid_tenant t"
  "\<lambda>u t. valid_tenant t"
proof (unfold_locales, goal_cases)
  case (3 u lib env tenant b s name)
  have touched: "registry_typed (touch_quota tenant s)" using 3 by (simp add: typed_touch)
  show ?case
  proof (rule registry_get_cases [of env tenant name s])
    fix g assume "valid_queue_name name" "snd (registry_get env tenant name s) =
        (touch_quota tenant s) \<lparr> sv_groups := AList.update (scope_key tenant name) g (sv_groups s) \<rparr>"
    then show ?case
      using typed_groups [OF touched scoped_keyI, of tenant name g] 3(1) by (simp add: touch_quota_groups)
  qed (use 3 touched in auto)
qed (auto simp: registry_typed_def put_group_def distinct_update keys_update image_iff tenant_string_def valid_caller_def tenant_key_def
    intro: scoped_keyI dest: bspec split: option.splits)

lemma scoped_key_length: "scoped_key key \<Longrightarrow> length key \<le> 257"
  by (auto simp: scoped_key_def scope_key_def valid_queue_name_def valid_caller_def valid_tenant_def tenant_id_new_def
      MAX_TENANT_ID_LEN_def split: option.splits if_splits)

text \<open>
  C18: the registry is well typed. Whatever tools are called, by whatever callers and with whatever arguments,
  every queue, admission controller and duplicate index is stored under the key of one caller and one valid queue
  name, at most 257 characters long, every table of routes under a tenant or the trusted connection, and
  every quota under a tenant; no queue is stored twice. Names the checks refuse are in no map.
\<close>

theorem registry_is_well_typed:
  assumes "server_open keys_opened audit_opened = Inr s0" and "\<forall>c\<in>set calls. valid_call c"
    and "s = snd (run_calls (server_step lib) calls s0)"
  shows "distinct (map fst (sv_groups s)) \<and>
    (\<forall>key. key \<in> fst ` set (sv_groups s) \<union> dom (sv_admission s) \<union> dom (sv_dedup s) \<longrightarrow>
       length key \<le> 257 \<and> (\<exists>tenant name. valid_caller tenant \<and> valid_queue_name name \<and> key = scope_key tenant name)) \<and>
    (\<forall>key\<in>dom (sv_routes s). key = [] \<or> (\<exists>t. valid_tenant t \<and> key = tenant_as_str t)) \<and>
    (\<forall>key\<in>dom (sv_quotas s). \<exists>t. valid_tenant t \<and> key = tenant_as_str t)"
proof -
  have "registry_typed s"
    unfolding assms(3)
  proof (rule calls_keep)
    show "registry_typed s0" using assms(1) by (auto simp: server_open_def registry_typed_def split: sum.splits)
    fix c and s :: "'a server" assume c: "c \<in> set calls" and typed: "registry_typed s"
    obtain env tenant request where eq: "c = (env, tenant, request)" by (cases c)
    have "request_ok valid_tenant valid_tenant tenant request"
      by (cases "(valid_tenant, valid_tenant, tenant, request)" rule: request_ok.cases)
        (auto simp: valid_tenant_def tenant_id_new_def split: if_splits)
    then show "registry_typed (snd (server_step lib c s))"
      using typed_registry.tool_call_keeps [of tenant request s lib env] assms(2) c typed by (auto simp: eq)
  qed
  then have "distinct (map fst (sv_groups s))" and
      "\<forall>key. key \<in> fst ` set (sv_groups s) \<union> dom (sv_admission s) \<union> dom (sv_dedup s) \<longrightarrow> scoped_key key" and
      "\<forall>key\<in>dom (sv_routes s). key = [] \<or> tenant_string key" and "\<forall>key\<in>dom (sv_quotas s). tenant_string key"
    unfolding registry_typed_def by blast+
  then show ?thesis using scoped_key_length unfolding tenant_string_def scoped_key_def by blast
qed

theorem registry_is_well_typed_witness:
  "\<exists>s. s = snd (run_calls (server_step sample_lib) sample_calls sample_server) \<and> distinct (map fst (sv_groups s)) \<and>
     (\<forall>key\<in>dom (sv_quotas s). \<exists>t. valid_tenant t \<and> key = tenant_as_str t)"
proof -
  have "\<forall>c\<in>set sample_calls. valid_call c" by (simp add: sample_calls_def valid_caller_def sample_valid)
  from registry_is_well_typed [OF sample_server_opens this refl] show ?thesis by blast
qed

end
