(* ===== verification/Tool_Enqueue.thy ===== *)
theory Tool_Enqueue
  imports Tool_Limits
begin

text \<open>
  What the tools promise about a single call: an \<^verbatim>\<open>enqueue\<close> that succeeds has stored the message durably and
  within the tenant's ceilings, and the ways in which \<^verbatim>\<open>enqueue\<close> and \<^verbatim>\<open>claim\<close> fall short of their
  documentation.
\<close>

section \<open>Successful calls\<close>

lemma tbind_Inr_iff: "tbind m f s = (Inr r, s') \<longleftrightarrow> (\<exists>a s1. m s = (Inr a, s1) \<and> f a s1 = (Inr r, s'))"
  by (cases "m s"; cases "fst (m s)") (auto simp: tbind_def)

lemma treturn_Inr_iff [simp]: "treturn r s = (Inr r', s') \<longleftrightarrow> r' = r \<and> s' = s"
  by (auto simp: treturn_def)

lemma tfail_Inr_iff [simp]: "tfail e s = (Inr r, s') \<longleftrightarrow> False"
  by (simp add: tfail_def)

text \<open>A step that leaves a part of the state as it is.\<close>

definition keeps :: "('s \<Rightarrow> 'v) \<Rightarrow> ('s, 'r) tool \<Rightarrow> bool" where
  "keeps part m \<longleftrightarrow> (\<forall>s. part (snd (m s)) = part s)"

definition quota_configs :: "'j server \<Rightarrow> tenant_id \<Rightarrow> quota_config" where
  "quota_configs s t = tq_config (quota_of t s)"

definition queues_and_limits :: "'j server \<Rightarrow> (string, ('j, 'j) group) hash_map \<times> (tenant_id \<Rightarrow> quota_config)" where
  "queues_and_limits s = (sv_groups s, quota_configs s)"

lemma keepsD: "keeps part m \<Longrightarrow> m s = (r, s') \<Longrightarrow> part s' = part s"
  unfolding keeps_def by (metis snd_conv)

lemma keeps_bind: "keeps part m \<Longrightarrow> (\<And>r. keeps part (f r)) \<Longrightarrow> keeps part (tbind m f)"
  by (simp add: keeps_def tbind_unfold split: sum.split)

lemma quota_configs_simps [simp]:
  "quota_configs (s \<lparr> sv_groups := x0 \<rparr>) = quota_configs s"
  "quota_configs (s \<lparr> sv_admission := x1 \<rparr>) = quota_configs s"
  "quota_configs (s \<lparr> sv_dedup := x2 \<rparr>) = quota_configs s"
  "quota_configs (s \<lparr> sv_routes := x3 \<rparr>) = quota_configs s"
  "quota_configs (s \<lparr> sv_depth := x5 \<rparr>) = quota_configs s"
  "quota_configs (s \<lparr> sv_lag := x6 \<rparr>) = quota_configs s"
  "quota_configs (s \<lparr> sv_audit := x8 \<rparr>) = quota_configs s"
  "quota_configs (s \<lparr> sv_quotas := (sv_quotas s)(tenant_as_str t \<mapsto> quota_of t s) \<rparr>) = quota_configs s"
  "quota_configs (touch_quota tenant s) = quota_configs s"
  by (auto simp: quota_configs_def quota_of_upd)

lemma keeps_basic [simp]:
  "keeps queues_and_limits (treturn r)" "keeps queues_and_limits (tfail e)" "keeps queues_and_limits (validate_queue_name n)" "keeps queues_and_limits (check_embedding vs)"
  "keeps queues_and_limits (check_idempotency_key k)" "keeps queues_and_limits (lift_io res)" "keeps queues_and_limits (lookup_admission tenant n)"
  "keeps queues_and_limits (put_admission tenant n c)" "keeps queues_and_limits (lookup_dedup tenant n)" "keeps queues_and_limits (put_dedup tenant n ix)"
  "keeps queues_and_limits (registry_routes tenant)" "keeps queues_and_limits (put_routes tenant routes)" "keeps queues_and_limits (registry_quota t)"
  "keeps queues_and_limits (tenant_pending_total rank t)" "keeps queues_and_limits (set_depth labels v)" "keeps queues_and_limits (set_lag labels v)"
  "keeps queues_and_limits (log_event env event)"
  by (auto simp: keeps_def queues_and_limits_def treturn_def tfail_def validate_queue_name_def check_embedding_def check_idempotency_key_def
      lift_io_def lookup_admission_def put_admission_def lookup_dedup_def put_dedup_def registry_routes_def put_routes_def
      registry_quota_eq tenant_pending_total_def set_depth_def set_lag_def log_event_def Let_def split: sum.split option.split)

lemma keeps_steps:
  "keeps queues_and_limits (transpose_opt check_embedding vs)" "keeps queues_and_limits (transpose_opt check_idempotency_key k)"
  "keeps queues_and_limits (registry_admission tenant n)" "keeps queues_and_limits (registry_dedup tenant n)"
  "keeps queues_and_limits (audit_enqueue env tenant n m d e)" "keeps queues_and_limits (record_queue_metrics lib env tenant n g)"
  "keeps queues_and_limits (resolve_target_queue env tenant q emb)" "keeps queues_and_limits (dedup_match env tenant n emb ix)"
  "keeps queues_and_limits (remember env tenant n i emb ix)" "keeps queues_and_limits (admit env tenant n tokens cost c)"
  "keeps queues_and_limits (check_max_pending env tenant n)"
  "keeps queues_and_limits (case emb of Some _ \<Rightarrow> tbind (registry_dedup tenant n) (\<lambda>index. treturn (Some index)) | None \<Rightarrow> treturn None)"
  by (auto simp: transpose_opt_def registry_admission_def registry_dedup_def audit_enqueue_def record_queue_metrics_def
      resolve_target_queue_def dedup_match_def remember_def admit_def check_max_pending_def
      intro!: keeps_bind split: option.split prod.split admission_decision.split)

lemma authorize_keeps: "keeps queues_and_limits (authorize_impl env tenant)"
proof -
  have "tq_config (snd (try_acquire now quota)) = tq_config quota" for now quota
    by (simp add: try_acquire_def Let_def split: option.split)
  then show ?thesis
    by (auto simp: keeps_def queues_and_limits_def authorize_impl_def tbind_unfold registry_quota_eq put_quota_def treturn_def tfail_def quota_configs_def
        quota_of_upd case_prod_beta fun_eq_iff split: option.split quota_decision.split)
qed

lemma get_keeps_configs: "keeps quota_configs (registry_get env tenant n)"
proof -
  have "quota_configs (snd (registry_get env tenant n s)) = quota_configs s" for s
    by (rule registry_get_cases [of env tenant n s]) simp_all
  then show ?thesis by (simp add: keeps_def)
qed

lemma enqueue_new_success:
  assumes "enqueue_new lib env tenant params q g c key emb ix s = (Inr r, s')"
  shows "\<exists>i s1. check_max_pending env tenant q s = (Inr (), s1) \<and>
    fst (group_enqueue env (ep_payload params) key g) = Inr i \<and>
    sv_groups s' = AList.update (scope_key tenant q) (snd (group_enqueue env (ep_payload params) key g)) (sv_groups s) \<and>
    er_message_id r = id_to_string lib i \<and> er_queue r = q \<and> \<not> er_deduplicated r"
proof -
  obtain g' res where ge: "group_enqueue env (ep_payload params) key g = (res, g')" by fastforce
  from assms obtain s1 s2 s3 s4 s5 s6 i remaining where
    *: "check_max_pending env tenant q s = (Inr (), s1)"
      "admit env tenant q (ep_estimated_tokens params) (ep_estimated_cost params) c s1 = (Inr remaining, s2)"
      "put_group tenant q g' s2 = (Inr (), s3)" "lift_io res s3 = (Inr i, s4)"
      "remember env tenant q i emb ix s4 = (Inr (), s5)" "record_queue_metrics lib env tenant q g' s5 = (Inr (), s6)"
      "audit_enqueue env tenant q (Some (id_to_string lib i)) False None s6 = (Inr (), s')"
      "er_message_id r = id_to_string lib i" "er_queue r = q" "\<not> er_deduplicated r"
    by (auto simp: enqueue_new_def tbind_Inr_iff group_call_def ge)
  have i: "res = Inr i" "s4 = s3" using *(4) by (auto simp: lift_io_def split: sum.splits)
  have "sv_groups s2 = sv_groups s"
    using keepsD [OF keeps_steps(11) *(1)] keepsD [OF keeps_steps(10) *(2)] by (simp add: queues_and_limits_def)
  moreover have "sv_groups s' = sv_groups s3"
    using keepsD [OF keeps_steps(9) *(5)] keepsD [OF keeps_steps(6) *(6)]
      keepsD [OF keeps_steps(5) *(7)] i by (simp add: queues_and_limits_def)
  moreover have "sv_groups s3 = AList.update (scope_key tenant q) g' (sv_groups s2)" using *(3) by (auto simp: put_group_def)
  ultimately show ?thesis using * i by (simp add: ge)
qed

lemma enqueue_success:
  assumes "enqueue_impl lib env tenant params s = (Inr r, s')" and "\<not> er_deduplicated r"
  shows "\<exists>g s0 s1 s2 c emb ix. sv_groups s0 = sv_groups s \<and> registry_get env tenant (er_queue r) s0 = (Inr g, s1) \<and>
    sv_groups s2 = sv_groups s1 \<and> quota_configs s2 = quota_configs s \<and>
    enqueue_new lib env tenant params (er_queue r) g c (map_option IdempotencyKey (ep_idempotency_key params)) emb ix s2 = (Inr r, s')"
proof -
  from assms obtain emb a0 q s0 g s1 c a1 d a2 key a3 found ix a4 where
    *: "transpose_opt check_embedding (ep_embedding params) s = (Inr emb, a0)"
      "resolve_target_queue env tenant (ep_queue params) emb a0 = (Inr q, s0)" "registry_get env tenant q s0 = (Inr g, s1)"
      "registry_admission tenant q s1 = (Inr c, a1)"
      "(case emb of Some _ \<Rightarrow> tbind (registry_dedup tenant q) (\<lambda>index. treturn (Some index)) | None \<Rightarrow> treturn None) a1 = (Inr d, a2)"
      "transpose_opt check_idempotency_key (ep_idempotency_key params) a2 = (Inr key, a3)"
      "dedup_match env tenant q emb d a3 = (Inr (found, ix), a4)"
      "(case found of
         Some (existing_id, similarity) \<Rightarrow>
           tbind (audit_enqueue env tenant q (Some (id_to_string lib existing_id)) True None) (\<lambda>_.
             treturn \<lparr> er_message_id = id_to_string lib existing_id, er_queue = q, er_deduplicated = True,
                       er_similarity = Some similarity, er_tokens_remaining = None, er_cost_remaining = None \<rparr>)
       | None \<Rightarrow> enqueue_new lib env tenant params q g c key emb ix) a4 = (Inr r, s')"
    by (auto simp: enqueue_impl_def tbind_Inr_iff)
  have new: "enqueue_new lib env tenant params q g c key emb ix a4 = (Inr r, s')"
    using *(8) assms(2) by (auto simp: tbind_Inr_iff split: option.splits prod.splits)
  have "key = map_option IdempotencyKey (ep_idempotency_key params)"
    using *(6) by (auto simp: transpose_opt_def check_idempotency_key_def idempotency_key_new_def tbind_Inr_iff
        split: option.splits if_splits)
  moreover have "sv_groups s0 = sv_groups s"
    using keepsD [OF keeps_steps(1) *(1)] keepsD [OF keeps_steps(7) *(2)] by (simp add: queues_and_limits_def)
  moreover have "sv_groups a4 = sv_groups s1"
    using keepsD [OF keeps_steps(3) *(4)] keepsD [OF keeps_steps(12) *(5)]
      keepsD [OF keeps_steps(2) *(6)] keepsD [OF keeps_steps(8) *(7)] by (simp add: queues_and_limits_def)
  moreover have "quota_configs a4 = quota_configs s"
    using keepsD [OF keeps_steps(1) *(1)] keepsD [OF keeps_steps(7) *(2)] keepsD [OF get_keeps_configs *(3)]
      keepsD [OF keeps_steps(3) *(4)] keepsD [OF keeps_steps(12) *(5)] keepsD [OF keeps_steps(2) *(6)]
      keepsD [OF keeps_steps(8) *(7)] by (simp add: queues_and_limits_def)
  moreover have "er_queue r = q" using enqueue_new_success [OF new] by blast
  ultimately show ?thesis using *(3) new by blast
qed

text \<open>What the group did when its enqueue returned an identifier.\<close>

definition stored_new :: "message_id \<Rightarrow> 'j \<Rightarrow> idempotency_key option \<Rightarrow> ('j, 'j) group \<Rightarrow> ('j, 'j) group \<Rightarrow> bool" where
  "stored_new i item key g g' \<longleftrightarrow>
     g_pending g' = g_pending g @ [fresh_pending i item key] \<and> g_wal g' = g_wal g @ [CgEnqueue i key item] \<and>
     g_leased g' = g_leased g \<and> g_delayed g' = g_delayed g \<and> g_dlq g' = g_dlq g"

lemma group_enqueue_success:
  assumes "fst (group_enqueue env item key g) = Inr i"
  shows "i = te_fresh_id env \<and> stored_new i item key g (snd (group_enqueue env item key g)) \<or>
    (\<exists>k. key = Some k \<and> g_dedup g k = Some i \<and> snd (group_enqueue env item key g) = g)"
  using assms
  by (cases "te_wal_out env")
    (auto simp: group_enqueue_def cg_enqueue_def cg_enqueue_with_key_def enqueue_with_id_and_key_def reserve_key_def
      write_enqueue_record_def cg_log_def stored_new_def push_pending_def cg_notify_def split: option.splits)

lemma enqueue_call_success:
  assumes "tool_call lib env tenant (EnqueueTool params) s = (Inr (EnqueueReply r), s')" and "\<not> er_deduplicated r"
  shows "\<exists>g i s1 s2 s3. registry_get env tenant (er_queue r) s1 = (Inr g, s2) \<and> sv_groups s1 = sv_groups s \<and>
    sv_groups s3 = sv_groups s2 \<and> quota_configs s3 = quota_configs s \<and>
    fst (check_max_pending env tenant (er_queue r) s3) = Inr () \<and>
    fst (group_enqueue env (ep_payload params) (map_option IdempotencyKey (ep_idempotency_key params)) g) = Inr i \<and>
    sv_groups s' = AList.update (scope_key tenant (er_queue r))
      (snd (group_enqueue env (ep_payload params) (map_option IdempotencyKey (ep_idempotency_key params)) g)) (sv_groups s2) \<and>
    er_message_id r = id_to_string lib i"
proof -
  from assms(1) obtain s0 where auth: "authorize_impl env tenant s = (Inr tenant, s0)" "enqueue_impl lib env tenant params s0 = (Inr r, s')"
    unfolding tool_call_def authorize_returns_caller [where f = "\<lambda>t. tool_impl lib env t (EnqueueTool params)"]
    by (auto simp: tbind_Inr_iff tmap_def) (metis (no_types, lifting) authorize_caller)
  have s0: "sv_groups s0 = sv_groups s" "quota_configs s0 = quota_configs s"
    using keepsD [OF authorize_keeps auth(1)] by (simp_all add: queues_and_limits_def)
  from enqueue_success [OF auth(2) assms(2)] obtain g s1 s2 s3 c emb ix where
    *: "sv_groups s1 = sv_groups s0" "registry_get env tenant (er_queue r) s1 = (Inr g, s2)" "sv_groups s3 = sv_groups s2"
      "quota_configs s3 = quota_configs s0"
      "enqueue_new lib env tenant params (er_queue r) g c (map_option IdempotencyKey (ep_idempotency_key params)) emb ix s3 = (Inr r, s')"
    by blast
  show ?thesis using enqueue_new_success [OF *(5)] * s0 by (metis fst_conv)
qed



section \<open>The ceiling on pending messages\<close>

definition pending_sum :: "tenant_id \<Rightarrow> (string, ('j, 'j) group) hash_map \<Rightarrow> nat" where
  "pending_sum t groups = sum_list (map (\<lambda>kg. cg_len (snd kg)) (filter (\<lambda>kg. own_key t (fst kg)) groups))"

lemma fold_lens:
  "unat (fold (\<lambda>(_, g) acc. sat_add acc (usize_to_u64 (cg_len g))) gs acc) =
     min (unat acc + sum_list (map (\<lambda>kg. cg_len (snd kg)) gs)) (2 ^ 64 - 1)"
proof (induction gs arbitrary: acc)
  case Nil
  have "unat acc < 2 ^ 64" using unsigned_less [of acc, where 'a = nat] by simp
  then show ?case by simp
next
  case (Cons kg gs)
  then show ?case by (simp add: case_prod_beta unat_sat_add unat_usize_to_u64)
qed

lemma pending_total:
  "\<exists>n. tenant_pending_total rank t s = (Inr n, s) \<and> unat n = min (pending_sum t (sv_groups s)) (2 ^ 64 - 1)"
proof -
  let ?gs = "filter (\<lambda>kg. own_key t (fst kg)) (sv_groups s)"
  have "filter (\<lambda>(key, _). starts_with key (tenant_prefix t)) (hm_iter rank (sv_groups s)) = hm_iter rank ?gs"
    by (simp add: hm_iter_def filter_sort own_key_def case_prod_beta')
  moreover have "sum_list (map (\<lambda>kg. cg_len (snd kg)) (hm_iter rank ?gs)) = pending_sum t (sv_groups s)"
    unfolding pending_sum_def by (simp only: mset_map mset_hm_iter flip: sum_mset_sum_list)
  ultimately show ?thesis by (simp add: tenant_pending_total_def fold_lens)
qed

lemma pending_sum_update:
  assumes "map_of groups key = Some g"
  shows "pending_sum t (AList.update key g' groups) + (if own_key t key then cg_len g else 0) =
    pending_sum t groups + (if own_key t key then cg_len g' else 0)"
  using assms by (induction groups) (auto simp: pending_sum_def)



definition sample_limited :: "string server" where
  "sample_limited = sample_server \<lparr> sv_quotas := [''a'' \<mapsto> quota_new (quota_UNLIMITED \<lparr> max_pending_messages := Some 1 \<rparr>)] \<rparr>"

lemmas enqueue_eval = enqueue_impl_def transpose_opt_def resolve_target_queue_def registry_admission_def lookup_admission_def
  put_admission_def registry_dedup_def lookup_dedup_def put_dedup_def check_idempotency_key_def idempotency_key_new_def
  dedup_match_def enqueue_new_def check_max_pending_def tenant_pending_total_def admit_def group_call_def group_enqueue_def
  cg_enqueue_with_key_def enqueue_with_id_and_key_def reserve_key_def write_enqueue_record_def cg_log_def push_pending_def
  cg_notify_def fresh_pending_def lift_io_def remember_def record_queue_metrics_def set_depth_def set_lag_def audit_enqueue_def
  log_event_def oldest_pending_age_def cg_len_def admission_new_def admission_UNLIMITED_def try_admit_def adm_refresh_def
  adm_evict_expired_def exceeds_tokens_def exceeds_cost_def

lemma sample_enqueue_accepted:
  "\<exists>s'. tool_call sample_lib sample_env (Some (TenantId ''a'')) (EnqueueTool sample_enqueue_params) sample_limited =
     (Inr (EnqueueReply \<lparr> er_message_id = ''id'', er_queue = ''q'', er_deduplicated = False, er_similarity = None,
                          er_tokens_remaining = None, er_cost_remaining = None \<rparr>), s')"
  by (simp add: sample_limited_def sample_enqueue_params_def sample_eval enqueue_eval starts_with_def tenant_prefix_def
      case_prod_beta sat_add_def usize_to_u64_def)




section \<open>Where the tools fall short\<close>

text \<open>
  The timer of \<^verbatim>\<open>claim\<close> fires while the expired leases that the call took out are being resolved: the caller
  is told that nothing was available, and the message is in no list of the queue any more, while its key is
  still registered. It comes back when the server restarts.
\<close>

lemma timed_out_claim_drops_message:
  fixes cut :: claim_run
  defines "cut \<equiv> \<lparr> cr_passes = [], cr_cancelled = Some (sample_claim (from_secs 30), 0) \<rparr>"
  shows "\<exists>s' g. tool_call sample_lib (sample_env \<lparr> te_claim := (\<lambda>_. cut) \<rparr>) None
       (ClaimTool \<lparr> cp_queue = ''q'', cp_wait_ms = Some 0 \<rparr>) (sample_server \<lparr> sv_groups := [(''q'', sample_leased)] \<rparr>) =
       (Inr (ClaimReply (nothing_claimed False)), s') \<and>
     map_of (sv_groups s') ''q'' = Some g \<and> cg_msgs sample_leased = {#(MessageId 1, Some (IdempotencyKey ''k''), ''job'')#} \<and>
     cg_msgs g = {#} \<and> g_dedup g (IdempotencyKey ''k'') = Some (MessageId 1)"
proof -
  have "expired_leases (\<lambda>_. 0) (from_secs 30) sample_leased = [(MessageId 1, sample_lease)]"
    by (simp add: expired_leases_def sample_leased_eq hm_iter_def sample_lease_def)
  then have cancelled: "cancelled_pass (sample_claim (from_secs 30), 0) sample_leased =
      (Inr (), sample_leased \<lparr> g_leased := [] \<rparr>)"
    by (simp add: cancelled_pass_def sample_claim_def remove_leases_def) (simp add: sample_leased_eq)
  have dedup: "g_dedup sample_leased (IdempotencyKey ''k'') = Some (MessageId 1)"
    by (simp add: sample_leased_eq sample_enqueued_eq)
  have msgs: "cg_msgs sample_leased = {#(MessageId 1, Some (IdempotencyKey ''k''), ''job'')#}"
      "cg_msgs (sample_leased \<lparr> g_leased := [] \<rparr>) = {#}"
    by (simp_all add: sample_leased_eq sample_enqueued_eq sample_group_def sample_lease_def cg_msgs_def cg_live_def cg_dead_def)
  show ?thesis
    using cancelled dedup msgs
    by (simp add: cut_def sample_eval enqueue_eval claim_impl_def claim_timeout_def has_headroom_def)
qed

text \<open>
  A producer repeats an \<^verbatim>\<open>enqueue\<close> under the idempotency key of a message that the queue still holds. The
  admission controller is asked before the key is looked up, so the repetition is charged again, and is
  refused when the budget is used up.
\<close>

lemma retry_with_key_denied:
  fixes used :: admission_controller
  defines "used \<equiv> \<lparr> adm_config = admission_UNLIMITED \<lparr> tokens_per_window := Some 10 \<rparr>,
      adm_entries = [\<lparr> ue_at = 0, ue_tokens = 10, ue_cost = Fin 0 \<rparr>] \<rparr>"
  shows "\<exists>reason s'. tool_call sample_lib sample_env None (EnqueueTool (sample_enqueue_params \<lparr> ep_estimated_tokens := Some 10 \<rparr>))
       (sample_server \<lparr> sv_groups := [(''q'', sample_leased)], sv_admission := [''q'' \<mapsto> used] \<rparr>) =
       (Inl (Throttled (ByAdmission (WouldUseTokens 20 10)) reason), s') \<and>
     cg_enqueue_with_key (MessageId 9) ''job'' (IdempotencyKey ''k'') Logged sample_leased = (Inr (MessageId 1), sample_leased)"
  by (simp add: used_def sample_enqueue_params_def sample_eval enqueue_eval throttled_to_mcp_def adm_sum_def evict_def from_secs_def
      nanos_per_sec_def sat_add_def)
    (simp add: sample_leased_eq sample_enqueued_eq cg_enqueue_with_key_def enqueue_with_id_and_key_def reserve_key_def)

text \<open>A tenant may be called \<^verbatim>\<open>none\<close>; its metrics and audit records then carry the label of the trusted connection.\<close>

lemma label_none_is_ambiguous:
  "valid_tenant (TenantId ''none'') \<and> tenant_label (Some (TenantId ''none'')) = tenant_label None"
  by (simp add: valid_tenant_def tenant_id_new_def MAX_TENANT_ID_LEN_def tenant_char_def is_ascii_alphanumeric_def tenant_label_def)

end
