(* ===== verification/Tool_Dashboard.thy ===== *)
theory Tool_Dashboard
  imports Tool_Enqueue
begin

text \<open>
  \<^verbatim>\<open>crates/qaas-server/src/mcp.rs\<close>, last part: the snapshot that the operator's dashboard serves
  (\<^verbatim>\<open>queue_snapshots\<close>, \<^verbatim>\<open>tenant_snapshots\<close> and \<^verbatim>\<open>dashboard_snapshot\<close>). It lists every open queue and every tenant
  that has one, and does not panic on the keys the server makes.
\<close>

section \<open>Definitions\<close>

record queue_status =
  st_tenant :: string
  st_queue :: string
  st_depth :: nat
  st_oldest_pending_age_seconds :: f64
  st_dead_letters :: nat
  st_tokens_used :: u64
  st_tokens_per_window :: "u64 option"
  st_cost_used :: f64
  st_cost_ceiling_per_window :: "f64 option"

record tenant_status =
  tn_tenant :: string
  tn_queues_open :: nat
  tn_pending_messages :: u64
  tn_requests_in_window :: u64
  tn_requests_per_window :: "u64 option"

record dashboard =
  db_generated_at_ms :: u64
  db_queues :: "queue_status list"
  db_tenants :: "tenant_status list"
  db_audit_events_written :: u64
  db_audit_events_dropped :: u64

text \<open>Clock readings by queue key and by tenant, and the iteration order of the groups.\<close>

record dashboard_env =
  de_rank :: "string iter_rank"
  de_timestamp :: timestamp
  de_age_now :: "string \<Rightarrow> timestamp"
  de_usage_now :: "string \<Rightarrow> instant"
  de_quota_now :: "string \<Rightarrow> instant"

fun for_each :: "('a \<Rightarrow> ('s, 'b) tool) \<Rightarrow> 'a list \<Rightarrow> ('s, 'b list) tool" where
  "for_each f [] = treturn []"
| "for_each f (x # xs) = tbind (f x) (\<lambda>b. tbind (for_each f xs) (\<lambda>bs. treturn (b # bs)))"

definition admission_columns ::
  "dashboard_env \<Rightarrow> string \<Rightarrow> ('j server, u64 \<times> u64 option \<times> f64 \<times> f64 option) tool" where
  "admission_columns env key s =
     (case sv_admission s key of
        None \<Rightarrow> (Inr (0, None, Fin 0, None), s)
      | Some controller \<Rightarrow>
          (case adm_usage (de_usage_now env key) controller of
             (usage, controller) \<Rightarrow>
               (Inr (tokens_used usage, tokens_per_window (adm_config controller), cost_used usage,
                     cost_ceiling_per_window (adm_config controller)),
                s \<lparr> sv_admission := (sv_admission s)(key \<mapsto> controller) \<rparr>)))"

definition queue_status_of ::
  "tool_lib \<Rightarrow> dashboard_env \<Rightarrow> string \<times> ('j, 'j) group \<Rightarrow> ('j server, queue_status) tool" where
  "queue_status_of lib env entry =
     (case entry of (key, g) \<Rightarrow>
        (case oldest_pending_age (lib_unix lib) (de_age_now env key) g of
           None \<Rightarrow> tfail Panicked
         | Some age \<Rightarrow>
             tbind (admission_columns env key) (\<lambda>(tokens, token_limit, cost, cost_limit).
               treturn \<lparr> st_tenant = fst (split_scope_key key), st_queue = snd (split_scope_key key), st_depth = cg_len g,
                         st_oldest_pending_age_seconds = (case age of None \<Rightarrow> Fin 0 | Some d \<Rightarrow> as_secs_f64 d),
                         st_dead_letters = length (cg_dead_letters (\<lambda>_. 0) g), st_tokens_used = tokens,
                         st_tokens_per_window = token_limit, st_cost_used = cost,
                         st_cost_ceiling_per_window = cost_limit \<rparr>)))"

definition queue_snapshots :: "tool_lib \<Rightarrow> dashboard_env \<Rightarrow> ('j server, queue_status list) tool" where
  "queue_snapshots lib env s = for_each (queue_status_of lib env) (hm_iter (de_rank env) (sv_groups s)) s"

definition tenant_labels :: "(string, 'g) hash_map \<Rightarrow> string list" where
  "tenant_labels groups =
     sort (remdups (List.map_filter (\<lambda>(key, _). map_option fst (split_once (CHR 0x00) key)) groups))"

definition tenant_status_of :: "dashboard_env \<Rightarrow> string \<Rightarrow> ('j server, tenant_status) tool" where
  "tenant_status_of env label =
     (case tenant_id_new label of
        Inl _ \<Rightarrow> tfail Panicked
      | Inr t \<Rightarrow>
          tbind (registry_quota t) (\<lambda>quota.
            case requests_in_window (de_quota_now env label) quota of
              (in_window, quota) \<Rightarrow>
                tbind (put_quota t quota) (\<lambda>_.
                tbind (tenant_queue_count t) (\<lambda>queues_open.
                tbind (tenant_pending_total (de_rank env) t) (\<lambda>pending_messages.
                  treturn \<lparr> tn_tenant = label, tn_queues_open = queues_open, tn_pending_messages = pending_messages,
                            tn_requests_in_window = in_window,
                            tn_requests_per_window = requests_per_window (tq_config quota) \<rparr>)))))"

definition tenant_snapshots :: "dashboard_env \<Rightarrow> ('j server, tenant_status list) tool" where
  "tenant_snapshots env s = for_each (tenant_status_of env) (tenant_labels (sv_groups s)) s"

definition dashboard_snapshot :: "tool_lib \<Rightarrow> dashboard_env \<Rightarrow> ('j server, dashboard) tool" where
  "dashboard_snapshot lib env =
     tbind (queue_snapshots lib env) (\<lambda>queues.
     tbind (tenant_snapshots env) (\<lambda>tenants s.
       (Inr \<lparr> db_generated_at_ms = ts_millis (de_timestamp env), db_queues = queues, db_tenants = tenants,
              db_audit_events_written = audit_written (sv_audit s),
              db_audit_events_dropped = audit_dropped (sv_audit s) \<rparr>, s)))"

section \<open>What the snapshot shows\<close>

lemma split_once_prefix: "no_nul v \<Longrightarrow> split_once (CHR 0x00) (v @ CHR 0x00 # w) = Some (v, w)"
proof -
  assume "no_nul v"
  then have "\<forall>c\<in>set v. c \<noteq> CHR 0x00" by (auto simp: no_nul_def)
  then have "takeWhile (\<lambda>d. d \<noteq> CHR 0x00) (v @ CHR 0x00 # w) = v \<and> dropWhile (\<lambda>d. d \<noteq> CHR 0x00) (v @ CHR 0x00 # w) = CHR 0x00 # w"
    by (induction v) simp_all
  then show ?thesis by (simp add: split_once_def)
qed

lemma split_scope_key_inverse:
  assumes "valid_caller tenant" and "valid_queue_name name"
  shows "split_scope_key (scope_key tenant name) = (tenant_label tenant, name)"
    and "split_once (CHR 0x00) (scope_key tenant name) = map_option (\<lambda>t. (tenant_as_str t, name)) tenant"
proof -
  have n: "no_nul name" using assms(2) by (rule valid_name_no_nul)
  show "split_once (CHR 0x00) (scope_key tenant name) = map_option (\<lambda>t. (tenant_as_str t, name)) tenant"
  proof (cases tenant)
    case None
    then show ?thesis using n by (simp add: scope_key_def split_once_def no_nul_def)
  next
    case (Some t)
    then have "no_nul (tenant_as_str t)" using assms(1) valid_tenant_no_nul by (simp add: valid_caller_def)
    then show ?thesis by (simp add: Some scope_key_def split_once_prefix)
  qed
  then show "split_scope_key (scope_key tenant name) = (tenant_label tenant, name)"
    by (cases tenant) (simp_all add: split_scope_key_def scope_key_def tenant_label_def)
qed

lemma for_each_succeeds:
  assumes "\<And>x s. x \<in> set xs \<Longrightarrow> P s \<Longrightarrow> \<exists>b s'. f x s = (Inr b, s') \<and> P s' \<and> R x b" and "P s"
  shows "\<exists>bs s'. for_each f xs s = (Inr bs, s') \<and> P s' \<and> list_all2 R xs bs"
  using assms
proof (induction xs arbitrary: s)
  case (Cons x xs)
  from Cons.prems obtain b s1 where 1: "f x s = (Inr b, s1)" "P s1" "R x b" by force
  from Cons.IH [of s1] Cons.prems(1) 1(2) obtain bs s' where "for_each f xs s1 = (Inr bs, s')" "P s'" "list_all2 R xs bs" by force
  then show ?case using 1 by (auto simp: tbind_Inr_iff)
qed (simp add: treturn_def)

lemma queue_status_of_succeeds:
  assumes "\<And>u. lib_unix lib u \<noteq> None"
  shows "\<exists>q s'. queue_status_of lib env (key, g) s = (Inr q, s') \<and> sv_groups s' = sv_groups s \<and>
    (st_tenant q, st_queue q) = split_scope_key key \<and> st_depth q = cg_len g"
proof -
  obtain age where age: "oldest_pending_age (lib_unix lib) (de_age_now env key) g = Some age"
  proof (cases "g_pending g")
    case (Cons p ps)
    obtain u where "p_id p = MessageId u" by (cases "p_id p")
    moreover obtain t where "lib_unix lib u = Some t" using assms [of u] by blast
    ultimately show ?thesis using that Cons by (auto simp: oldest_pending_age_def)
  qed (use that in \<open>simp add: oldest_pending_age_def\<close>)
  obtain cols s' where "admission_columns env key s = (Inr cols, s')" "sv_groups s' = sv_groups s"
  proof (cases "sv_admission s key")
    case None
    then show ?thesis using that by (simp add: admission_columns_def)
  next
    case (Some c)
    obtain u c' where "adm_usage (de_usage_now env key) c = (u, c')" by fastforce
    then show ?thesis using that Some by (simp add: admission_columns_def)
  qed
  then show ?thesis by (auto simp: queue_status_of_def age tbind_def treturn_def case_prod_beta)
qed

lemma tenant_status_of_succeeds:
  assumes "valid_tenant t"
  shows "\<exists>n s'. tenant_status_of env (tenant_as_str t) s = (Inr n, s') \<and> sv_groups s' = sv_groups s \<and>
    tn_tenant n = tenant_as_str t \<and> tn_queues_open n = count_matching (sv_groups s) t \<and>
    unat (tn_pending_messages n) = min (pending_sum t (sv_groups s)) (2 ^ 64 - 1)"
proof -
  have new: "tenant_id_new (tenant_as_str t) = Inr t" using assms by (simp add: valid_tenant_def)
  obtain in_window quota where w: "requests_in_window (de_quota_now env (tenant_as_str t)) (quota_of t s) = (in_window, quota)"
    by fastforce
  define s1 where "s1 = s \<lparr> sv_quotas := (sv_quotas s)(tenant_as_str t \<mapsto> quota) \<rparr>"
  have s1: "sv_groups s1 = sv_groups s" by (simp add: s1_def)
  have step: "tbind (registry_quota t) (\<lambda>quota. case requests_in_window (de_quota_now env (tenant_as_str t)) quota of
      (in_window, quota) \<Rightarrow> tbind (put_quota t quota) (\<lambda>_. f in_window quota)) s = f in_window quota s1"
    for f :: "u64 \<Rightarrow> tenant_quota \<Rightarrow> ('a server, tenant_status) tool"
    by (simp add: tbind_def registry_quota_eq put_quota_def w s1_def)
  obtain n where "tenant_pending_total (de_rank env) t s1 = (Inr n, s1)" "unat n = min (pending_sum t (sv_groups s)) (2 ^ 64 - 1)"
    using pending_total [of "de_rank env" t s1] s1 by auto
  then show ?thesis
    unfolding tenant_status_of_def new sum.case step by (simp add: tbind_def tenant_queue_count_def treturn_def s1)
qed


lemma set_map_filter: "set (List.map_filter f xs) = {b. \<exists>a\<in>set xs. f a = Some b}"
  by (induction xs) (auto simp: List.map_filter_simps split: option.splits)

lemma set_tenant_labels:
  assumes "\<forall>key g. (key, g) \<in> set groups \<longrightarrow> scoped_key key"
  shows "set (tenant_labels groups) = {tenant_as_str t | t. valid_tenant t \<and> 0 < count_matching groups t}"
proof -
  have owner: "map_option fst (split_once (CHR 0x00) key) = Some label \<longleftrightarrow>
      (\<exists>t. valid_tenant t \<and> label = tenant_as_str t \<and> own_key t key)" if mem: "(key, g) \<in> set groups" for key g label
  proof -
    obtain tenant name where k: "valid_caller tenant" "valid_queue_name name" "key = scope_key tenant name"
      using assms mem unfolding scoped_key_def by blast
    have "own_key t key \<longleftrightarrow> tenant = Some t" if "valid_tenant t" for t
      using scope_key_owner [OF that k(1,2)] by (simp add: own_key_def k(3))
    then show ?thesis using k by (cases tenant) (auto simp: split_scope_key_inverse valid_caller_def)
  qed
  have "0 < count_matching groups t \<longleftrightarrow> (\<exists>key g. (key, g) \<in> set groups \<and> own_key t key)" for t
    by (auto simp: count_matching_def own_key_def length_greater_0_conv filter_empty_conv)
  moreover have "set (tenant_labels groups) =
      {label. \<exists>key g. (key, g) \<in> set groups \<and> map_option fst (split_once (CHR 0x00) key) = Some label}"
    by (auto simp: tenant_labels_def set_map_filter case_prod_beta) (metis fst_conv snd_conv)+
  ultimately show ?thesis using owner by blast
qed

definition row_of :: "string \<times> ('j, 'j) group \<Rightarrow> queue_status \<Rightarrow> bool" where
  "row_of kg q \<longleftrightarrow> (st_tenant q, st_queue q) = split_scope_key (fst kg) \<and> st_depth q = cg_len (snd kg)"

definition column_of :: "(string \<times> ('j, 'j) group) list \<Rightarrow> string \<Rightarrow> tenant_status \<Rightarrow> bool" where
  "column_of groups label n \<longleftrightarrow> tn_tenant n = label \<and> (\<forall>t. label = tenant_as_str t \<longrightarrow>
     tn_queues_open n = count_matching groups t \<and>
     unat (tn_pending_messages n) = min (pending_sum t groups) (2 ^ 64 - 1))"

lemma queue_snapshots_succeed:
  fixes s :: "'j server"
  assumes "\<And>u. lib_unix lib u \<noteq> None"
  shows "\<exists>qs s1. queue_snapshots lib env s = (Inr qs, s1) \<and> sv_groups s1 = sv_groups s \<and>
    list_all2 row_of (hm_iter (de_rank env) (sv_groups s)) qs"
proof -
  have "\<exists>qs s1. for_each (queue_status_of lib env) (hm_iter (de_rank env) (sv_groups s)) s = (Inr qs, s1) \<and>
      sv_groups s1 = sv_groups s \<and> list_all2 row_of (hm_iter (de_rank env) (sv_groups s)) qs"
    by (rule for_each_succeeds)
      (use queue_status_of_succeeds [OF assms, of env] in \<open>force simp: split_paired_all row_of_def\<close>)+
  then show ?thesis by (auto simp: queue_snapshots_def)
qed

lemma tenant_snapshots_succeed:
  fixes s :: "'j server"
  assumes "set (tenant_labels (sv_groups s)) \<subseteq> {tenant_as_str t | t. valid_tenant t}"
  shows "\<exists>ns s1. tenant_snapshots env s = (Inr ns, s1) \<and> sv_groups s1 = sv_groups s \<and>
    list_all2 (column_of (sv_groups s)) (tenant_labels (sv_groups s)) ns"
proof -
  have "\<exists>ns s1. for_each (tenant_status_of env) (tenant_labels (sv_groups s)) s = (Inr ns, s1) \<and>
      sv_groups s1 = sv_groups s \<and> list_all2 (column_of (sv_groups s)) (tenant_labels (sv_groups s)) ns"
  proof (rule for_each_succeeds)
    fix label and s' :: "'j server"
    assume "label \<in> set (tenant_labels (sv_groups s))" and P: "sv_groups s' = sv_groups s"
    then obtain t where t: "valid_tenant t" "label = tenant_as_str t" using assms by auto
    show "\<exists>n s''. tenant_status_of env label s' = (Inr n, s'') \<and> sv_groups s'' = sv_groups s \<and>
        column_of (sv_groups s) label n"
      using tenant_status_of_succeeds [OF t(1), of env s'] P by (auto simp: t(2) column_of_def)
  qed simp
  then show ?thesis by (auto simp: tenant_snapshots_def)
qed

lemma rows_complete:
  assumes "list_all2 row_of (hm_iter rank groups) qs" and v: "valid_caller tenant" "valid_queue_name name"
    and "map_of groups (scope_key tenant name) = Some g"
  shows "\<exists>q\<in>set qs. st_tenant q = tenant_label tenant \<and> st_queue q = name \<and> st_depth q = cg_len g"
proof -
  have "(scope_key tenant name, g) \<in> set (hm_iter rank groups)" using map_of_SomeD [OF assms(4)] by simp
  then obtain k where k: "k < length qs" "hm_iter rank groups ! k = (scope_key tenant name, g)"
    using list_all2_lengthD [OF assms(1)] by (metis in_set_conv_nth)
  then have "row_of (scope_key tenant name, g) (qs ! k)" using list_all2_nthD2 [OF assms(1), of k] by simp
  then show ?thesis using k(1) by (auto simp: row_of_def split_scope_key_inverse [OF v])
qed

lemma column_names:
  assumes "list_all2 (column_of groups) labels ns"
  shows "map tn_tenant ns = labels"
  using assms by (induction rule: list_all2_induct) (simp_all add: column_of_def)

lemma columns_complete:
  assumes "list_all2 (column_of groups) (tenant_labels groups) ns" and "valid_tenant t"
    and labels: "set (tenant_labels groups) = {tenant_as_str t | t. valid_tenant t \<and> 0 < count_matching groups t}"
  shows "0 < count_matching groups t \<longleftrightarrow> (\<exists>n\<in>set ns. tn_tenant n = tenant_as_str t \<and>
    tn_queues_open n = count_matching groups t \<and> unat (tn_pending_messages n) = min (pending_sum t groups) (2 ^ 64 - 1))"
proof -
  have each: "column_of groups (tn_tenant n) n" if mem: "n \<in> set ns" for n
  proof -
    obtain k where "k < length ns" "n = ns ! k" using mem by (auto simp: in_set_conv_nth)
    then show ?thesis using list_all2_nthD2 [OF assms(1), of k] by (auto simp: column_of_def)
  qed
  have "0 < count_matching groups t \<longleftrightarrow> tenant_as_str t \<in> set (tenant_labels groups)"
    using assms(2) by (auto simp only: labels mem_Collect_eq tenant_as_str_inj)
  also have "\<dots> \<longleftrightarrow> (\<exists>n\<in>set ns. tn_tenant n = tenant_as_str t)"
    by (auto simp: image_iff eq_commute simp flip: column_names [OF assms(1)])
  finally show ?thesis using each by (auto simp: column_of_def)
qed



definition sample_dashboard :: dashboard_env where
  "sample_dashboard = \<lparr> de_rank = (\<lambda>_. 0), de_timestamp = Timestamp 9, de_age_now = (\<lambda>_. Timestamp 9),
     de_usage_now = (\<lambda>_. 0), de_quota_now = (\<lambda>_. 0) \<rparr>"


end
