(* ===== verification/Socket_Addr.thy ===== *)
theory Socket_Addr
  imports Qaas_Prelude "HOL-Library.Monad_Syntax"
begin

text \<open>
  \<^verbatim>\<open>str::parse::<SocketAddr>\<close> of the Rust standard library, which \<^verbatim>\<open>qaas-server/src/main.rs\<close> applies to the
  configured addresses: a recursive descent over the text. A reader returns what it read with the rest of the
  text, or nothing. The whole text has to be read; an IPv4 part never has leading zeros, the rest may.
\<close>

datatype socket_addr =
  SocketV4 "u8 list" u16
| SocketV6 "u16 list" u32 u16

type_synonym 'a reader = "string \<Rightarrow> ('a \<times> string) option"

definition digit_value :: "char \<Rightarrow> nat" where
  "digit_value c =
     (let n = of_char c :: nat in
      if 48 \<le> n \<and> n \<le> 57 then n - 48
      else if 97 \<le> n \<and> n \<le> 122 then n - 87
      else if 65 \<le> n \<and> n \<le> 90 then n - 55
      else 36)"

definition read_given_char :: "char \<Rightarrow> unit reader" where
  "read_given_char c v = (case v of [] \<Rightarrow> None | d # v \<Rightarrow> if d = c then Some ((), v) else None)"

definition read_number :: "nat \<Rightarrow> nat option \<Rightarrow> bool \<Rightarrow> nat \<Rightarrow> nat reader" where
  "read_number radix max_digits allow_zero_prefix limit v =
     (let digits = takeWhile (\<lambda>c. digit_value c < radix) v;
          n = foldl (\<lambda>n c. n * radix + digit_value c) 0 digits in
      if digits = [] \<or> (case max_digits of None \<Rightarrow> False | Some m \<Rightarrow> m < length digits)
         \<or> (\<not> allow_zero_prefix \<and> hd digits = CHR ''0'' \<and> 1 < length digits) \<or> limit < n
      then None
      else Some (n, drop (length digits) v))"

definition read_separator :: "char \<Rightarrow> nat \<Rightarrow> 'a reader \<Rightarrow> 'a reader" where
  "read_separator sep index inner v =
     (if index = 0 then inner v else do { (_, v) \<leftarrow> read_given_char sep v; inner v })"

definition read_octet :: "nat \<Rightarrow> nat reader" where
  "read_octet index = read_separator CHR ''.'' index (read_number 10 (Some 3) False 255)"

definition read_ipv4_addr :: "u8 list reader" where
  "read_ipv4_addr v = do {
     (a, v) \<leftarrow> read_octet 0 v;
     (b, v) \<leftarrow> read_octet 1 v;
     (c, v) \<leftarrow> read_octet 2 v;
     (d, v) \<leftarrow> read_octet 3 v;
     Some (map of_nat [a, b, c, d], v) }"

text \<open>The groups read and whether an embedded IPv4 address ended them; \<open>room\<close> groups may still follow.\<close>

definition v4_groups :: "u8 list \<Rightarrow> u16 list" where
  "v4_groups v4 = (case v4 of [a, b, c, d] \<Rightarrow> [ucast a * 256 + ucast b, ucast c * 256 + ucast d] | _ \<Rightarrow> [])"

primrec read_groups :: "nat \<Rightarrow> nat \<Rightarrow> string \<Rightarrow> u16 list \<times> bool \<times> string" where
  "read_groups 0 index v = ([], False, v)"
| "read_groups (Suc room) index v =
     (case if 0 < room then read_separator CHR '':'' index read_ipv4_addr v else None of
        Some (v4, v) \<Rightarrow> (v4_groups v4, True, v)
      | None \<Rightarrow>
          (case read_separator CHR '':'' index (read_number 16 (Some 4) True 65535) v of
             None \<Rightarrow> ([], False, v)
           | Some (n, v) \<Rightarrow>
               (case read_groups room (Suc index) v of (groups, v4, v) \<Rightarrow> (of_nat n # groups, v4, v))))"

definition read_ipv6_addr :: "u16 list reader" where
  "read_ipv6_addr v =
     (case read_groups 8 0 v of
        (head, head_ipv4, v) \<Rightarrow>
          if length head = 8 then Some (head, v)
          else if head_ipv4 then None
          else do {
            (_, v) \<leftarrow> read_given_char CHR '':'' v;
            (_, v) \<leftarrow> read_given_char CHR '':'' v;
            let (tail, _, v) = read_groups (7 - length head) 0 v;
            Some (head @ replicate (8 - length head - length tail) 0 @ tail, v) })"

definition read_port :: "nat reader" where
  "read_port v = do { (_, v) \<leftarrow> read_given_char CHR '':'' v; read_number 10 None True 65535 v }"

definition read_scope_id :: "nat reader" where
  "read_scope_id v = do { (_, v) \<leftarrow> read_given_char CHR ''%'' v; read_number 10 None True 4294967295 v }"

definition read_socket_addr_v4 :: "socket_addr reader" where
  "read_socket_addr_v4 v = do {
     (ip, v) \<leftarrow> read_ipv4_addr v;
     (port, v) \<leftarrow> read_port v;
     Some (SocketV4 ip (of_nat port), v) }"

definition read_socket_addr_v6 :: "socket_addr reader" where
  "read_socket_addr_v6 v = do {
     (_, v) \<leftarrow> read_given_char CHR ''['' v;
     (ip, v) \<leftarrow> read_ipv6_addr v;
     (scope, v) \<leftarrow> (case read_scope_id v of None \<Rightarrow> Some (0, v) | Some r \<Rightarrow> Some r);
     (_, v) \<leftarrow> read_given_char CHR '']'' v;
     (port, v) \<leftarrow> read_port v;
     Some (SocketV6 ip (of_nat scope) (of_nat port), v) }"

definition parse_socket_addr :: "string \<Rightarrow> socket_addr option" where
  "parse_socket_addr v =
     (case (case read_socket_addr_v4 v of None \<Rightarrow> read_socket_addr_v6 v | Some r \<Rightarrow> Some r) of
        Some (addr, []) \<Rightarrow> Some addr
      | _ \<Rightarrow> None)"

text \<open>The address only this host can reach.\<close>

fun is_loopback :: "socket_addr \<Rightarrow> bool" where
  "is_loopback (SocketV4 ip port) \<longleftrightarrow> take 1 ip = [127]"
| "is_loopback (SocketV6 ip scope port) \<longleftrightarrow> ip = [0, 0, 0, 0, 0, 0, 0, 1]"

primrec socket_port :: "socket_addr \<Rightarrow> u16" where
  "socket_port (SocketV4 ip port) = port"
| "socket_port (SocketV6 ip scope port) = port"

named_theorems reader_defs

lemmas reader_laws [reader_defs] =
  digit_value_def read_given_char_def read_number_def read_separator_def read_octet_def read_ipv4_addr_def
  v4_groups_def read_ipv6_addr_def read_port_def read_scope_id_def read_socket_addr_v4_def read_socket_addr_v6_def
  parse_socket_addr_def

lemma read_groups_numeral [reader_defs]:
  "read_groups (numeral k) index v =
     (case if 0 < pred_numeral k then read_separator CHR '':'' index read_ipv4_addr v else None of
        Some (v4, v) \<Rightarrow> (v4_groups v4, True, v)
      | None \<Rightarrow>
          (case read_separator CHR '':'' index (read_number 16 (Some 4) True 65535) v of
             None \<Rightarrow> ([], False, v)
           | Some (n, v) \<Rightarrow>
               (case read_groups (pred_numeral k) (Suc index) v of (groups, v4, v) \<Rightarrow> (of_nat n # groups, v4, v))))"
  by (simp add: numeral_eq_Suc)

lemma replicate_pred_numeral [reader_defs]: "replicate (numeral k) x = x # replicate (pred_numeral k) x"
  by (simp add: numeral_eq_Suc)

text \<open>A number that was read is within its limit, and an IPv4 address has four octets.\<close>

lemma read_number_limit: "read_number radix max_digits zero limit v = Some (n, rest) \<Longrightarrow> n \<le> limit"
  by (auto simp: read_number_def Let_def split: if_splits)

lemma read_ipv4_length: "read_ipv4_addr v = Some (ip, rest) \<Longrightarrow> length ip = 4"
  by (auto simp: read_ipv4_addr_def split: Option.bind_splits)

lemma read_groups_length:
  "read_groups room index v = (groups, v4, rest) \<Longrightarrow> length groups \<le> room"
proof (induction room arbitrary: index v groups v4 rest)
  case (Suc room)
  then show ?case
    by (auto simp: v4_groups_def split: option.splits if_splits prod.splits list.splits)
qed simp

lemma parse_examples:
  "parse_socket_addr ''127.0.0.1:8080'' = Some (SocketV4 [127, 0, 0, 1] 8080)"
  "parse_socket_addr ''[::1]:80'' = Some (SocketV6 [0, 0, 0, 0, 0, 0, 0, 1] 0 80)"
  "parse_socket_addr ''127.0.0.01:8080'' = None"
  "parse_socket_addr ''127.0.0.1'' = None"
  "parse_socket_addr ''127.0.0.1:65536'' = None"
  "parse_socket_addr ''localhost:8080'' = None"
  by (simp_all add: reader_defs)

lemma parse_mixed_example:
  "parse_socket_addr ''[1:2::3.4.5.6%7]:80'' = Some (SocketV6 [1, 2, 0, 0, 0, 0, 772, 1286] 7 80)"
  by (simp add: reader_defs)

end
