(* ===== verification/Start_Up.thy ===== *)
theory Start_Up
  imports Tool_Dashboard Socket_Addr
begin

text \<open>
  The start of the server process: \<^verbatim>\<open>crates/qaas-server/src/main.rs\<close>, \<^verbatim>\<open>telemetry.rs\<close> and \<^verbatim>\<open>dashboard.rs\<close>.
  \<open>main_run\<close> is \<^verbatim>\<open>main\<close> as the list of what it does, in order; \<open>listeners\<close> reads off who is served. What
  the operating system and the packages for exporting, listening and serving answer is in \<open>boot_env\<close>.
  A task that \<^verbatim>\<open>main\<close> spawns dies with the process, so nothing is served once \<^verbatim>\<open>main\<close> has returned.
\<close>

section \<open>Configuration\<close>

definition DEFAULT_DATA_DIR :: string where
  "DEFAULT_DATA_DIR = ''./data/queues''"

definition DEFAULT_HTTP_ADDR :: string where
  "DEFAULT_HTTP_ADDR = ''127.0.0.1:8080''"

definition DEFAULT_DASHBOARD_ADDR :: string where
  "DEFAULT_DASHBOARD_ADDR = ''127.0.0.1:9091''"

definition DEFAULT_METRICS_ADDR :: string where
  "DEFAULT_METRICS_ADDR = ''127.0.0.1:9090''"

text \<open>How the stdio service ends, or that it has not ended.\<close>

datatype stdio_run = StdioFailed | StdioStopped | StdioPanicked | StdioRunning

record boot_env =
  be_var :: "string \<Rightarrow> string option"
  be_exporter :: "string \<Rightarrow> bool"
  be_create_dir :: "string \<Rightarrow> unit io_result"
  be_open_keys :: "string \<Rightarrow> key_record list io_result"
  be_open_audit :: "string \<Rightarrow> audit_event audit_record list io_result"
  be_install_metrics :: "socket_addr \<Rightarrow> bool"
  be_bind_http :: "string \<Rightarrow> unit io_result"
  be_bind_dashboard :: "socket_addr \<Rightarrow> unit io_result"
  be_stdio :: stdio_run

definition var_or :: "boot_env \<Rightarrow> string \<Rightarrow> string \<Rightarrow> string" where
  "var_or env name default_value = (case be_var env name of None \<Rightarrow> default_value | Some v \<Rightarrow> v)"

definition data_dir_of :: "boot_env \<Rightarrow> string" where
  "data_dir_of env = var_or env ''QAAS_DATA_DIR'' DEFAULT_DATA_DIR"

definition http_addr_of :: "boot_env \<Rightarrow> string" where
  "http_addr_of env = var_or env ''QAAS_HTTP_ADDR'' DEFAULT_HTTP_ADDR"

definition metrics_addr_of :: "boot_env \<Rightarrow> string" where
  "metrics_addr_of env = var_or env ''QAAS_METRICS_ADDR'' DEFAULT_METRICS_ADDR"

definition dashboard_addr_of :: "boot_env \<Rightarrow> string" where
  "dashboard_addr_of env = var_or env ''QAAS_DASHBOARD_ADDR'' DEFAULT_DASHBOARD_ADDR"

definition otel_endpoint :: "boot_env \<Rightarrow> string option" where
  "otel_endpoint env =
     (case be_var env ''QAAS_OTEL_ENDPOINT'' of None \<Rightarrow> None | Some v \<Rightarrow> if v = [] then None else Some v)"

section \<open>Starting\<close>

text \<open>What is logged, exported and served; \<open>Exited\<close> is the end of the process.\<close>

datatype boot_event =
  Subscribed "string option"
| ExporterNotBuilt string
| LoggedError string
| MetricsServed socket_addr
| HttpServed string
| HttpFailed string io_error
| DashboardServed socket_addr
| DashboardFailed socket_addr io_error
| StdioServed
| ServerPanicked
| Exited

definition init_tracing :: "boot_env \<Rightarrow> boot_event list" where
  "init_tracing env =
     (case otel_endpoint env of
        None \<Rightarrow> [Subscribed None]
      | Some endpoint \<Rightarrow>
          if be_exporter env endpoint then [Subscribed (Some endpoint)]
          else [ExporterNotBuilt endpoint, Subscribed None])"

definition start_metrics :: "boot_env \<Rightarrow> boot_event list" where
  "start_metrics env =
     (case parse_socket_addr (metrics_addr_of env) of
        Some addr \<Rightarrow>
          if be_install_metrics env addr then [MetricsServed addr]
          else [LoggedError ''failed to start Prometheus metrics listener'']
      | None \<Rightarrow> [LoggedError ''QAAS_METRICS_ADDR is not a valid address''])"

definition serve_http :: "boot_env \<Rightarrow> string \<Rightarrow> boot_event list" where
  "serve_http env addr =
     (case be_bind_http env addr of Inl e \<Rightarrow> [HttpFailed addr e] | Inr _ \<Rightarrow> [HttpServed addr])"

definition start_http :: "boot_env \<Rightarrow> boot_event list" where
  "start_http env = serve_http env (http_addr_of env)"

definition dashboard_serve :: "boot_env \<Rightarrow> socket_addr \<Rightarrow> boot_event list" where
  "dashboard_serve env addr =
     (case be_bind_dashboard env addr of Inl e \<Rightarrow> [DashboardFailed addr e] | Inr _ \<Rightarrow> [DashboardServed addr])"

definition start_dashboard :: "boot_env \<Rightarrow> boot_event list" where
  "start_dashboard env =
     (case parse_socket_addr (dashboard_addr_of env) of
        Some addr \<Rightarrow> dashboard_serve env addr
      | None \<Rightarrow> [LoggedError ''QAAS_DASHBOARD_ADDR is not a valid address''])"

definition run_stdio :: "boot_env \<Rightarrow> boot_event list" where
  "run_stdio env =
     (case be_stdio env of
        StdioFailed \<Rightarrow> [LoggedError ''failed to start MCP server'', Exited]
      | StdioStopped \<Rightarrow> [StdioServed, Exited]
      | StdioPanicked \<Rightarrow> [StdioServed, LoggedError ''MCP server task panicked'', Exited]
      | StdioRunning \<Rightarrow> [StdioServed])"

text \<open>
  The two spawned tasks are listed where they are spawned. They run beside the rest of \<^verbatim>\<open>main\<close>, which
  neither waits for them nor reads what they do.
\<close>

definition main_run :: "boot_env \<Rightarrow> 'j server option \<times> boot_event list" where
  "main_run env =
     (let data_dir = data_dir_of env in
      case be_create_dir env data_dir of
        Inl _ \<Rightarrow> (None, init_tracing env @ [LoggedError ''failed to create queue data directory'', Exited])
      | Inr _ \<Rightarrow>
          (case server_open (be_open_keys env data_dir) (be_open_audit env data_dir) of
             Inl (AuditIo _) \<Rightarrow>
               (None, init_tracing env @ [LoggedError ''failed to open queue data / API-key store'', Exited])
           | Inl ChannelPanic \<Rightarrow> (None, init_tracing env @ [ServerPanicked, Exited])
           | Inr server \<Rightarrow>
               (Some server,
                init_tracing env @ start_metrics env @ start_http env @ start_dashboard env @ run_stdio env)))"

section \<open>Serving\<close>

datatype listener = OnMetrics socket_addr | OnHttp string | OnDashboard socket_addr | OnStdio

fun boot_effect :: "boot_event \<Rightarrow> listener list \<Rightarrow> listener list" where
  "boot_effect (MetricsServed addr) ls = ls @ [OnMetrics addr]"
| "boot_effect (HttpServed addr) ls = ls @ [OnHttp addr]"
| "boot_effect (DashboardServed addr) ls = ls @ [OnDashboard addr]"
| "boot_effect StdioServed ls = ls @ [OnStdio]"
| "boot_effect Exited ls = []"
| "boot_effect _ ls = ls"

definition listeners :: "boot_event list \<Rightarrow> listener list" where
  "listeners events = fold boot_effect events []"

text \<open>
  The dashboard: its two routes, for axum to dispatch on, and what the handlers answer. The page is the
  text of a file, a parameter.
\<close>

datatype page = Index | Snapshot

definition dashboard_router :: "(string \<times> page) list" where
  "dashboard_router = [(''/'', Index), (''/api/snapshot'', Snapshot)]"

datatype 'p page_reply = Html 'p | Json dashboard

definition dashboard_page ::
  "'p \<Rightarrow> tool_lib \<Rightarrow> dashboard_env \<Rightarrow> page \<Rightarrow> ('j server, 'p page_reply) tool" where
  "dashboard_page html lib env page =
     (case page of Index \<Rightarrow> treturn (Html html) | Snapshot \<Rightarrow> tmap Json (dashboard_snapshot lib env))"

text \<open>
  A request to the HTTP listener. The authentication layer is around the whole router, so it comes before
  the choice of the service by the path; which paths belong to the service nested at \<^verbatim>\<open>/mcp\<close> is for axum to
  say. The keys are those of the running server, the JWT secret was read when the listener started.
\<close>

datatype 'r routed = NoRoute | Routed 'r

definition http_mount :: string where
  "http_mount = ''/mcp''"

definition http_request ::
  "boot_env \<Rightarrow> (string \<Rightarrow> 'k) \<Rightarrow> (string \<Rightarrow> string \<Rightarrow> bool) \<Rightarrow> tool_lib \<Rightarrow> (u8 list \<Rightarrow> string option)
   \<Rightarrow> ('k \<Rightarrow> string \<Rightarrow> string option) \<Rightarrow> 'j tool_env \<Rightarrow> string \<Rightarrow> u8 list option \<Rightarrow> 'j tool_request
   \<Rightarrow> 'j server \<Rightarrow> (mcp_error + 'j tool_reply) routed http_outcome \<times> 'j server" where
  "http_request benv from_secret nested lib to_str decode env path authorization request s =
     (case require_tenant (lib_sha256 lib) to_str decode
             (\<lambda>t. if nested http_mount path
                  then case tool_call lib env (Some t) request s of (res, s) \<Rightarrow> (Routed res, s)
                  else (NoRoute, s))
             (auth_state_new from_secret (be_var benv ''QAAS_JWT_SECRET'') (sv_api_keys s)) authorization of
        Unauthorized m \<Rightarrow> (Unauthorized m, s)
      | NextRan (res, s) \<Rightarrow> (NextRan res, s))"

section \<open>What a start guarantees\<close>

lemma listeners_append: "listeners (events @ rest) = fold boot_effect rest (listeners events)"
  by (simp add: listeners_def)

lemma listeners_tracing [simp]: "listeners (init_tracing env) = []"
  by (simp add: listeners_def init_tracing_def split: option.split)

lemma fold_metrics: "fold boot_effect (start_metrics env) ls = ls @
    (case parse_socket_addr (metrics_addr_of env) of
       None \<Rightarrow> [] | Some addr \<Rightarrow> if be_install_metrics env addr then [OnMetrics addr] else [])"
  by (simp add: start_metrics_def split: option.split)

lemma fold_http: "fold boot_effect (start_http env) ls = ls @
    (case be_bind_http env (http_addr_of env) of Inl _ \<Rightarrow> [] | Inr _ \<Rightarrow> [OnHttp (http_addr_of env)])"
  by (simp add: start_http_def serve_http_def split: sum.split)

lemma fold_dashboard: "fold boot_effect (start_dashboard env) ls = ls @
    (case parse_socket_addr (dashboard_addr_of env) of
       None \<Rightarrow> [] | Some addr \<Rightarrow> (case be_bind_dashboard env addr of Inl _ \<Rightarrow> [] | Inr _ \<Rightarrow> [OnDashboard addr]))"
  by (simp add: start_dashboard_def dashboard_serve_def split: option.split sum.split)

lemma fold_stdio: "fold boot_effect (run_stdio env) ls = (if be_stdio env = StdioRunning then ls @ [OnStdio] else [])"
  by (cases "be_stdio env") (simp_all add: run_stdio_def)

lemmas fold_boot = fold_metrics fold_http fold_dashboard fold_stdio

lemma last_stdio: "be_stdio env \<noteq> StdioRunning \<Longrightarrow> run_stdio env \<noteq> [] \<and> last (run_stdio env) = Exited"
  by (cases "be_stdio env") (simp_all add: run_stdio_def)

lemma default_addresses:
  "parse_socket_addr DEFAULT_METRICS_ADDR = Some (SocketV4 [127, 0, 0, 1] 9090)"
  "parse_socket_addr DEFAULT_HTTP_ADDR = Some (SocketV4 [127, 0, 0, 1] 8080)"
  "parse_socket_addr DEFAULT_DASHBOARD_ADDR = Some (SocketV4 [127, 0, 0, 1] 9091)"
  by (simp_all add: DEFAULT_METRICS_ADDR_def DEFAULT_HTTP_ADDR_def DEFAULT_DASHBOARD_ADDR_def reader_defs)

text \<open>The two outcomes of \<^const>\<open>main_run\<close>: given up before anything is served, or started.\<close>

lemma main_run_cases:
  assumes "main_run env = (server, events)"
  obtains (given_up) "server = None" "listeners events = []" "last events = Exited"
      "(\<exists>e. be_create_dir env (data_dir_of env) = Inl e) \<or>
       (\<exists>e. server_open (be_open_keys env (data_dir_of env)) (be_open_audit env (data_dir_of env)) = (Inl e :: audit_open_error + 'j server))"
    | (started) s where "server = Some (s :: 'j server)" "be_create_dir env (data_dir_of env) = Inr ()"
      "server_open (be_open_keys env (data_dir_of env)) (be_open_audit env (data_dir_of env)) = Inr s"
      "events = init_tracing env @ start_metrics env @ start_http env @ start_dashboard env @ run_stdio env"
proof (cases "be_create_dir env (data_dir_of env)")
  case (Inl e)
  then show ?thesis using assms given_up by (auto simp: main_run_def listeners_append)
next
  case (Inr u)
  show ?thesis
  proof (cases "server_open (be_open_keys env (data_dir_of env)) (be_open_audit env (data_dir_of env)) :: audit_open_error + 'j server")
    case e: (Inl e)
    then show ?thesis using assms given_up Inr by (cases e) (auto simp: main_run_def listeners_append)
  next
    case (Inr s)
    then show ?thesis
      using assms started \<open>be_create_dir env (data_dir_of env) = Inr u\<close> by (auto simp: main_run_def)
  qed
qed

text \<open>
  C19: what a start serves. The process serves nothing when the data directory cannot be created or the key
  store or the audit log cannot be opened, and nothing after the stdio service has ended. While that
  service runs, the HTTP listener is up exactly if its address could be bound, and the metrics and
  dashboard listeners exactly if their configured address is well formed and could be bound: no failure of
  one keeps another from starting. Without configuration all three addresses are loopback addresses with
  different ports.
\<close>

theorem start_up_contract:
  assumes run: "main_run env = (server :: 'j server option, events)"
  shows "(server = None \<longleftrightarrow> (\<exists>e. be_create_dir env (data_dir_of env) = Inl e) \<or>
      (\<exists>e. server_open (be_open_keys env (data_dir_of env)) (be_open_audit env (data_dir_of env)) = (Inl e :: audit_open_error + 'j server))) \<and>
    (if server = None \<or> be_stdio env \<noteq> StdioRunning then listeners events = [] \<and> last events = Exited
     else OnStdio \<in> set (listeners events) \<and>
       (\<forall>a. OnHttp a \<in> set (listeners events) \<longleftrightarrow> a = http_addr_of env \<and> be_bind_http env a = Inr ()) \<and>
       (\<forall>a. OnMetrics a \<in> set (listeners events) \<longleftrightarrow>
          parse_socket_addr (metrics_addr_of env) = Some a \<and> be_install_metrics env a) \<and>
       (\<forall>a. OnDashboard a \<in> set (listeners events) \<longleftrightarrow>
          parse_socket_addr (dashboard_addr_of env) = Some a \<and> be_bind_dashboard env a = Inr ())) \<and>
    (be_var env = Map.empty \<longrightarrow>
       (\<exists>h m d. parse_socket_addr (http_addr_of env) = Some h \<and> parse_socket_addr (metrics_addr_of env) = Some m \<and>
          parse_socket_addr (dashboard_addr_of env) = Some d \<and> is_loopback h \<and> is_loopback m \<and> is_loopback d \<and>
          distinct [socket_port h, socket_port m, socket_port d]))"
    (is "?opened \<and> ?served \<and> ?defaults")
proof (intro conjI)
  show ?opened by (rule main_run_cases [OF run]) auto
  show ?served
  proof (rule main_run_cases [OF run])
    fix s assume s: "server = Some s"
      and events: "events = init_tracing env @ start_metrics env @ start_http env @ start_dashboard env @ run_stdio env"
    have served: "listeners events = fold boot_effect (run_stdio env) (fold boot_effect (start_dashboard env)
        (fold boot_effect (start_http env) (fold boot_effect (start_metrics env) [])))"
      by (simp add: events listeners_append)
    show ?served
    proof (cases "be_stdio env = StdioRunning")
      case True
      then show ?thesis using s by (auto simp: served fold_boot split: option.splits sum.splits)
    next
      case False
      then have "listeners events = []" by (simp add: served fold_stdio)
      moreover have "last events = Exited" using last_stdio [OF False] by (simp add: events)
      ultimately show ?thesis using False by simp
    qed
  qed simp
  show ?defaults
    by (simp add: http_addr_of_def metrics_addr_of_def dashboard_addr_of_def var_or_def default_addresses)
qed

definition sample_boot :: boot_env where
  "sample_boot = \<lparr> be_var = Map.empty, be_exporter = (\<lambda>_. True), be_create_dir = (\<lambda>_. Inr ()),
     be_open_keys = (\<lambda>_. Inr []), be_open_audit = (\<lambda>_. Inr []), be_install_metrics = (\<lambda>_. True),
     be_bind_http = (\<lambda>_. Inr ()), be_bind_dashboard = (\<lambda>_. Inl OtherIo), be_stdio = StdioRunning \<rparr>"

theorem start_up_contract_witness:
  "let (server, events) = main_run sample_boot in
   (server :: unit server option) \<noteq> None \<and> OnHttp ''127.0.0.1:8080'' \<in> set (listeners events) \<and>
   OnMetrics (SocketV4 [127, 0, 0, 1] 9090) \<in> set (listeners events) \<and>
   OnDashboard (SocketV4 [127, 0, 0, 1] 9091) \<notin> set (listeners events)"
proof -
  obtain server :: "unit server option" and events where run: "main_run sample_boot = (server, events)" by fastforce
  have opened: "\<exists>s. server_open (Inr []) (Inr []) = (Inr s :: audit_open_error + unit server)"
    by (simp add: server_open_def keys_open_def audit_open_def audit_DEFAULT_def)
  have sample: "http_addr_of sample_boot = ''127.0.0.1:8080''"
    "parse_socket_addr (metrics_addr_of sample_boot) = Some (SocketV4 [127, 0, 0, 1] 9090)"
    "parse_socket_addr (dashboard_addr_of sample_boot) = Some (SocketV4 [127, 0, 0, 1] 9091)"
    "be_stdio sample_boot = StdioRunning" "be_bind_http sample_boot a = Inr ()" "be_install_metrics sample_boot m"
    "be_bind_dashboard sample_boot d = Inl OtherIo" "be_create_dir sample_boot p = Inr ()"
    "be_open_keys sample_boot p = Inr []" "be_open_audit sample_boot p = Inr []" for a m d p
    by (simp_all add: sample_boot_def http_addr_of_def metrics_addr_of_def dashboard_addr_of_def var_or_def
        default_addresses DEFAULT_HTTP_ADDR_def)
  from start_up_contract [OF run] opened show ?thesis by (auto simp: run sample)
qed

section \<open>Every path is guarded\<close>

text \<open>
  Whatever the path, a request without a good credential is refused and changes nothing; one with a good
  credential is the tool call of the theory \<open>Tool_Server\<close> if its path belongs to the service.
\<close>

lemma http_request_guarded:
  "http_request benv from_secret nested lib to_str decode env path authorization request s =
     (case http_call lib to_str decode (as_jwt_key (auth_state_new from_secret (be_var benv ''QAAS_JWT_SECRET'') (sv_api_keys s)))
             env authorization request s of
        (Unauthorized m, s') \<Rightarrow> (Unauthorized m, s)
      | (NextRan res, s') \<Rightarrow> if nested http_mount path then (NextRan (Routed res), s') else (NextRan NoRoute, s))"
  by (simp add: http_request_def http_call_def require_tenant_def auth_state_new_def
      split: http_outcome.splits option.splits prod.splits sum.splits)

end
